(* ===== verification/Prelude.thy ===== *)
theory Prelude
  imports Main "HOL-Library.Word"
begin

text \<open>
  What the components share: the names of the machine types, byte strings and their
  little-endian encodings (the code stores integers with \<open>memcpy\<close> on x86-64), buffers that are
  overwritten in place, and the result type of operations that can fault.

  A result is \<open>Inr\<close> of what the C++ code computes, or \<open>Inl\<close> of the way the execution goes
  wrong: it never returns, writes past a heap buffer, reads past one, dereferences a null
  pointer, divides by zero, frees what is not a heap object, throws on an allocation of negative size,
  or leaves the process through \<open>exit\<close>.
\<close>

unbundle bit_operations_syntax

type_synonym byte = "8 word"
type_synonym u32 = "32 word"
type_synonym u64 = "64 word"
type_synonym bytes = "byte list"

named_theorems bytes_simps \<open>slices, overwriting and encodings of byte strings\<close>

subsection \<open>Faults\<close>

datatype fault = Hang | Heap_Overflow | Over_Read | Null_Deref | Div_By_Zero | Bad_Free | Bad_Alloc | Exit

type_synonym 'a res = "fault + 'a"

definition rbind :: "'a res \<Rightarrow> ('a \<Rightarrow> 'b res) \<Rightarrow> 'b res" where
  "rbind m f = (case m of Inl e \<Rightarrow> Inl e | Inr x \<Rightarrow> f x)"

lemma rbind_simps [simp]:
  "rbind (Inl e) f = Inl e"
  "rbind (Inr x) f = f x"
  by (simp_all add: rbind_def)

lemma rbind_Inr_iff: "rbind m f = Inr y \<longleftrightarrow> (\<exists>x. m = Inr x \<and> f x = Inr y)"
  by (cases m) auto

definition of_option :: "'a option \<Rightarrow> 'a res" where
  "of_option x = (case x of None \<Rightarrow> Inl Hang | Some y \<Rightarrow> Inr y)"

lemma of_option_simps [simp]:
  "of_option None = Inl Hang"
  "of_option (Some y) = Inr y"
  by (simp_all add: of_option_def)

text \<open>The use of a pointer, None for a null pointer.\<close>

definition deref :: "'a option \<Rightarrow> 'a res" where
  "deref x = (case x of None \<Rightarrow> Inl Null_Deref | Some y \<Rightarrow> Inr y)"

lemma deref_simps [simp]:
  "deref None = Inl Null_Deref"
  "deref (Some y) = Inr y"
  by (simp_all add: deref_def)

text \<open>A fallible function on all elements of a list.\<close>

fun mapr :: "('a \<Rightarrow> 'b res) \<Rightarrow> 'a list \<Rightarrow> 'b list res" where
  "mapr f [] = Inr []"
| "mapr f (x # xs) = rbind (f x) (\<lambda>y. rbind (mapr f xs) (\<lambda>ys. Inr (y # ys)))"

lemma mapr_ok: "(\<And>x. x \<in> set xs \<Longrightarrow> f x = Inr (g x)) \<Longrightarrow> mapr f xs = Inr (map g xs)"
  by (induction xs) auto

text \<open>Operations that thread a state and can fault, and their sequencing.\<close>

type_synonym ('s, 'a) op = "'s \<Rightarrow> ('a \<times> 's) res"

definition ret :: "'a \<Rightarrow> ('s, 'a) op" where
  "ret x s = Inr (x, s)"

definition sbind :: "('s, 'a) op \<Rightarrow> ('a \<Rightarrow> ('s, 'b) op) \<Rightarrow> ('s, 'b) op" where
  "sbind m f s = rbind (m s) (\<lambda>(x, s'). f x s')"

lemma sbind_step [simp]: "m s = Inr (x, s') \<Longrightarrow> sbind m f s = f x s'"
  by (simp add: sbind_def)

lemma sbind_fault [simp]: "m s = Inl e \<Longrightarrow> sbind m f s = Inl e"
  by (simp add: sbind_def)

lemma ret_apply [simp]: "ret x s = Inr (x, s)"
  by (simp add: ret_def)

lemma sbind_Inr_iff: "sbind m f s = Inr y \<longleftrightarrow> (\<exists>x s'. m s = Inr (x, s') \<and> f x s' = Inr y)"
  by (cases "m s") (auto simp: sbind_def)

subsection \<open>Slices of a byte string, and overwriting part of a buffer\<close>

definition chunk :: "nat \<Rightarrow> nat \<Rightarrow> 'a list \<Rightarrow> 'a list" where
  "chunk off n xs = take n (drop off xs)"

definition overwrite :: "'a list \<Rightarrow> nat \<Rightarrow> 'a list \<Rightarrow> 'a list" where
  "overwrite buf off ys = take off buf @ ys @ drop (off + length ys) buf"

lemma length_chunk [simp]: "off + n \<le> length xs \<Longrightarrow> length (chunk off n xs) = n"
  by (simp add: chunk_def)

lemma chunk_append_left [bytes_simps]:
  "off + n \<le> length xs \<Longrightarrow> chunk off n (xs @ ys) = chunk off n xs"
  by (simp add: chunk_def)

lemma chunk_append_right [bytes_simps]:
  "chunk (length xs + off) n (xs @ ys) = chunk off n ys"
  by (simp add: chunk_def)

lemma chunk_at_end [bytes_simps]:
  "off = length xs \<Longrightarrow> n = length ys \<Longrightarrow> chunk off n (xs @ ys @ zs) = ys"
  by (simp add: chunk_def)

lemma chunk_prefix:
  assumes "off + n \<le> m" "take m xs = take m ys"
  shows "chunk off n xs = chunk off n ys"
proof -
  have "take n (drop off (take m xs)) = take n (drop off (take m ys))"
    by (simp add: assms(2))
  moreover have "n \<le> m - off"
    using assms(1) by simp
  ultimately show ?thesis
    by (simp add: chunk_def drop_take min_absorb1)
qed

lemma chunk_chunk:
  assumes "b + c \<le> m"
  shows "chunk b c (chunk a m xs) = chunk (a + b) c xs"
  using assms by (simp add: chunk_def drop_take min_def add.commute)

lemma length_overwrite [simp]:
  "off + length ys \<le> length buf \<Longrightarrow> length (overwrite buf off ys) = length buf"
  by (simp add: overwrite_def)

lemma take_overwrite [bytes_simps]:
  "off + length ys \<le> length buf \<Longrightarrow>
   take (off + length ys) (overwrite buf off ys) = take off buf @ ys"
  by (simp add: overwrite_def)

subsection \<open>Words that do not wrap around\<close>

lemma unat_of_nat_small:
  "n < 2 ^ LENGTH('a) \<Longrightarrow> unat (of_nat n :: 'a::len word) = n"
  by (simp add: unat_of_nat)

lemma of_nat_inject_small:
  "n < 2 ^ LENGTH('a) \<Longrightarrow> m < 2 ^ LENGTH('a) \<Longrightarrow> (of_nat n :: 'a::len word) = of_nat m \<longleftrightarrow> n = m"
  using unat_of_nat_small [of n, where 'a = 'a] unat_of_nat_small [of m, where 'a = 'a] by metis

lemma unat_add_small:
  "unat a + unat b < 2 ^ LENGTH('a) \<Longrightarrow> unat (a + b) = unat a + unat (b :: 'a::len word)"
  using unat_add_lem [of a b] by simp

lemma unat_sub_small:
  "unat b \<le> unat a \<Longrightarrow> unat (a - b) = unat a - unat (b :: 'a::len word)"
  by (simp add: unat_sub word_le_nat_alt)

subsection \<open>Little-endian integers in memory\<close>

primrec to_le :: "nat \<Rightarrow> 'a::len word \<Rightarrow> bytes" where
  "to_le 0 w = []"
| "to_le (Suc n) w = ucast w # to_le n (drop_bit 8 w)"

primrec of_le :: "bytes \<Rightarrow> 'a::len word" where
  "of_le [] = 0"
| "of_le (b # bs) = ucast b OR push_bit 8 (of_le bs)"

lemma length_to_le [simp]: "length (to_le n w) = n"
  by (induction n arbitrary: w) simp_all

lemma of_le_to_le: "of_le (to_le n w) = take_bit (8 * n) (w :: 'a::len word)"
proof (induction n arbitrary: w)
  case 0
  show ?case by simp
next
  case (Suc n)
  show ?case
  proof (rule bit_word_eqI)
    fix i assume "i < LENGTH('a)"
    then show "bit (of_le (to_le (Suc n) w) :: 'a word) i = bit (take_bit (8 * Suc n) w) i"
      by (auto simp: Suc.IH bit_simps)
  qed
qed

lemma of_le_to_le_full: "LENGTH('a) \<le> 8 * n \<Longrightarrow> of_le (to_le n (w :: 'a::len word)) = w"
  by (simp add: of_le_to_le take_bit_word_eq_self)

lemma of_le_to_le_u64 [simp]: "of_le (to_le 8 (w :: u64)) = w"
  by (simp add: of_le_to_le_full)

lemma of_le_to_le_u32 [simp]: "of_le (to_le 4 (w :: u32)) = w"
  by (simp add: of_le_to_le_full)

lemma bit_of_le: "bit (of_le bs :: 'a::len word) i \<Longrightarrow> i < 8 * length bs"
proof (induction bs arbitrary: i)
  case (Cons b bs)
  have "i - 8 < 8 * length bs" if "bit (of_le bs :: 'a word) (i - 8)" by (rule Cons.IH [OF that])
  then show ?case using Cons.prems bit_imp_le_length [of b i] by (auto simp: bit_simps)
qed simp

lemma to_le_of_le: "8 * length bs \<le> LENGTH('a) \<Longrightarrow> to_le (length bs) (of_le bs :: 'a::len word) = bs"
proof (induction bs)
  case (Cons b bs)
  let ?w = "of_le bs :: 'a word"
  have "(ucast (ucast b OR push_bit 8 ?w) :: byte) = b"
    using Cons.prems by (auto intro!: bit_word_eqI simp: bit_simps)
  moreover have "drop_bit 8 (ucast b OR push_bit 8 ?w) = ?w"
  proof (rule bit_word_eqI)
    fix i
    have "i < 8 * length bs" if "bit ?w i" using that by (rule bit_of_le)
    then show "bit (drop_bit 8 (ucast b OR push_bit 8 ?w)) i = bit ?w i"
      using Cons.prems bit_imp_le_length [of b "8 + i"] by (auto simp: bit_simps)
  qed
  ultimately show ?case using Cons by simp
qed simp

end
