(* ===== verification/Slices.thy ===== *)
theory Slices
  imports Prelude
begin

text \<open>
  \<open>Slice\<close> of include/wisckey/slice.h (the newdb copy has the same text): a pointer and a length,
  read as the byte string it refers to. \<open>memcmp\<close> of the C library compares bytes as unsigned
  values and is modelled here. The lemmas show that \<open>compare\<close> is the three-way comparison of
  the lexicographic order on byte strings and that \<open>operator==\<close> is equality of contents.
\<close>

fun memcmp :: "bytes \<Rightarrow> bytes \<Rightarrow> int" where
  "memcmp (x # xs) (y # ys) =
     (if x < y then -1 else if y < x then 1 else memcmp xs ys)"
| "memcmp _ _ = 0"

definition slice_empty :: "bytes \<Rightarrow> bool" where
  "slice_empty s \<longleftrightarrow> length s = 0"

definition slice_remove_prefix :: "nat \<Rightarrow> bytes \<Rightarrow> bytes res" where
  "slice_remove_prefix n s = (if n \<le> length s then Inr (drop n s) else Inl Over_Read)"

definition slice_compare :: "bytes \<Rightarrow> bytes \<Rightarrow> int" where
  "slice_compare a b =
     (let min_len = (if length a < length b then length a else length b);
          r = memcmp (take min_len a) (take min_len b)
      in if r = 0 then (if length a < length b then -1 else if length a > length b then 1 else r)
         else r)"

definition slice_starts_with :: "bytes \<Rightarrow> bytes \<Rightarrow> bool" where
  "slice_starts_with s x \<longleftrightarrow>
     length s \<ge> length x \<and> memcmp (take (length x) s) (take (length x) x) = 0"

definition slice_eq :: "bytes \<Rightarrow> bytes \<Rightarrow> bool" where
  "slice_eq x y \<longleftrightarrow> length x = length y \<and> memcmp (take (length x) x) (take (length x) y) = 0"

definition slice_neq :: "bytes \<Rightarrow> bytes \<Rightarrow> bool" where
  "slice_neq x y \<longleftrightarrow> \<not> slice_eq x y"

text \<open>The specification: the lexicographic order in which a proper prefix comes first.\<close>

fun lex_less :: "bytes \<Rightarrow> bytes \<Rightarrow> bool" where
  "lex_less _ [] = False"
| "lex_less [] (_ # _) = True"
| "lex_less (x # xs) (y # ys) = (x < y \<or> x = y \<and> lex_less xs ys)"

lemma memcmp_refl [simp]: "memcmp xs xs = 0"
  by (induction xs) simp_all

lemma memcmp_0_iff: "length xs = length ys \<Longrightarrow> memcmp xs ys = 0 \<longleftrightarrow> xs = ys"
  by (induction xs ys rule: list_induct2) auto

lemma slice_eq_iff [simp]: "slice_eq x y \<longleftrightarrow> x = y"
  by (auto simp: slice_eq_def memcmp_0_iff)

lemma slice_neq_iff [simp]: "slice_neq x y \<longleftrightarrow> x \<noteq> y"
  by (simp add: slice_neq_def)

lemma slice_compare_Cons [simp]:
  "slice_compare (x # xs) (y # ys) =
     (if x < y then -1 else if y < x then 1 else slice_compare xs ys)"
  by (auto simp: slice_compare_def Let_def)

lemma slice_compare_Nil [simp]:
  "slice_compare [] [] = 0"
  "slice_compare [] (y # ys) = -1"
  "slice_compare (x # xs) [] = 1"
  by (simp_all add: slice_compare_def)

lemma slice_compare_cases:
  "slice_compare a b = (if a = b then 0 else if lex_less a b then -1 else 1)"
proof (induction a b rule: lex_less.induct)
  case (1 a)
  then show ?case by (cases a) simp_all
qed auto

lemma lex_less_irrefl [simp]: "\<not> lex_less a a"
  by (induction a) simp_all

lemma lex_less_trans: "lex_less a b \<Longrightarrow> lex_less b c \<Longrightarrow> lex_less a c"
proof (induction a b arbitrary: c rule: lex_less.induct)
  case (3 x xs y ys)
  then show ?case by (cases c) auto
next
  case (2 y ys)
  then show ?case by (cases c) auto
qed simp

lemma lex_less_total: "a \<noteq> b \<Longrightarrow> lex_less a b \<or> lex_less b a"
proof (induction a b rule: lex_less.induct)
  case (1 a)
  then show ?case by (cases a) auto
next
  case (3 x xs y ys)
  then show ?case by (auto simp: not_less_iff_gr_or_eq dest: order.asym)
qed simp

lemma slice_starts_with_iff: "slice_starts_with s x \<longleftrightarrow> (\<exists>t. s = x @ t)"
proof
  assume "slice_starts_with s x"
  then have "take (length x) s = x"
    using memcmp_0_iff [of "take (length x) s" x] by (simp add: slice_starts_with_def)
  then show "\<exists>t. s = x @ t"
    by (metis append_take_drop_id)
qed (auto simp: slice_starts_with_def)

lemma slice_compare_signs:
  "slice_compare a b < 0 \<longleftrightarrow> lex_less a b" "slice_compare a b = 0 \<longleftrightarrow> a = b"
  "slice_compare a b \<le> 0 \<longleftrightarrow> a = b \<or> lex_less a b"
  by (auto simp: slice_compare_cases)

end
