(* ===== verification/HandleTable.thy ===== *)
theory HandleTable
  imports Slices "HOL-Library.Multiset"
begin

text \<open>
  The cache handles and the chained hash table of src/cache/lru_cache.h and lru_cache.cc
  (\<open>LRUHandle\<close>, \<open>LRUHandleTable\<close>). Handles live in a heap, a partial map from addresses; a bucket
  is the list of the addresses linked by \<open>next_hash\<close>. \<open>list_\<close> (here \<open>ht_list\<close>) has \<open>length_\<close> buckets, a power of two.

  The counter \<open>elems_\<close> is only ever incremented, and both it and \<open>length_\<close> are 32 bits wide, so the
  loop of \<open>Resize\<close> can run forever: \<open>grow\<close> is a partial function and \<open>None\<close> means that the call
  does not return.
\<close>

type_synonym addr = nat

record 'v handle =
  hvalue :: 'v
  key_data :: bytes
  charge :: nat
  inCache :: "8 word"
  hash :: u32
  refs :: u32

type_synonym ('v, 'm) heap = "addr \<Rightarrow> ('v, 'm) handle_scheme option"

definition Ref :: "('v, 'm) handle_scheme \<Rightarrow> ('v, 'm) handle_scheme" where
  "Ref h = h\<lparr>refs := refs h + 1\<rparr>"

definition Unref :: "('v, 'm) handle_scheme \<Rightarrow> bool \<times> ('v, 'm) handle_scheme" where
  "Unref h = (let h' = h\<lparr>refs := refs h - 1\<rparr> in (refs h' = 0, h'))"

definition InCache :: "('v, 'm) handle_scheme \<Rightarrow> bool" where
  "InCache h \<longleftrightarrow> inCache h = 0"

definition SetInCache :: "bool \<Rightarrow> ('v, 'm) handle_scheme \<Rightarrow> ('v, 'm) handle_scheme" where
  "SetInCache flag h = h\<lparr>inCache := (if flag then 0 else 1)\<rparr>"

definition HasRefs :: "('v, 'm) handle_scheme \<Rightarrow> bool" where
  "HasRefs h \<longleftrightarrow> refs h > 0"

text \<open>\<open>sizeof(LRUHandle)\<close> on x86-64; \<open>FIFOHandle\<close> has the same fields.\<close>

definition sizeof_LRUHandle :: nat where
  "sizeof_LRUHandle = 72"

definition CalcTotalCharge :: "('v, 'm) handle_scheme \<Rightarrow> nat" where
  "CalcTotalCharge h = charge h + sizeof_LRUHandle - 1 + length (key_data h)"

record table =
  ht_list :: "addr list list"
  ht_length :: u32
  ht_elems :: u32

definition hash_idx :: "u32 \<Rightarrow> u32 \<Rightarrow> nat" where
  "hash_idx hs len = unat (hs AND (len - 1))"

definition matches :: "('v, 'm) heap \<Rightarrow> bytes \<Rightarrow> u32 \<Rightarrow> addr \<Rightarrow> bool" where
  "matches hp key hs a =
     (case hp a of None \<Rightarrow> False | Some h \<Rightarrow> \<not> (hash h \<noteq> hs \<or> slice_neq key (key_data h)))"

subsection \<open>Operations\<close>

partial_function (option) grow :: "u32 \<Rightarrow> u32 \<Rightarrow> u32 option" where
  "grow new_length elems =
     (if new_length < push_bit 1 elems then grow (push_bit 1 new_length) elems
      else Some new_length)"

definition rehash_one :: "('v, 'm) heap \<Rightarrow> u32 \<Rightarrow> addr list list \<Rightarrow> addr \<Rightarrow> addr list list" where
  "rehash_one hp n nl a =
     (case hp a of None \<Rightarrow> nl
      | Some h \<Rightarrow> let i = hash_idx (hash h) n in nl[i := a # nl ! i])"

definition LRUHandleTable_Resize :: "('v, 'm) heap \<Rightarrow> table \<Rightarrow> table option" where
  "LRUHandleTable_Resize hp t =
     (let n0 = (if ht_length t = 0 then 16 else push_bit 1 (ht_length t))
      in case grow n0 (ht_elems t) of
           None \<Rightarrow> None
         | Some n \<Rightarrow>
             Some (t\<lparr>ht_list := foldl (rehash_one hp n) (replicate (unat n) []) (concat (ht_list t)),
                     ht_length := n\<rparr>))"

definition LRUHandleTable_FindPointer ::
    "('v, 'm) heap \<Rightarrow> table \<Rightarrow> bytes \<Rightarrow> u32 \<Rightarrow> addr option" where
  "LRUHandleTable_FindPointer hp t key hs =
     find (matches hp key hs) (ht_list t ! hash_idx hs (ht_length t))"

definition LRUHandleTable_Lookup ::
    "('v, 'm) heap \<Rightarrow> table \<Rightarrow> bytes \<Rightarrow> u32 \<Rightarrow> addr option" where
  "LRUHandleTable_Lookup hp t key hs = LRUHandleTable_FindPointer hp t key hs"

definition LRUHandleTable_Insert ::
    "('v, 'm) heap \<Rightarrow> table \<Rightarrow> addr \<Rightarrow> ('v, 'm) handle_scheme \<Rightarrow> (addr \<times> table) option" where
  "LRUHandleTable_Insert hp t a h =
     (case LRUHandleTable_FindPointer hp t (key_data h) (hash h) of
        Some old \<Rightarrow> Some (old, t)
      | None \<Rightarrow>
          let i = hash_idx (hash h) (ht_length t);
              t1 = t\<lparr>ht_list := (ht_list t)[i := a # ht_list t ! i], ht_elems := ht_elems t + 1\<rparr>
          in if ht_elems t1 > ht_length t1
             then map_option (Pair a) (LRUHandleTable_Resize hp t1)
             else Some (a, t1))"

definition LRUHandleTable_Remove ::
    "('v, 'm) heap \<Rightarrow> table \<Rightarrow> bytes \<Rightarrow> u32 \<Rightarrow> addr option \<times> table" where
  "LRUHandleTable_Remove hp t key hs =
     (let i = hash_idx hs (ht_length t)
      in case find (matches hp key hs) (ht_list t ! i) of
           None \<Rightarrow> (None, t)
         | Some a \<Rightarrow> (Some a, t\<lparr>ht_list := (ht_list t)[i := remove1 a (ht_list t ! i)]\<rparr>))"

definition LRUHandleTable_new :: "('v, 'm) heap \<Rightarrow> table option" where
  "LRUHandleTable_new hp = LRUHandleTable_Resize hp \<lparr>ht_list = [], ht_length = 0, ht_elems = 0\<rparr>"

subsection \<open>Invariant\<close>

text \<open>The part of a handle that the table reads.\<close>

definition kh :: "('v, 'm) heap \<Rightarrow> addr \<Rightarrow> (bytes \<times> u32) option" where
  "kh hp a = map_option (\<lambda>h. (key_data h, hash h)) (hp a)"

definition entries :: "table \<Rightarrow> addr set" where
  "entries t = set (concat (ht_list t))"

definition buckets_ok :: "('v, 'm) heap \<Rightarrow> u32 \<Rightarrow> addr list list \<Rightarrow> bool" where
  "buckets_ok hp n bs \<longleftrightarrow>
     length bs = unat n \<and>
     (\<forall>i < length bs. \<forall>a \<in> set (bs ! i). \<exists>k hs. kh hp a = Some (k, hs) \<and> hash_idx hs n = i)"

definition pow2_length :: "u32 \<Rightarrow> bool" where
  "pow2_length n \<longleftrightarrow> (\<exists>k. 4 \<le> k \<and> k \<le> 31 \<and> n = 2 ^ k)"

definition ht_inv :: "('v, 'm) heap \<Rightarrow> table \<Rightarrow> bool" where
  "ht_inv hp t \<longleftrightarrow>
     pow2_length (ht_length t) \<and> buckets_ok hp (ht_length t) (ht_list t) \<and>
     distinct (concat (ht_list t)) \<and> inj_on (kh hp) (entries t)"

lemma matches_kh: "matches hp key hs a \<longleftrightarrow> kh hp a = Some (key, hs)"
  by (auto simp: matches_def kh_def split: option.split)

lemma pow2_unat: "k \<le> 31 \<Longrightarrow> unat (2 ^ k :: u32) = 2 ^ k"
  by (simp add: unat_of_nat_small [of "2 ^ k", simplified])

lemma hash_idx_mod: "k \<le> 31 \<Longrightarrow> hash_idx hs (2 ^ k) = unat hs mod 2 ^ k"
  by (simp add: hash_idx_def flip: mask_eq_exp_minus_1 take_bit_eq_mask take_bit_eq_mod
      add: unsigned_take_bit_eq)

lemma hash_idx_less: "pow2_length n \<Longrightarrow> hash_idx hs n < unat n"
  by (auto simp: pow2_length_def hash_idx_mod pow2_unat)


subsection \<open>The resizing loop\<close>

text \<open>
  As long as twice the element count fits 31 bits, the loop stops at a power of two that is
  at least that large. From zero it never stops.
\<close>

lemma push_bit_1_pow2: "k \<le> 30 \<Longrightarrow> push_bit 1 (2 ^ k :: u32) = 2 ^ Suc k"
  by (simp add: push_bit_eq_mult)

lemma grow_returns:
  assumes "4 \<le> k" "k \<le> 31" "unat e \<le> 2 ^ 30"
  shows "\<exists>j. k \<le> j \<and> j \<le> 31 \<and> grow (2 ^ k) e = Some (2 ^ j)"
  using assms
proof (induction "31 - k" arbitrary: k)
  case 0
  then have k: "k = 31" by simp
  have "unat (push_bit 1 e) \<le> 2 ^ 31"
    using 0 by (simp add: push_bit_eq_mult unat_word_ariths mod_le_divisor)
  then have "\<not> (2 ^ k :: u32) < push_bit 1 e"
    using k pow2_unat [of 31] by (simp add: word_less_nat_alt)
  then show ?case
    using k by (subst grow.simps) auto
next
  case (Suc d)
  then have "d = 31 - Suc k" "Suc k \<le> 31" by simp_all
  then have "\<exists>j. Suc k \<le> j \<and> j \<le> 31 \<and> grow (2 ^ Suc k) e = Some (2 ^ j)"
    using Suc.hyps(1) [of "Suc k"] Suc.prems by auto
  moreover have "push_bit 1 (2 ^ k :: u32) = 2 ^ Suc k"
    using \<open>Suc k \<le> 31\<close> by (intro push_bit_1_pow2) simp
  ultimately obtain j where j: "Suc k \<le> j" "j \<le> 31" "grow (push_bit 1 (2 ^ k)) e = Some (2 ^ j)"
    by metis
  show ?case
  proof (cases "(2 ^ k :: u32) < push_bit 1 e")
    case True
    then show ?thesis
      using j by (subst grow.simps) (metis Suc_leD)
  next
    case False
    then show ?thesis
      using Suc.prems by (subst grow.simps) auto
  qed
qed

lemma grow_0_diverges:
  assumes "push_bit 1 e \<noteq> (0 :: u32)"
  shows "grow 0 e = None"
proof (rule ccontr)
  assume "grow 0 e \<noteq> None"
  then obtain r where "grow 0 e = Some r" by auto
  then have "(0 :: u32) = 0 \<longrightarrow> push_bit 1 e \<noteq> 0 \<longrightarrow> False"
  proof (rule grow.raw_induct [where P = "\<lambda>n e r. n = 0 \<longrightarrow> push_bit 1 e \<noteq> 0 \<longrightarrow> False", rotated])
    fix f :: "u32 \<Rightarrow> u32 \<Rightarrow> u32 option" and n e r :: u32
    assume IH: "\<And>n e r. f n e = Some r \<Longrightarrow> n = 0 \<longrightarrow> push_bit 1 e \<noteq> 0 \<longrightarrow> False"
      and eq: "(if n < push_bit 1 e then f (push_bit 1 n) e else Some n) = Some r"
    show "n = 0 \<longrightarrow> push_bit 1 e \<noteq> 0 \<longrightarrow> False"
    proof (intro impI)
      assume "n = 0" "push_bit 1 e \<noteq> 0"
      then have "f 0 e = Some r"
        using eq by (simp add: word_neq_0_conv)
      from IH [OF this] \<open>push_bit 1 e \<noteq> 0\<close> show False by simp
    qed
  qed
  with assms show False by simp
qed

subsection \<open>Buckets\<close>

lemma mset_concat_update:
  "i < length bs \<Longrightarrow>
   mset (concat (bs[i := ys])) + mset (bs ! i) = mset (concat bs) + mset ys"
proof (induction bs arbitrary: i)
  case (Cons b bs)
  then show ?case
    by (cases i) (simp_all add: ac_simps)
qed simp

lemma mset_concat_cons:
  "i < length bs \<Longrightarrow> mset (concat (bs[i := a # bs ! i])) = add_mset a (mset (concat bs))"
  using mset_concat_update [of i bs "a # bs ! i"] by simp

lemma mset_concat_remove1:
  assumes "i < length bs" "a \<in> set (bs ! i)"
  shows "mset (concat bs) = add_mset a (mset (concat (bs[i := remove1 a (bs ! i)])))"
proof -
  define M where "M = mset (remove1 a (bs ! i))"
  have "mset (bs ! i) = add_mset a M"
    using assms(2) by (simp add: M_def)
  then show ?thesis
    using mset_concat_update [OF assms(1), of "remove1 a (bs ! i)"] by (simp flip: M_def)
qed

lemma buckets_ok_cons:
  assumes "buckets_ok hp n bs" "kh hp a = Some (k, hs)" "hash_idx hs n < unat n"
  shows "buckets_ok hp n (bs[hash_idx hs n := a # bs ! hash_idx hs n])"
  using assms by (auto simp: buckets_ok_def nth_list_update)

lemma buckets_ok_remove:
  assumes "buckets_ok hp n bs"
  shows "buckets_ok hp n (bs[i := remove1 a (bs ! i)])"
  using assms set_remove1_subset [of a "bs ! i"]
  by (cases "i < length bs") (auto simp: buckets_ok_def nth_list_update)

lemma buckets_ok_cong:
  assumes "\<And>a. a \<in> set (concat bs) \<Longrightarrow> kh hp' a = kh hp a"
  shows "buckets_ok hp' n bs \<longleftrightarrow> buckets_ok hp n bs"
proof -
  have "\<And>i a. i < length bs \<Longrightarrow> a \<in> set (bs ! i) \<Longrightarrow> kh hp' a = kh hp a"
    using assms by (auto intro: nth_mem)
  then show ?thesis
    by (simp add: buckets_ok_def cong: conj_cong)
qed

lemma rehash_one_eq:
  "kh hp a = Some (k, hs) \<Longrightarrow>
   rehash_one hp n nl a = nl[hash_idx hs n := a # nl ! hash_idx hs n]"
  by (auto simp: rehash_one_def kh_def Let_def)

lemma rehash_ok:
  assumes "pow2_length n" "buckets_ok hp n nl" "\<forall>a \<in> set xs. kh hp a \<noteq> None"
  shows "buckets_ok hp n (foldl (rehash_one hp n) nl xs) \<and>
    mset (concat (foldl (rehash_one hp n) nl xs)) = mset (concat nl) + mset xs"
  using assms(2,3)
proof (induction xs arbitrary: nl)
  case (Cons a xs)
  then obtain k hs where a: "kh hp a = Some (k, hs)" by force
  have lt: "hash_idx hs n < unat n"
    by (rule hash_idx_less [OF assms(1)])
  then have "hash_idx hs n < length nl"
    using Cons.prems by (simp add: buckets_ok_def)
  with Cons.IH [OF buckets_ok_cons [OF Cons.prems(1) a lt]] Cons.prems show ?case
    by (simp add: rehash_one_eq [OF a] mset_concat_cons)
qed simp

lemma buckets_ok_replicate: "buckets_ok hp n (replicate (unat n) [])"
  by (simp add: buckets_ok_def)

lemma buckets_ok_kh:
  assumes "buckets_ok hp n bs" "a \<in> set (concat bs)"
  shows "\<exists>k hs. kh hp a = Some (k, hs)"
  using assms by (fastforce simp: buckets_ok_def in_set_conv_nth)


subsection \<open>Laws of the table\<close>

lemma ht_inv_cong:
  assumes "\<And>a. a \<in> entries t \<Longrightarrow> kh hp' a = kh hp a"
  shows "ht_inv hp' t \<longleftrightarrow> ht_inv hp t"
proof -
  have "inj_on (kh hp') (entries t) \<longleftrightarrow> inj_on (kh hp) (entries t)"
    using assms by (rule inj_on_cong)
  moreover have "buckets_ok hp' (ht_length t) (ht_list t) \<longleftrightarrow> buckets_ok hp (ht_length t) (ht_list t)"
    using assms by (intro buckets_ok_cong) (simp add: entries_def)
  ultimately show ?thesis
    by (simp add: ht_inv_def)
qed

lemma ht_inv_kh: "ht_inv hp t \<Longrightarrow> a \<in> entries t \<Longrightarrow> \<exists>k hs. kh hp a = Some (k, hs)"
  unfolding ht_inv_def entries_def by (blast intro: buckets_ok_kh)

lemma ht_inv_bucket:
  assumes "ht_inv hp t" "kh hp a = Some (key, hs)"
  shows "a \<in> set (ht_list t ! hash_idx hs (ht_length t)) \<longleftrightarrow> a \<in> entries t"
proof -
  let ?i = "hash_idx hs (ht_length t)"
  have i: "?i < length (ht_list t)"
    using assms(1) hash_idx_less by (auto simp: ht_inv_def buckets_ok_def)
  show ?thesis
  proof
    assume "a \<in> entries t"
    then obtain j where j: "j < length (ht_list t)" "a \<in> set (ht_list t ! j)"
      by (auto simp: entries_def dest!: in_set_conv_nth [THEN iffD1, of _ "ht_list t"])
    then have "j = ?i"
      using assms by (force simp: ht_inv_def buckets_ok_def)
    with j show "a \<in> set (ht_list t ! ?i)" by simp
  qed (use i in \<open>auto simp: entries_def\<close>)
qed

lemma find_Some_unique:
  assumes "\<And>x y. x \<in> set xs \<Longrightarrow> y \<in> set xs \<Longrightarrow> P x \<Longrightarrow> P y \<Longrightarrow> x = y"
  shows "find P xs = Some a \<longleftrightarrow> a \<in> set xs \<and> P a"
  using assms by (induction xs) auto

lemma FindPointer_Some_iff:
  assumes "ht_inv hp t"
  shows "LRUHandleTable_FindPointer hp t key hs = Some a \<longleftrightarrow>
    a \<in> entries t \<and> kh hp a = Some (key, hs)"
proof -
  let ?b = "ht_list t ! hash_idx hs (ht_length t)"
  have "x = y" if "x \<in> set ?b" "y \<in> set ?b" "matches hp key hs x" "matches hp key hs y" for x y
    using that assms ht_inv_bucket [OF assms] unfolding matches_kh
    by (metis ht_inv_def inj_onD)
  then have "find (matches hp key hs) ?b = Some a \<longleftrightarrow> a \<in> set ?b \<and> matches hp key hs a"
    by (rule find_Some_unique)
  then show ?thesis
    using ht_inv_bucket [OF assms] by (auto simp: LRUHandleTable_FindPointer_def matches_kh)
qed

lemma FindPointer_None_iff:
  assumes "ht_inv hp t"
  shows "LRUHandleTable_FindPointer hp t key hs = None \<longleftrightarrow>
    (\<forall>a \<in> entries t. kh hp a \<noteq> Some (key, hs))"
  using FindPointer_Some_iff [OF assms, of key hs] by (auto simp flip: not_Some_eq)

lemma FindPointer_cong:
  assumes "ht_inv hp t" "\<And>a. a \<in> entries t \<Longrightarrow> kh hp' a = kh hp a"
  shows "LRUHandleTable_FindPointer hp' t key hs = LRUHandleTable_FindPointer hp t key hs"
proof -
  have "ht_inv hp' t" using assms ht_inv_cong by blast
  then show ?thesis
    using assms by (metis FindPointer_Some_iff FindPointer_None_iff not_Some_eq)
qed

lemma Resize_ok:
  assumes "pow2_length (ht_length t)" "ht_length t < ht_elems t" "unat (ht_elems t) \<le> 2 ^ 30"
    and "buckets_ok hp (ht_length t) (ht_list t)"
  shows "\<exists>t'. LRUHandleTable_Resize hp t = Some t' \<and> pow2_length (ht_length t') \<and>
    buckets_ok hp (ht_length t') (ht_list t') \<and>
    mset (concat (ht_list t')) = mset (concat (ht_list t)) \<and> ht_elems t' = ht_elems t"
proof -
  obtain k where k: "4 \<le> k" "k \<le> 31" "ht_length t = 2 ^ k"
    using assms(1) by (auto simp: pow2_length_def)
  then have "2 ^ k < (2 :: nat) ^ 30"
    using assms(2,3) by (simp add: word_less_nat_alt pow2_unat)
  then have "k < 30" by (rule power_less_imp_less_exp [rotated]) simp
  then have "k \<le> 30" by simp
  moreover have "ht_length t \<noteq> 0"
    using k by simp
  moreover obtain j where j: "Suc k \<le> j" "j \<le> 31" "grow (2 ^ Suc k) (ht_elems t) = Some (2 ^ j)"
    using grow_returns [of "Suc k" "ht_elems t"] assms(3) k \<open>k \<le> 30\<close> by auto
  moreover have n: "pow2_length (2 ^ j)"
    unfolding pow2_length_def using j k by (intro exI [of _ j]) simp
  moreover have "\<forall>a \<in> set (concat (ht_list t)). kh hp a \<noteq> None"
    using buckets_ok_kh [OF assms(4)] by force
  ultimately show ?thesis
    using k rehash_ok [OF n buckets_ok_replicate, of "concat (ht_list t)" hp]
    by (auto simp: LRUHandleTable_Resize_def Let_def mult.commute)
qed

lemma mset_entries: "mset (concat (ht_list t')) = add_mset a (mset (concat (ht_list t))) \<Longrightarrow>
    entries t' = insert a (entries t)"
  unfolding entries_def by (metis set_mset_add_mset_insert set_mset_mset)

theorem LRUHandleTable_Insert_new:
  assumes inv: "ht_inv hp t" and a: "hp a = Some h" "a \<notin> entries t"
    and none: "LRUHandleTable_FindPointer hp t (key_data h) (hash h) = None"
    and few: "unat (ht_elems t) < 2 ^ 30"
  shows "\<exists>t'. LRUHandleTable_Insert hp t a h = Some (a, t') \<and> ht_inv hp t' \<and>
    entries t' = insert a (entries t) \<and> ht_elems t' = ht_elems t + 1"
proof -
  let ?i = "hash_idx (hash h) (ht_length t)"
  let ?t1 = "t\<lparr>ht_list := (ht_list t)[?i := a # ht_list t ! ?i], ht_elems := ht_elems t + 1\<rparr>"
  have kha: "kh hp a = Some (key_data h, hash h)"
    using a by (simp add: kh_def)
  have i: "?i < unat (ht_length t)" and len: "length (ht_list t) = unat (ht_length t)"
    using inv hash_idx_less by (auto simp: ht_inv_def buckets_ok_def)
  have b1: "buckets_ok hp (ht_length ?t1) (ht_list ?t1)"
    using inv i by (simp add: ht_inv_def buckets_ok_cons [OF _ kha])
  have m1: "mset (concat (ht_list ?t1)) = add_mset a (mset (concat (ht_list t)))"
    using i len by (simp add: mset_concat_cons)
  have inj: "inj_on (kh hp) (insert a (entries t))"
    using inv none a kha by (auto simp: ht_inv_def FindPointer_None_iff [OF inv])
  have e1: "unat (ht_elems ?t1) \<le> 2 ^ 30"
    using few by (simp add: unat_word_ariths)
  have fin: "ht_inv hp t'"
    if "pow2_length (ht_length t')" "buckets_ok hp (ht_length t') (ht_list t')"
      "mset (concat (ht_list t')) = add_mset a (mset (concat (ht_list t)))" for t'
  proof -
    have "distinct (concat (ht_list t')) \<longleftrightarrow> distinct (a # concat (ht_list t))"
      using that(3) by (intro mset_eq_imp_distinct_iff) simp
    then show ?thesis
      using that inv inj a mset_entries [OF that(3)] by (simp add: ht_inv_def entries_def)
  qed
  show ?thesis
  proof (cases "ht_elems ?t1 > ht_length ?t1")
    case True
    then obtain t' where "LRUHandleTable_Resize hp ?t1 = Some t'" "pow2_length (ht_length t')"
      "buckets_ok hp (ht_length t') (ht_list t')"
      "mset (concat (ht_list t')) = mset (concat (ht_list ?t1))" "ht_elems t' = ht_elems ?t1"
      using Resize_ok [OF _ True e1 b1] inv by (auto simp: ht_inv_def)
    with True none m1 fin mset_entries show ?thesis
      by (auto simp: LRUHandleTable_Insert_def Let_def)
  next
    case False
    moreover have "pow2_length (ht_length ?t1)" using inv by (simp add: ht_inv_def)
    ultimately show ?thesis
      using none m1 fin [OF _ b1 m1] mset_entries [OF m1]
      by (auto simp: LRUHandleTable_Insert_def Let_def)
  qed
qed

lemma LRUHandleTable_Insert_old:
  assumes "LRUHandleTable_FindPointer hp t (key_data h) (hash h) = Some old"
  shows "LRUHandleTable_Insert hp t a h = Some (old, t)"
  using assms by (simp add: LRUHandleTable_Insert_def)

lemma LRUHandleTable_Remove_None:
  assumes "LRUHandleTable_FindPointer hp t key hs = None"
  shows "LRUHandleTable_Remove hp t key hs = (None, t)"
  using assms by (simp add: LRUHandleTable_Remove_def LRUHandleTable_FindPointer_def)

theorem LRUHandleTable_Remove_Some:
  assumes inv: "ht_inv hp t" and found: "LRUHandleTable_FindPointer hp t key hs = Some a"
  shows "\<exists>t'. LRUHandleTable_Remove hp t key hs = (Some a, t') \<and> ht_inv hp t' \<and>
    entries t' = entries t - {a} \<and> ht_elems t' = ht_elems t"
proof -
  let ?i = "hash_idx hs (ht_length t)"
  let ?t' = "t\<lparr>ht_list := (ht_list t)[?i := remove1 a (ht_list t ! ?i)]\<rparr>"
  have a: "a \<in> entries t" "kh hp a = Some (key, hs)"
    using found FindPointer_Some_iff [OF inv] by auto
  have i: "?i < length (ht_list t)"
    using inv hash_idx_less by (auto simp: ht_inv_def buckets_ok_def)
  have m: "mset (concat (ht_list t)) = add_mset a (mset (concat (ht_list ?t')))"
    using i a ht_inv_bucket [OF inv a(2)] by (simp add: mset_concat_remove1)
  have d: "distinct (a # concat (ht_list ?t'))"
    using inv m by (subst mset_eq_imp_distinct_iff [of _ "concat (ht_list t)"]) (auto simp: ht_inv_def)
  have e: "entries ?t' = entries t - {a}"
    using mset_entries [of t a ?t'] m d by (auto simp: entries_def)
  have "ht_inv hp ?t'"
    using inv d e by (auto simp: ht_inv_def buckets_ok_remove intro: inj_on_subset)
  with e found show ?thesis
    by (auto simp: LRUHandleTable_Remove_def LRUHandleTable_FindPointer_def Let_def)
qed

lemma LRUHandleTable_new_ok:
  "\<exists>t. LRUHandleTable_new hp = Some t \<and> ht_inv hp t \<and> entries t = {} \<and> ht_elems t = 0"
proof -
  have g: "grow 16 0 = Some 16"
    by (subst grow.simps) simp
  have "pow2_length 16"
    unfolding pow2_length_def by (rule exI [of _ 4]) simp
  then show ?thesis
    using buckets_ok_replicate [of hp 16]
    by (simp add: LRUHandleTable_new_def LRUHandleTable_Resize_def g ht_inv_def entries_def)
qed

text \<open>C16: Inserting a handle under a new key into a well-formed hash table returns, whether the table has to grow or not, keeps
  the table well-formed, and afterwards the table finds the new handle under its key and hash, and under every other key what
  it found before.\<close>

theorem table_insert_lookup:
  assumes "ht_inv hp t" and "hp a = Some h" and "a \<notin> entries t" and "unat (ht_elems t) < 2 ^ 30"
    and "LRUHandleTable_Lookup hp t (key_data h) (hash h) = None"
  shows "\<exists>t'. LRUHandleTable_Insert hp t a h = Some (a, t') \<and> ht_inv hp t' \<and>
    LRUHandleTable_Lookup hp t' (key_data h) (hash h) = Some a \<and>
    (\<forall>k x. (k, x) \<noteq> (key_data h, hash h) \<longrightarrow> LRUHandleTable_Lookup hp t' k x = LRUHandleTable_Lookup hp t k x)"
proof -
  have n: "LRUHandleTable_FindPointer hp t (key_data h) (hash h) = None"
    using assms(5) by (simp add: LRUHandleTable_Lookup_def)
  obtain t' where t: "LRUHandleTable_Insert hp t a h = Some (a, t')" "ht_inv hp t'" "entries t' = insert a (entries t)"
    using LRUHandleTable_Insert_new [OF assms(1-3) n assms(4)] by blast
  note f = FindPointer_Some_iff [OF assms(1)] and f' = FindPointer_Some_iff [OF t(2)]
  have k: "kh hp a = Some (key_data h, hash h)" using assms(2) by (simp add: kh_def)
  have "LRUHandleTable_Lookup hp t' k x = LRUHandleTable_Lookup hp t k x" if "(k, x) \<noteq> (key_data h, hash h)" for k x
  proof -
    have "LRUHandleTable_Lookup hp t' k x = Some b \<longleftrightarrow> LRUHandleTable_Lookup hp t k x = Some b" for b
      unfolding LRUHandleTable_Lookup_def f f' using t(3) \<open>kh hp a = _\<close> that by auto
    then show ?thesis by (metis option.exhaust)
  qed
  then show ?thesis using t f' k by (auto simp: LRUHandleTable_Lookup_def)
qed

theorem table_insert_lookup_witness:
  "\<exists>hp :: (nat, unit) heap. \<exists>t h t'. LRUHandleTable_new hp = Some t \<and> hp 0 = Some h \<and> key_data h = [1] \<and>
     LRUHandleTable_Insert hp t 0 h = Some (0, t') \<and> LRUHandleTable_Lookup hp t' [1] 7 = Some 0"
proof -
  define h :: "nat handle" where "h = \<lparr>hvalue = 3, key_data = [1], charge = 1, inCache = 0, hash = 7, refs = 0\<rparr>"
  define hp :: "(nat, unit) heap" where "hp = [0 \<mapsto> h]"
  obtain t where t: "LRUHandleTable_new hp = Some t" "ht_inv hp t" "entries t = {}" "ht_elems t = 0"
    using LRUHandleTable_new_ok [of hp] by blast
  have e: "hp 0 = Some h" "0 \<notin> entries t" "unat (ht_elems t) < 2 ^ 30" by (simp_all add: hp_def t)
  have "LRUHandleTable_Lookup hp t (key_data h) (hash h) = None"
    using FindPointer_Some_iff [OF t(2)] t(3) by (metis LRUHandleTable_Lookup_def empty_iff not_Some_eq)
  from table_insert_lookup [OF t(2) e this] obtain t' where
    "LRUHandleTable_Insert hp t 0 h = Some (0, t')" "LRUHandleTable_Lookup hp t' (key_data h) (hash h) = Some 0" by blast
  then show ?thesis
    using t(1) e(1) by (intro exI [of _ hp] exI [of _ t] exI [of _ h] exI [of _ t']) (simp add: h_def)
qed

end
