(* ===== verification/Hashing.thy ===== *)
theory Hashing
  imports Prelude
begin

text \<open>
  \<open>MurmurHash64A\<close> of src/hash.cc and the inline wrappers of src/hash.h. The key is the byte
  string of length \<open>len\<close>; a 64-bit load from it is little-endian. The length is an \<open>int\<close> in the
  code, so the model is the code for keys shorter than 2 GB.
\<close>

definition murmur_m :: u64 where
  "murmur_m = 0xc6a4a7935bd1e995"

definition murmur_mix :: "u64 \<Rightarrow> u64" where
  "murmur_mix k0 =
     (let k1 = k0 * murmur_m; k2 = k1 XOR drop_bit 47 k1 in k2 * murmur_m)"

primrec murmur_loop :: "nat \<Rightarrow> u64 \<Rightarrow> bytes \<Rightarrow> u64 \<times> bytes" where
  "murmur_loop 0 h data = (h, data)"
| "murmur_loop (Suc n) h data =
     (let k = murmur_mix (of_le (take 8 data))
      in murmur_loop n ((h XOR k) * murmur_m) (drop 8 data))"

definition xor_byte :: "bytes \<Rightarrow> nat \<Rightarrow> nat \<Rightarrow> u64 \<Rightarrow> u64" where
  "xor_byte data2 i sh h = h XOR push_bit sh (ucast (data2 ! i))"

text \<open>The \<open>switch (len & 7)\<close> whose cases fall through from 7 to 1.\<close>

definition murmur_tail :: "nat \<Rightarrow> u64 \<Rightarrow> bytes \<Rightarrow> u64" where
  "murmur_tail r h data2 =
     (let h = (if r \<ge> 7 then xor_byte data2 6 48 h else h);
          h = (if r \<ge> 6 then xor_byte data2 5 40 h else h);
          h = (if r \<ge> 5 then xor_byte data2 4 32 h else h);
          h = (if r \<ge> 4 then xor_byte data2 3 24 h else h);
          h = (if r \<ge> 3 then xor_byte data2 2 16 h else h);
          h = (if r \<ge> 2 then xor_byte data2 1 8 h else h)
      in if r \<ge> 1 then xor_byte data2 0 0 h * murmur_m else h)"

definition MurmurHash64A :: "bytes \<Rightarrow> u64 \<Rightarrow> u64" where
  "MurmurHash64A key seed =
     (let len = length key;
          h0 = seed XOR (of_nat len * murmur_m);
          (h1, data2) = murmur_loop (len div 8) h0 key;
          h2 = murmur_tail (len mod 8) h1 data2;
          h3 = h2 XOR drop_bit 47 h2;
          h4 = h3 * murmur_m
      in h4 XOR drop_bit 47 h4)"

definition NPHash64 :: "bytes \<Rightarrow> u64" where
  "NPHash64 s = MurmurHash64A s 0"

definition LOG_PARTITION :: nat where
  "LOG_PARTITION = 4"

text \<open>\<open>Hash0(key) % LOG_PARTITION\<close>: the value log a key belongs to.\<close>

definition log_of :: "bytes \<Rightarrow> nat" where
  "log_of key = unat (NPHash64 key mod of_nat LOG_PARTITION)"

lemma log_of_less [simp]: "log_of key < LOG_PARTITION"
  by (simp add: log_of_def LOG_PARTITION_def unat_mod)

lemma log_of_less_4 [simp]: "log_of key < 4"
  using log_of_less [of key] by (simp add: LOG_PARTITION_def)

subsection \<open>The loop and the switch against a word-by-word reference\<close>

text \<open>
  The reference hash consumes the key as a list of 64-bit words, the last one padded with zero
  bytes when the length is not a multiple of eight.
\<close>

definition key_word :: "bytes \<Rightarrow> nat \<Rightarrow> u64" where
  "key_word key i = of_le (chunk (8 * i) 8 key)"

definition absorb :: "u64 \<Rightarrow> u64 \<Rightarrow> u64" where
  "absorb h k = (h XOR murmur_mix k) * murmur_m"

definition reference_hash :: "bytes \<Rightarrow> u64 \<Rightarrow> u64" where
  "reference_hash key seed =
     (let n = length key div 8;
          h1 = foldl absorb (seed XOR (of_nat (length key) * murmur_m)) (map (key_word key) [0..<n]);
          h2 = (if length key mod 8 = 0 then h1 else (h1 XOR key_word key n) * murmur_m);
          h3 = (h2 XOR drop_bit 47 h2) * murmur_m
      in h3 XOR drop_bit 47 h3)"

lemma murmur_loop_foldl:
  "murmur_loop n h data = (foldl absorb h (map (key_word data) [0..<n]), drop (8 * n) data)"
proof (induction n arbitrary: h data)
  case 0
  show ?case by simp
next
  case (Suc n)
  have "map (key_word data) [0..<Suc n] =
      key_word data 0 # map (key_word (drop 8 data)) [0..<n]"
    by (simp add: key_word_def chunk_def upt_conv_Cons add.commute flip: map_Suc_upt del: upt_Suc)
  moreover have "key_word data 0 = of_le (take 8 data)"
    by (simp add: key_word_def chunk_def)
  ultimately show ?case
    by (simp add: Suc.IH absorb_def Let_def add.commute del: upt_Suc)
qed

lemma of_le_Cons_xor: "of_le (b # bs) = (ucast b XOR push_bit 8 (of_le bs) :: u64)"
proof (rule bit_word_eqI)
  fix i assume "i < LENGTH(64)"
  moreover have "bit b i \<Longrightarrow> i < 8"
    by (drule bit_imp_le_length) simp
  ultimately show "bit (of_le (b # bs) :: u64) i = bit (ucast b XOR push_bit 8 (of_le bs) :: u64) i"
    by (auto simp: bit_simps)
qed

lemmas of_le_xor = of_le_Cons_xor push_bit_xor push_bit_push_bit

lemma list_of_length_lt_8:
  assumes "length xs < 8"
  obtains "xs = []" | a where "xs = [a]" | a b where "xs = [a, b]" | a b c where "xs = [a, b, c]"
    | a b c d where "xs = [a, b, c, d]" | a b c d e where "xs = [a, b, c, d, e]"
    | a b c d e f where "xs = [a, b, c, d, e, f]" | a b c d e f g where "xs = [a, b, c, d, e, f, g]"
proof -
  have "length xs = 0 \<or> length xs = 1 \<or> length xs = 2 \<or> length xs = 3 \<or> length xs = 4 \<or>
      length xs = 5 \<or> length xs = 6 \<or> length xs = 7"
    using assms by linarith
  then show thesis
    using that by (auto simp: length_Suc_conv numeral_eq_Suc)
qed

lemma murmur_tail_word:
  assumes "length d = r" "r < 8"
  shows "murmur_tail r h d = (if r = 0 then h else (h XOR of_le d) * murmur_m)"
proof -
  have "length d < 8" using assms by simp
  then show ?thesis
    by (cases d rule: list_of_length_lt_8)
      (use assms in \<open>simp_all add: murmur_tail_def xor_byte_def of_le_xor Let_def ac_simps
        del: of_le.simps(2)\<close>)
qed


end
