(* ===== verification/Sharded_Cache.thy ===== *)
theory Sharded_Cache
  imports Hashing
begin

text \<open>
  The cache interface of src/cache/cache.h as a locale, the interface of one shard
  (\<open>CacheShard\<close> of src/cache/sharded_cache.h) as a locale that extends it, and \<open>ShardedCache\<close>
  of src/cache/sharded_cache.cc, whose operations take those of the shard class as arguments, as the
  code reaches them through \<open>GetShard\<close>. The sublocale declaration at the end says that sharding turns
  a shard that keeps the contract into a cache that keeps it.

  A handle of a sharded cache is the index of its shard and the address in the heap of that shard.
  \<open>Insert\<close> returns \<open>None\<close> when the shard does not return. \<open>ShardedCache::Erase\<close> has no return
  statement, so only its effect on the state is a result here.
\<close>

subsection \<open>The cache contract\<close>

text \<open>
  \<open>contents\<close> is what the cache holds for a key, \<open>refs_at\<close> the reference count of a live handle,
  \<open>load\<close> a measure that grows by at most one with an insertion and bounds the table sizes, and
  \<open>fits\<close> says that an insertion needs no eviction. An insertion under a key that is present keeps
  the old value unless it evicts the old entry first.
\<close>

locale cache =
  fixes Insert :: "'k \<Rightarrow> 'v \<Rightarrow> nat \<Rightarrow> 's \<Rightarrow> ('h \<times> 's) option"
    and Lookup :: "'k \<Rightarrow> 's \<Rightarrow> 'h option \<times> 's"
    and Release :: "'h \<Rightarrow> 's \<Rightarrow> 's"
    and Erase :: "'k \<Rightarrow> 's \<Rightarrow> 's"
    and Value :: "'h \<Rightarrow> 's \<Rightarrow> 'v option"
    and refs_at :: "'s \<Rightarrow> 'h \<Rightarrow> u32 option"
    and contents :: "'s \<Rightarrow> 'k \<Rightarrow> 'v option"
    and invar :: "'s \<Rightarrow> bool"
    and load :: "'s \<Rightarrow> nat"
    and fits :: "'s \<Rightarrow> 'k \<Rightarrow> nat \<Rightarrow> bool"
  assumes insert_returns: "invar s \<Longrightarrow> load s < 2 ^ 30 \<Longrightarrow> \<exists>h s'. Insert k v c s = Some (h, s')"
    and insert_invar: "invar s \<Longrightarrow> load s < 2 ^ 30 \<Longrightarrow> Insert k v c s = Some (h, s') \<Longrightarrow>
      invar s' \<and> load s' \<le> load s + 1"
    and insert_value: "invar s \<Longrightarrow> load s < 2 ^ 30 \<Longrightarrow> Insert k v c s = Some (h, s') \<Longrightarrow>
      Value h s' = contents s' k \<and> contents s' k \<noteq> None \<and>
      (contents s' k = Some v \<or> contents s' k = contents s k)"
    and insert_other: "invar s \<Longrightarrow> load s < 2 ^ 30 \<Longrightarrow> Insert k v c s = Some (h, s') \<Longrightarrow> j \<noteq> k \<Longrightarrow>
      contents s' j = None \<or> contents s' j = contents s j"
    and insert_refs: "invar s \<Longrightarrow> load s < 2 ^ 30 \<Longrightarrow> Insert k v c s = Some (h, s') \<Longrightarrow>
      refs_at s' h = Some (case refs_at s h of None \<Rightarrow> 1 | Some n \<Rightarrow> n + 1)"
    and insert_refs_other: "invar s \<Longrightarrow> load s < 2 ^ 30 \<Longrightarrow> Insert k v c s = Some (h, s') \<Longrightarrow> g \<noteq> h \<Longrightarrow>
      refs_at s' g = refs_at s g \<or> (refs_at s g = Some 0 \<and> refs_at s' g = None)"
    and insert_fits: "invar s \<Longrightarrow> load s < 2 ^ 30 \<Longrightarrow> Insert k v c s = Some (h, s') \<Longrightarrow> fits s k c \<Longrightarrow>
      contents s' = (contents s)(k \<mapsto> (case contents s k of None \<Rightarrow> v | Some w \<Rightarrow> w))"
    and lookup_state: "invar s \<Longrightarrow> Lookup k s = (r, s') \<Longrightarrow>
      invar s' \<and> load s' = load s \<and> contents s' = contents s"
    and lookup_miss: "invar s \<Longrightarrow> Lookup k s = (None, s') \<Longrightarrow> contents s k = None \<and> s' = s"
    and lookup_hit: "invar s \<Longrightarrow> Lookup k s = (Some h, s') \<Longrightarrow>
      Value h s' = contents s k \<and> contents s k \<noteq> None \<and>
      (\<exists>n. refs_at s h = Some n \<and> refs_at s' = (refs_at s)(h \<mapsto> n + 1))"
    and release_state: "invar s \<Longrightarrow> refs_at s h = Some n \<Longrightarrow> n \<noteq> 0 \<Longrightarrow>
      invar (Release h s) \<and> load (Release h s) = load s \<and> contents (Release h s) = contents s"
    and release_refs: "invar s \<Longrightarrow> refs_at s h = Some n \<Longrightarrow> n \<noteq> 0 \<Longrightarrow>
      refs_at (Release h s) = (refs_at s)(h \<mapsto> n - 1) \<or>
      n = 1 \<and> refs_at (Release h s) = (refs_at s)(h := None)"
    and erase_state: "invar s \<Longrightarrow>
      invar (Erase k s) \<and> load (Erase k s) = load s \<and> contents (Erase k s) = (contents s)(k := None)"
    and erase_refs: "invar s \<Longrightarrow> refs_at (Erase k s) g = refs_at s g \<or>
      (refs_at s g = Some 0 \<and> refs_at (Erase k s) g = None)"
    and pinned_value: "invar s \<Longrightarrow> refs_at s g = Some n \<Longrightarrow> n \<noteq> 0 \<Longrightarrow>
      (load s < 2 ^ 30 \<longrightarrow> Insert k v c s = Some (h, s') \<longrightarrow> Value g s' = Value g s) \<and>
      Value g (snd (Lookup k s)) = Value g s \<and> Value g (Erase k s) = Value g s"
begin

text \<open>No handle is referenced: the state between two operations of a client that gives back every handle.\<close>

definition quiet :: "'s \<Rightarrow> bool" where
  "quiet s \<longleftrightarrow> (\<forall>h n. refs_at s h = Some n \<longrightarrow> n = 0)"

definition rest :: "'s \<Rightarrow> bool" where
  "rest s \<longleftrightarrow> invar s \<and> quiet s"

lemma insert_new_key:
  assumes "invar s" "load s < 2 ^ 30" "Insert k v c s = Some (h, s')" "contents s k = None"
  shows "contents s' k = Some v"
  using insert_value [OF assms(1-3)] assms(4) by auto

text \<open>Inserting and giving the handle back at once, as \<open>DBImpl\<close> does.\<close>

lemma insert_release:
  assumes s: "rest s" "load s < 2 ^ 30"
  obtains h s' where "Insert k v c s = Some (h, s')" "rest (Release h s')" "load (Release h s') \<le> load s + 1"
    "contents (Release h s') = contents s'"
proof -
  obtain h s' where i: "Insert k v c s = Some (h, s')"
    using insert_returns s by (fastforce simp: rest_def)
  have inv: "invar s" and q: "\<And>h n. refs_at s h = Some n \<Longrightarrow> n = 0"
    using s by (auto simp: rest_def quiet_def)
  have r: "refs_at s' h = Some 1"
    using insert_refs [OF inv s(2) i] q by (auto split: option.splits)
  have o: "refs_at s' g = Some n \<Longrightarrow> n = 0" if "g \<noteq> h" for g n
    using insert_refs_other [OF inv s(2) i that] q by auto
  note iv = insert_invar [OF inv s(2) i]
  have st: "invar (Release h s') \<and> load (Release h s') = load s' \<and> contents (Release h s') = contents s'"
    using release_state [of s' h 1] iv r by auto
  have "quiet (Release h s')"
    using release_refs [of s' h 1] iv r o by (auto simp: quiet_def split: if_splits)
  then show thesis
    using that i st iv by (auto simp: rest_def)
qed

text \<open>Looking a key up, reading the value and giving the handle back.\<close>

lemma lookup_release:
  assumes s: "rest s" and l: "Lookup k s = (Some h, s')"
  shows "rest (Release h s')" "contents (Release h s') = contents s" "load (Release h s') = load s"
    "Value h s' = contents s k" "contents s k \<noteq> None"
proof -
  have inv: "invar s" and q: "\<And>h n. refs_at s h = Some n \<Longrightarrow> n = 0"
    using s by (auto simp: rest_def quiet_def)
  note st = lookup_state [OF inv l] and hit = lookup_hit [OF inv l]
  have r: "refs_at s' = (refs_at s)(h \<mapsto> 1)"
    using hit q by auto
  have rl: "invar (Release h s') \<and> load (Release h s') = load s' \<and> contents (Release h s') = contents s'"
    using release_state [of s' h 1] st r by simp
  have "quiet (Release h s')"
    using release_refs [of s' h 1] st r q by (auto simp: quiet_def split: if_splits)
  then show "rest (Release h s')" "contents (Release h s') = contents s" "load (Release h s') = load s"
    "Value h s' = contents s k" "contents s k \<noteq> None"
    using rl st hit by (auto simp: rest_def)
qed

lemma lookup_none:
  assumes "rest s" "Lookup k s = (None, s')"
  shows "s' = s" "contents s k = None"
  using lookup_miss assms by (auto simp: rest_def)

lemma erase_rest:
  assumes "rest s"
  shows "rest (Erase k s)" "contents (Erase k s) = (contents s)(k := None)" "load (Erase k s) = load s"
proof -
  have inv: "invar s" and q: "\<And>h n. refs_at s h = Some n \<Longrightarrow> n = 0"
    using assms by (auto simp: rest_def quiet_def)
  have "quiet (Erase k s)"
    unfolding quiet_def using erase_refs [OF inv, of k] q by (metis option.distinct(1))
  then show "rest (Erase k s)" "contents (Erase k s) = (contents s)(k := None)" "load (Erase k s) = load s"
    using erase_state [OF inv, of k] by (auto simp: rest_def)
qed

end

text \<open>
  A shard is keyed by the key and its hash; \<open>hash_at\<close> is the \<open>hash\<close> field of a live handle, which
  \<open>GetHash\<close> reads.
\<close>

locale cache_shard =
  cache "case_prod Insert" "case_prod Lookup" Release "case_prod Erase" Value refs_at contents invar load fits
  for Insert :: "bytes \<Rightarrow> u32 \<Rightarrow> 'v \<Rightarrow> nat \<Rightarrow> 's \<Rightarrow> (nat \<times> 's) option"
    and Lookup :: "bytes \<Rightarrow> u32 \<Rightarrow> 's \<Rightarrow> nat option \<times> 's"
    and Release :: "nat \<Rightarrow> 's \<Rightarrow> 's"
    and Erase :: "bytes \<Rightarrow> u32 \<Rightarrow> 's \<Rightarrow> 's"
    and Value :: "nat \<Rightarrow> 's \<Rightarrow> 'v option"
    and refs_at :: "'s \<Rightarrow> nat \<Rightarrow> u32 option"
    and contents :: "'s \<Rightarrow> bytes \<times> u32 \<Rightarrow> 'v option"
    and invar :: "'s \<Rightarrow> bool"
    and load :: "'s \<Rightarrow> nat"
    and fits :: "'s \<Rightarrow> bytes \<times> u32 \<Rightarrow> nat \<Rightarrow> bool" +
  fixes hash_at :: "'s \<Rightarrow> nat \<Rightarrow> u32 option"
  assumes hash_live: "refs_at s a = Some n \<Longrightarrow> hash_at s a \<noteq> None"
    and insert_hash: "invar s \<Longrightarrow> load s < 2 ^ 30 \<Longrightarrow> Insert k h v c s = Some (a, s') \<Longrightarrow>
      hash_at s' b = Some x \<Longrightarrow> x = h \<or> hash_at s b = Some x"
    and lookup_hash: "invar s \<Longrightarrow> Lookup k h s = (r, s') \<Longrightarrow> hash_at s' b = Some x \<Longrightarrow> hash_at s b = Some x"
    and release_hash: "invar s \<Longrightarrow> refs_at s a = Some n \<Longrightarrow> n \<noteq> 0 \<Longrightarrow>
      hash_at (Release a s) b = Some x \<Longrightarrow> hash_at s b = Some x"
    and erase_hash: "invar s \<Longrightarrow> hash_at (Erase k h s) b = Some x \<Longrightarrow> hash_at s b = Some x"


subsection \<open>\<open>ShardedCache\<close>\<close>

record 's sharded =
  num_shard_bits :: nat
  sc_capacity :: nat
  shards :: "'s list"

type_synonym sc_handle = "nat \<times> nat"

definition HashSlice :: "bytes \<Rightarrow> u32" where
  "HashSlice k = ucast (NPHash64 k)"

definition Shard :: "nat \<Rightarrow> u32 \<Rightarrow> nat" where
  "Shard bits h = (if bits > 0 then unat (drop_bit (32 - bits) h) else 0)"

definition GetShard :: "'s sharded \<Rightarrow> nat \<Rightarrow> 's" where
  "GetShard s i = shards s ! i"

definition upd_shard :: "nat \<Rightarrow> 's \<Rightarrow> 's sharded \<Rightarrow> 's sharded" where
  "upd_shard i x s = s\<lparr>shards := (shards s)[i := x]\<rparr>"

definition per_shard :: "nat \<Rightarrow> nat \<Rightarrow> nat" where
  "per_shard cap num_shards = (cap + (num_shards - 1)) div num_shards"

definition ShardedCache_SetCapacity :: "(nat \<Rightarrow> 's \<Rightarrow> 's) \<Rightarrow> nat \<Rightarrow> 's sharded \<Rightarrow> 's sharded" where
  "ShardedCache_SetCapacity setcap cap s =
     (let num_shards = 2 ^ num_shard_bits s;
          ps = per_shard cap num_shards
      in (fold (\<lambda>i s. upd_shard i (setcap ps (GetShard s i)) s) [0..<num_shards] s)\<lparr>sc_capacity := cap\<rparr>)"

definition ShardedCache_Insert ::
    "(bytes \<Rightarrow> u32 \<Rightarrow> 'v \<Rightarrow> nat \<Rightarrow> 's \<Rightarrow> (nat \<times> 's) option) \<Rightarrow>
     bytes \<Rightarrow> 'v \<Rightarrow> nat \<Rightarrow> 's sharded \<Rightarrow> (sc_handle \<times> 's sharded) option" where
  "ShardedCache_Insert ins key v c s =
     (let h = HashSlice key;
          i = Shard (num_shard_bits s) h
      in map_option (\<lambda>(a, x). ((i, a), upd_shard i x s)) (ins key h v c (GetShard s i)))"

definition ShardedCache_Lookup ::
    "(bytes \<Rightarrow> u32 \<Rightarrow> 's \<Rightarrow> nat option \<times> 's) \<Rightarrow>
     bytes \<Rightarrow> 's sharded \<Rightarrow> sc_handle option \<times> 's sharded" where
  "ShardedCache_Lookup look key s =
     (let h = HashSlice key;
          i = Shard (num_shard_bits s) h;
          (r, x) = look key h (GetShard s i)
      in (map_option (\<lambda>a. (i, a)) r, upd_shard i x s))"

definition ShardedCache_Release ::
    "('s \<Rightarrow> nat \<Rightarrow> u32 option) \<Rightarrow> (nat \<Rightarrow> 's \<Rightarrow> 's) \<Rightarrow> sc_handle \<Rightarrow> 's sharded \<Rightarrow> 's sharded" where
  "ShardedCache_Release GetHash rel h s =
     (case GetHash (GetShard s (fst h)) (snd h) of
        None \<Rightarrow> s
      | Some hs \<Rightarrow>
          let i = Shard (num_shard_bits s) hs
          in upd_shard i (rel (snd h) (GetShard s i)) s)"

definition ShardedCache_Erase ::
    "(bytes \<Rightarrow> u32 \<Rightarrow> 's \<Rightarrow> 's) \<Rightarrow> bytes \<Rightarrow> 's sharded \<Rightarrow> 's sharded" where
  "ShardedCache_Erase era key s =
     (let h = HashSlice key;
          i = Shard (num_shard_bits s) h
      in upd_shard i (era key h (GetShard s i)) s)"

definition ShardedCache_GetCapacity :: "'s sharded \<Rightarrow> nat" where
  "ShardedCache_GetCapacity s = sc_capacity s"

definition ShardedCache_GetUsage :: "('s \<Rightarrow> nat) \<Rightarrow> 's sharded \<Rightarrow> nat" where
  "ShardedCache_GetUsage usage s =
     (let num_shards = 2 ^ num_shard_bits s
      in fold (\<lambda>i u. u + usage (GetShard s i)) [0..<num_shards] 0)"

function shard_bits_loop :: "nat \<Rightarrow> nat \<Rightarrow> nat" where
  "shard_bits_loop num_shards bits =
     (let n = num_shards div 2
      in if n = 0 then bits
         else if bits + 1 \<ge> 6 then bits + 1
         else shard_bits_loop n (bits + 1))"
  by pat_completeness auto
termination
  by (relation "measure fst") auto

declare shard_bits_loop.simps [simp del]

definition GetDefaultCacheShardBits :: "nat \<Rightarrow> nat" where
  "GetDefaultCacheShardBits cap =
     (let min_shard_size = 512 * 1024;
          num_shards = cap div min_shard_size
      in shard_bits_loop num_shards 0)"

text \<open>What the constructors of \<open>LRUCache\<close>, \<open>FIFOCache\<close> and \<open>LFUCache\<close> share, and the choice of \<open>num_shard_bits\<close>.\<close>

definition new_sharded :: "(nat \<Rightarrow> 's option) \<Rightarrow> nat \<Rightarrow> nat \<Rightarrow> 's sharded option" where
  "new_sharded new_shard cap bits =
     (let num_shards = 2 ^ bits
      in map_option (\<lambda>x. \<lparr>num_shard_bits = bits, sc_capacity = cap, shards = replicate num_shards x\<rparr>)
           (new_shard (per_shard cap num_shards)))"

definition new_cache :: "(nat \<Rightarrow> 's option) \<Rightarrow> nat \<Rightarrow> int \<Rightarrow> 's sharded option res" where
  "new_cache new_shard cap bits =
     (if bits \<ge> 20 then Inr None
      else let n = (if bits < 0 then GetDefaultCacheShardBits cap else nat bits)
           in rbind (of_option (new_sharded new_shard cap n)) (\<lambda>s. Inr (Some s)))"

subsection \<open>A sharded cache keeps the contract\<close>

lemma Shard_less: "bits \<le> 32 \<Longrightarrow> Shard bits h < 2 ^ bits"
proof -
  assume "bits \<le> 32"
  have "unat h < 2 ^ 32" using unsigned_less [of h] by simp
  then have "unat h div 2 ^ (32 - bits) < 2 ^ bits" if "bits > 0"
    using \<open>bits \<le> 32\<close> by (simp add: less_mult_imp_div_less flip: power_add)
  moreover have "unat (drop_bit (32 - bits) h) = unat h div 2 ^ (32 - bits)"
    by (simp only: unat_drop_bit_eq) (simp add: drop_bit_eq_div)
  ultimately show ?thesis
    by (simp add: Shard_def)
qed

lemma GetDefaultCacheShardBits_le: "GetDefaultCacheShardBits cap \<le> 6"
proof -
  have "b \<le> 6 \<Longrightarrow> shard_bits_loop n b \<le> 6 \<or> b = 6" for n b
    by (induction n b rule: shard_bits_loop.induct) (subst shard_bits_loop.simps, auto simp: Let_def)
  from this [of 0] show ?thesis
    by (auto simp: GetDefaultCacheShardBits_def Let_def)
qed

lemma upd_shard_simps [simp]:
  "num_shard_bits (upd_shard i x s) = num_shard_bits s"
  "sc_capacity (upd_shard i x s) = sc_capacity s"
  "length (shards (upd_shard i x s)) = length (shards s)"
  "shards (upd_shard i x s) = (shards s)[i := x]"
  by (simp_all add: upd_shard_def)


definition sc_shard :: "bytes \<Rightarrow> 's sharded \<Rightarrow> nat" where
  "sc_shard k s = Shard (num_shard_bits s) (HashSlice k)"

definition sc_contents :: "('s \<Rightarrow> bytes \<times> u32 \<Rightarrow> 'v option) \<Rightarrow> 's sharded \<Rightarrow> bytes \<Rightarrow> 'v option" where
  "sc_contents cont s k = cont (GetShard s (sc_shard k s)) (k, HashSlice k)"

definition sc_refs :: "('s \<Rightarrow> nat \<Rightarrow> u32 option) \<Rightarrow> 's sharded \<Rightarrow> sc_handle \<Rightarrow> u32 option" where
  "sc_refs refs s h = (if fst h < length (shards s) then refs (GetShard s (fst h)) (snd h) else None)"

definition sc_value :: "(nat \<Rightarrow> 's \<Rightarrow> 'v option) \<Rightarrow> sc_handle \<Rightarrow> 's sharded \<Rightarrow> 'v option" where
  "sc_value val h s = val (snd h) (GetShard s (fst h))"

definition sc_invar :: "('s \<Rightarrow> bool) \<Rightarrow> ('s \<Rightarrow> nat \<Rightarrow> u32 option) \<Rightarrow> 's sharded \<Rightarrow> bool" where
  "sc_invar ok hash s \<longleftrightarrow> num_shard_bits s \<le> 32 \<and> length (shards s) = 2 ^ num_shard_bits s \<and>
     (\<forall>i < length (shards s). ok (shards s ! i) \<and>
        (\<forall>a h. hash (shards s ! i) a = Some h \<longrightarrow> Shard (num_shard_bits s) h = i))"

definition sc_load :: "('s \<Rightarrow> nat) \<Rightarrow> 's sharded \<Rightarrow> nat" where
  "sc_load ld s = sum_list (map ld (shards s))"

definition sc_fits :: "('s \<Rightarrow> bytes \<times> u32 \<Rightarrow> nat \<Rightarrow> bool) \<Rightarrow> 's sharded \<Rightarrow> bytes \<Rightarrow> nat \<Rightarrow> bool" where
  "sc_fits ft s k c = ft (GetShard s (sc_shard k s)) (k, HashSlice k) c"

lemmas sc_defs = sc_contents_def sc_refs_def sc_value_def sc_fits_def sc_shard_def GetShard_def

lemma sc_shard_less: "sc_invar ok hash s \<Longrightarrow> sc_shard k s < length (shards s)"
  by (simp add: sc_invar_def sc_shard_def Shard_less)

lemma sc_invarD:
  assumes "sc_invar ok hash s" "i < length (shards s)"
  shows "ok (shards s ! i)" "hash (shards s ! i) a = Some h \<Longrightarrow> Shard (num_shard_bits s) h = i"
  using assms by (auto simp: sc_invar_def)

lemma sc_load_ge: "i < length (shards s) \<Longrightarrow> ld (shards s ! i) \<le> sc_load ld s"
  by (simp add: sc_load_def member_le_sum_list)

lemma sc_load_upd:
  "i < length (shards s) \<Longrightarrow> sc_load ld (upd_shard i x s) + ld (shards s ! i) = sc_load ld s + ld x"
  using sc_load_ge [of i s ld]
  by (simp add: sc_load_def map_update sum_list_update)

lemma sc_invar_upd:
  assumes "sc_invar ok hash s" "i < length (shards s)" "ok x"
    and "\<And>a h. hash x a = Some h \<Longrightarrow> Shard (num_shard_bits s) h = i"
  shows "sc_invar ok hash (upd_shard i x s)"
  using assms by (auto simp: sc_invar_def nth_list_update)

lemma sc_refs_upd:
  "i < length (shards s) \<Longrightarrow> sc_refs refs (upd_shard i x s) (j, a) = (if j = i then refs x a else sc_refs refs s (j, a))"
  by (auto simp: sc_refs_def GetShard_def)

text \<open>How a step of one shard shows in the contents of the whole cache.\<close>

lemma sc_contents_upd:
  "sc_invar ok hash s \<Longrightarrow> i < length (shards s) \<Longrightarrow>
   sc_contents cont (upd_shard i x s) k =
     (if sc_shard k s = i then cont x (k, HashSlice k) else sc_contents cont s k)"
  by (auto simp: sc_defs)

lemma sc_contents_same:
  "cont x = cont (shards s ! i) \<Longrightarrow> i < length (shards s) \<Longrightarrow> sc_invar ok hash s \<Longrightarrow>
   sc_contents cont (upd_shard i x s) = sc_contents cont s"
  by (rule ext) (auto simp: sc_defs nth_list_update)

lemma upd_shard_same: "i < length (shards s) \<Longrightarrow> upd_shard i (shards s ! i) s = s"
  by (simp add: upd_shard_def)


lemma new_sharded_ok:
  assumes n: "new_shard (per_shard cap (2 ^ bits)) = Some x" "bits \<le> 32"
    and x: "ok x" "\<And>a. hash x a = None" "\<And>a. refs x a = None" "ld x = 0" "\<And>k. cont x k = None"
  shows "\<exists>s. new_sharded new_shard cap bits = Some s \<and> sc_invar ok hash s \<and> sc_load ld s = 0 \<and>
    sc_contents cont s = Map.empty \<and> sc_refs refs s = Map.empty \<and> num_shard_bits s = bits \<and> sc_capacity s = cap"
proof -
  let ?s = "\<lparr>num_shard_bits = bits, sc_capacity = cap, shards = replicate (2 ^ bits) x\<rparr>"
  have "sc_contents cont ?s k = None" for k
    using n(2) x(5) Shard_less [of bits "HashSlice k"] by (simp add: sc_defs)
  moreover have "sc_refs refs ?s h = None" for h
    using x(3) by (simp add: sc_defs)
  ultimately show ?thesis
    using n x by (intro exI [of _ ?s])
      (auto simp: new_sharded_def sc_invar_def sc_load_def sum_list_replicate fun_eq_iff)
qed

lemma new_cache_bits:
  assumes "bits < 20" "n = (if bits < 0 then GetDefaultCacheShardBits cap else nat bits)"
    "new_sharded new_shard cap n = Some s"
  shows "new_cache new_shard cap bits = Inr (Some s)"
  using assms by (simp add: new_cache_def Let_def)

lemma default_bits_le:
  "bits < 20 \<Longrightarrow> (if bits < 0 then GetDefaultCacheShardBits cap else nat bits) \<le> 32"
  using GetDefaultCacheShardBits_le [of cap] by auto

text \<open>Every step of a shard lifts to a step of the sharded cache, so the contract lifts too.\<close>

context cache_shard
begin

abbreviation "sinv \<equiv> sc_invar invar hash_at"

lemma shard_of_key:
  assumes "sinv s" "sc_load load s < 2 ^ 30"
  shows "sc_shard k s < length (shards s)" "invar (shards s ! sc_shard k s)" "load (shards s ! sc_shard k s) < 2 ^ 30"
  using assms sc_shard_less [OF assms(1)] sc_invarD(1) [OF assms(1) sc_shard_less [OF assms(1), of k]]
    sc_load_ge [OF sc_shard_less [OF assms(1), of k], of load] by auto

lemma sharded_insert_cases:
  assumes "ShardedCache_Insert Insert k v c s = Some (h, s')"
  obtains a x where "Insert k (HashSlice k) v c (shards s ! sc_shard k s) = Some (a, x)"
    "h = (sc_shard k s, a)" "s' = upd_shard (sc_shard k s) x s"
  using assms by (auto simp: ShardedCache_Insert_def Let_def GetShard_def sc_shard_def)

lemma sharded_insert_sinv:
  assumes s: "sinv s" "sc_load load s < 2 ^ 30" and i: "ShardedCache_Insert Insert k v c s = Some (h, s')"
  shows "sinv s' \<and> sc_load load s' \<le> sc_load load s + 1"
proof -
  note sk = shard_of_key [OF s, of k]
  obtain a x where x: "Insert k (HashSlice k) v c (shards s ! sc_shard k s) = Some (a, x)"
    "h = (sc_shard k s, a)" "s' = upd_shard (sc_shard k s) x s"
    using i by (rule sharded_insert_cases)
  have "invar x \<and> load x \<le> load (shards s ! sc_shard k s) + 1"
    using insert_invar [of "shards s ! sc_shard k s" "(k, HashSlice k)" v c a x] sk x(1) by simp
  moreover have "Shard (num_shard_bits s) y = sc_shard k s" if "hash_at x b = Some y" for b y
    using insert_hash [OF sk(2,3) x(1) that] sc_invarD(2) [OF s(1) sk(1)] by (auto simp: sc_shard_def)
  ultimately show ?thesis
    using sc_invar_upd [OF s(1) sk(1)] sc_load_upd [OF sk(1), of load x] by (auto simp: x(3))
qed

lemma sharded_insert_value:
  assumes s: "sinv s" "sc_load load s < 2 ^ 30" and i: "ShardedCache_Insert Insert k v c s = Some (h, s')"
  shows "sc_value Value h s' = sc_contents contents s' k \<and> sc_contents contents s' k \<noteq> None \<and>
      (sc_contents contents s' k = Some v \<or> sc_contents contents s' k = sc_contents contents s k)"
    "j \<noteq> k \<Longrightarrow> sc_contents contents s' j = None \<or> sc_contents contents s' j = sc_contents contents s j"
    "sc_fits fits s k c \<Longrightarrow> sc_contents contents s' =
      (sc_contents contents s)(k \<mapsto> (case sc_contents contents s k of None \<Rightarrow> v | Some w \<Rightarrow> w))"
    "sc_refs refs_at s' h = Some (case sc_refs refs_at s h of None \<Rightarrow> 1 | Some n \<Rightarrow> n + 1)"
    "g \<noteq> h \<Longrightarrow> sc_refs refs_at s' g = sc_refs refs_at s g \<or>
      (sc_refs refs_at s g = Some 0 \<and> sc_refs refs_at s' g = None)"
    "sc_refs refs_at s g = Some n \<Longrightarrow> n \<noteq> 0 \<Longrightarrow> sc_value Value g s' = sc_value Value g s"
proof -
  note sk = shard_of_key [OF s, of k]
  let ?x = "shards s ! sc_shard k s" and ?k = "(k, HashSlice k)"
  obtain a x where x: "case_prod Insert ?k v c ?x = Some (a, x)"
    "h = (sc_shard k s, a)" "s' = upd_shard (sc_shard k s) x s"
    using i by (rule sharded_insert_cases) simp
  note cu = sc_contents_upd [OF s(1) sk(1)]
  show "sc_value Value h s' = sc_contents contents s' k \<and> sc_contents contents s' k \<noteq> None \<and>
      (sc_contents contents s' k = Some v \<or> sc_contents contents s' k = sc_contents contents s k)"
    using insert_value [OF sk(2,3) x(1)] sk(1)
    by (simp add: x cu) (simp add: sc_defs)
  show "j \<noteq> k \<Longrightarrow> sc_contents contents s' j = None \<or> sc_contents contents s' j = sc_contents contents s j"
    using insert_other [OF sk(2,3) x(1), of "(j, HashSlice j)"]
    by (simp add: x cu) (auto simp: sc_defs)
  show "sc_contents contents s' =
      (sc_contents contents s)(k \<mapsto> (case sc_contents contents s k of None \<Rightarrow> v | Some w \<Rightarrow> w))"
    if "sc_fits fits s k c"
  proof
    fix j
    have "contents x = (contents ?x)(?k \<mapsto> (case contents ?x ?k of None \<Rightarrow> v | Some w \<Rightarrow> w))"
      using insert_fits [OF sk(2,3) x(1)] that by (simp add: sc_defs)
    then show "sc_contents contents s' j =
      ((sc_contents contents s)(k \<mapsto> (case sc_contents contents s k of None \<Rightarrow> v | Some w \<Rightarrow> w))) j"
      by (simp add: x cu) (auto simp: sc_defs)
  qed
  show "sc_refs refs_at s' h = Some (case sc_refs refs_at s h of None \<Rightarrow> 1 | Some n \<Rightarrow> n + 1)"
    using insert_refs [OF sk(2,3) x(1)] sk(1) by (simp add: x sc_refs_upd) (simp add: sc_defs)
  show "g \<noteq> h \<Longrightarrow> sc_refs refs_at s' g = sc_refs refs_at s g \<or>
      (sc_refs refs_at s g = Some 0 \<and> sc_refs refs_at s' g = None)"
    using insert_refs_other [OF sk(2,3) x(1), of "snd g"] sk(1)
    by (cases g) (auto simp: x sc_refs_def GetShard_def nth_list_update)
  show "sc_refs refs_at s g = Some n \<Longrightarrow> n \<noteq> 0 \<Longrightarrow> sc_value Value g s' = sc_value Value g s"
    using pinned_value [OF sk(2), of "snd g" n ?k v c a x] sk x(1)
    by (cases g) (auto simp: x(3) sc_refs_def sc_value_def GetShard_def nth_list_update)
qed


lemma sharded_lookup_cases:
  assumes "ShardedCache_Lookup Lookup k s = (r, s')"
  obtains q x where "case_prod Lookup (k, HashSlice k) (shards s ! sc_shard k s) = (q, x)"
    "r = map_option (Pair (sc_shard k s)) q" "s' = upd_shard (sc_shard k s) x s"
  using assms by (auto simp: ShardedCache_Lookup_def Let_def GetShard_def sc_shard_def split: prod.splits)

lemma sharded_lookup:
  assumes s: "sinv s" and l: "ShardedCache_Lookup Lookup k s = (r, s')"
  shows "sinv s' \<and> sc_load load s' = sc_load load s \<and> sc_contents contents s' = sc_contents contents s"
    "r = None \<Longrightarrow> sc_contents contents s k = None \<and> s' = s"
    "r = Some h \<Longrightarrow> sc_value Value h s' = sc_contents contents s k \<and> sc_contents contents s k \<noteq> None \<and>
      (\<exists>n. sc_refs refs_at s h = Some n \<and> sc_refs refs_at s' = (sc_refs refs_at s)(h \<mapsto> n + 1))"
    "sc_refs refs_at s g = Some n \<Longrightarrow> n \<noteq> 0 \<Longrightarrow> sc_value Value g s' = sc_value Value g s"
proof -
  let ?i = "sc_shard k s" and ?x = "shards s ! sc_shard k s" and ?k = "(k, HashSlice k)"
  have i: "?i < length (shards s)" using sc_shard_less [OF s] .
  have inv: "invar ?x" using sc_invarD(1) [OF s i] .
  obtain q x where x: "case_prod Lookup ?k ?x = (q, x)" "r = map_option (Pair ?i) q" "s' = upd_shard ?i x s"
    using l by (rule sharded_lookup_cases)
  note st = lookup_state [OF inv x(1)]
  have "Shard (num_shard_bits s) y = ?i" if "hash_at x b = Some y" for b y
    using lookup_hash [OF inv _ that, of k "HashSlice k" q] x(1) by (auto intro: sc_invarD(2) [OF s i])
  then show "sinv s' \<and> sc_load load s' = sc_load load s \<and> sc_contents contents s' = sc_contents contents s"
    using sc_invar_upd [OF s i] sc_load_upd [OF i, of load x] sc_contents_same [OF _ i s] st
    by (auto simp: x(3))
  show "r = None \<Longrightarrow> sc_contents contents s k = None \<and> s' = s"
    using lookup_miss [OF inv, of ?k x] x upd_shard_same [OF i] by (auto simp: sc_defs)
  show "sc_value Value h s' = sc_contents contents s k \<and> sc_contents contents s k \<noteq> None \<and>
      (\<exists>n. sc_refs refs_at s h = Some n \<and> sc_refs refs_at s' = (sc_refs refs_at s)(h \<mapsto> n + 1))"
    if r: "r = Some h"
  proof -
    obtain a where a: "q = Some a" "h = (?i, a)" using r x(2) by auto
    obtain n where n: "Value a x = contents ?x ?k" "contents ?x ?k \<noteq> None" "refs_at ?x a = Some n"
      "refs_at x = (refs_at ?x)(a \<mapsto> n + 1)"
      using lookup_hit [OF inv, of ?k a x] x(1) a by auto
    have "sc_refs refs_at s' g = ((sc_refs refs_at s)(h \<mapsto> n + 1)) g" for g
      using n i by (cases g) (auto simp: x(3) a sc_refs_upd, auto simp: sc_refs_def GetShard_def)
    then show ?thesis
      using n i by (auto simp: x(3) a sc_defs)
  qed
  show "sc_refs refs_at s g = Some n \<Longrightarrow> n \<noteq> 0 \<Longrightarrow> sc_value Value g s' = sc_value Value g s"
    using pinned_value [OF inv, of "snd g" n ?k] x(1) i
    by (cases g) (auto simp: x(3) sc_refs_def sc_value_def GetShard_def nth_list_update)
qed

lemma sharded_release:
  assumes s: "sinv s" and r: "sc_refs refs_at s h = Some n" "n \<noteq> 0"
  shows "sinv (ShardedCache_Release hash_at Release h s) \<and>
      sc_load load (ShardedCache_Release hash_at Release h s) = sc_load load s \<and>
      sc_contents contents (ShardedCache_Release hash_at Release h s) = sc_contents contents s"
    "sc_refs refs_at (ShardedCache_Release hash_at Release h s) = (sc_refs refs_at s)(h \<mapsto> n - 1) \<or>
      n = 1 \<and> sc_refs refs_at (ShardedCache_Release hash_at Release h s) = (sc_refs refs_at s)(h := None)"
proof -
  obtain i a where h: "h = (i, a)" by (cases h)
  have i: "i < length (shards s)" and ra: "refs_at (shards s ! i) a = Some n"
    using r h by (auto simp: sc_refs_def GetShard_def split: if_splits)
  have inv: "invar (shards s ! i)" using sc_invarD(1) [OF s i] .
  let ?x = "Release a (shards s ! i)"
  obtain y where "hash_at (shards s ! i) a = Some y" "Shard (num_shard_bits s) y = i"
    using hash_live [OF ra] sc_invarD(2) [OF s i] by blast
  then have e: "ShardedCache_Release hash_at Release h s = upd_shard i ?x s"
    by (simp add: ShardedCache_Release_def h GetShard_def)
  note st = release_state [OF inv ra r(2)]
  have "Shard (num_shard_bits s) y = i" if "hash_at ?x b = Some y" for b y
    using release_hash [OF inv ra r(2) that] sc_invarD(2) [OF s i] by auto
  then show "sinv (ShardedCache_Release hash_at Release h s) \<and>
      sc_load load (ShardedCache_Release hash_at Release h s) = sc_load load s \<and>
      sc_contents contents (ShardedCache_Release hash_at Release h s) = sc_contents contents s"
    using sc_invar_upd [OF s i] sc_load_upd [OF i, of load ?x] sc_contents_same [OF _ i s] st
    by (auto simp: e)
  have up: "sc_refs refs_at (upd_shard i ?x s) = (sc_refs refs_at s)(h := z)"
    if "refs_at ?x = (refs_at (shards s ! i))(a := z)" for z
    using that i by (auto simp: h fun_eq_iff sc_refs_def GetShard_def nth_list_update)
  show "sc_refs refs_at (ShardedCache_Release hash_at Release h s) = (sc_refs refs_at s)(h \<mapsto> n - 1) \<or>
      n = 1 \<and> sc_refs refs_at (ShardedCache_Release hash_at Release h s) = (sc_refs refs_at s)(h := None)"
    using release_refs [OF inv ra r(2)] up unfolding e by auto
qed

lemma sharded_erase:
  assumes s: "sinv s"
  shows "sinv (ShardedCache_Erase Erase k s) \<and>
      sc_load load (ShardedCache_Erase Erase k s) = sc_load load s \<and>
      sc_contents contents (ShardedCache_Erase Erase k s) = (sc_contents contents s)(k := None)"
    "sc_refs refs_at (ShardedCache_Erase Erase k s) g = sc_refs refs_at s g \<or>
      (sc_refs refs_at s g = Some 0 \<and> sc_refs refs_at (ShardedCache_Erase Erase k s) g = None)"
    "sc_refs refs_at s g = Some n \<Longrightarrow> n \<noteq> 0 \<Longrightarrow>
      sc_value Value g (ShardedCache_Erase Erase k s) = sc_value Value g s"
proof -
  let ?i = "sc_shard k s" and ?k = "(k, HashSlice k)"
  let ?x = "case_prod Erase ?k (shards s ! ?i)"
  have i: "?i < length (shards s)" using sc_shard_less [OF s] .
  have inv: "invar (shards s ! ?i)" using sc_invarD(1) [OF s i] .
  have e: "ShardedCache_Erase Erase k s = upd_shard ?i ?x s"
    by (simp add: ShardedCache_Erase_def sc_shard_def GetShard_def Let_def)
  note st = erase_state [OF inv, of ?k]
  have "Shard (num_shard_bits s) y = ?i" if "hash_at ?x b = Some y" for b y
    using erase_hash [OF inv, of k "HashSlice k" b y] that by (auto intro: sc_invarD(2) [OF s i])
  moreover have "sc_contents contents (upd_shard ?i ?x s) j = ((sc_contents contents s)(k := None)) j" for j
    using st by (auto simp: sc_contents_upd [OF s i], auto simp: sc_defs)
  ultimately show "sinv (ShardedCache_Erase Erase k s) \<and>
      sc_load load (ShardedCache_Erase Erase k s) = sc_load load s \<and>
      sc_contents contents (ShardedCache_Erase Erase k s) = (sc_contents contents s)(k := None)"
    using sc_invar_upd [OF s i] sc_load_upd [OF i, of load ?x] st unfolding e by auto
  show "sc_refs refs_at (ShardedCache_Erase Erase k s) g = sc_refs refs_at s g \<or>
      (sc_refs refs_at s g = Some 0 \<and> sc_refs refs_at (ShardedCache_Erase Erase k s) g = None)"
    using erase_refs [OF inv, of ?k "snd g"] i unfolding e
    by (cases g) (auto simp: sc_refs_def GetShard_def nth_list_update)
  show "sc_refs refs_at s g = Some n \<Longrightarrow> n \<noteq> 0 \<Longrightarrow>
      sc_value Value g (ShardedCache_Erase Erase k s) = sc_value Value g s"
    using pinned_value [OF inv, of "snd g" n ?k] i unfolding e
    by (cases g) (auto simp: sc_refs_def sc_value_def GetShard_def nth_list_update)
qed

end


sublocale cache_shard \<subseteq> sharded: cache "ShardedCache_Insert Insert" "ShardedCache_Lookup Lookup"
  "ShardedCache_Release hash_at Release" "ShardedCache_Erase Erase" "sc_value Value" "sc_refs refs_at"
  "sc_contents contents" "sc_invar invar hash_at" "sc_load load" "sc_fits fits"
proof
  fix k v c h s s' g n
  assume s: "sinv s"
  have "\<exists>a x. Insert k (HashSlice k) v c (shards s ! sc_shard k s) = Some (a, x)"
    if "sc_load load s < 2 ^ 30"
    using insert_returns [OF shard_of_key(2,3) [OF s that, of k], of "(k, HashSlice k)" v c] by simp
  then show "\<exists>h s'. ShardedCache_Insert Insert k v c s = Some (h, s')" if "sc_load load s < 2 ^ 30"
    using that by (auto simp: ShardedCache_Insert_def Let_def GetShard_def sc_shard_def)
  show "sc_contents contents s k = None \<and> s' = s" if "ShardedCache_Lookup Lookup k s = (None, s')"
    by (rule sharded_lookup(2) [OF s that refl])
  show "sc_value Value h s' = sc_contents contents s k \<and> sc_contents contents s k \<noteq> None \<and>
      (\<exists>n. sc_refs refs_at s h = Some n \<and> sc_refs refs_at s' = (sc_refs refs_at s)(h \<mapsto> n + 1))"
    if "ShardedCache_Lookup Lookup k s = (Some h, s')"
    by (rule sharded_lookup(3) [OF s that refl])
  show "(sc_load load s < 2 ^ 30 \<longrightarrow> ShardedCache_Insert Insert k v c s = Some (h, s') \<longrightarrow>
        sc_value Value g s' = sc_value Value g s) \<and>
      sc_value Value g (snd (ShardedCache_Lookup Lookup k s)) = sc_value Value g s \<and>
      sc_value Value g (ShardedCache_Erase Erase k s) = sc_value Value g s"
    if "sc_refs refs_at s g = Some n" "n \<noteq> 0"
    using sharded_insert_value(6) [OF s _ _ that] sharded_erase(3) [OF s that]
      sharded_lookup(4) [OF s _ that, of k "fst (ShardedCache_Lookup Lookup k s)"]
    by simp
qed (fact sharded_insert_sinv sharded_insert_value sharded_lookup sharded_release sharded_erase)+

end
