(* ===== verification/LRU_Cache.thy ===== *)
theory LRU_Cache
  imports HandleTable Sharded_Cache
begin

text \<open>
  \<open>LRUCacheShard\<close> of src/cache/lru_cache.cc. The circular list headed by \<open>lru_\<close> is the list of the
  addresses met from \<open>lru_.next\<close> on, oldest first; \<open>new\<close> takes the address \<open>brk\<close>, \<open>Free\<close> removes
  the handle from the heap. Every operation holds \<open>mutex_\<close>, so each is one atomic step.
  \<open>None\<close> as the result of \<open>Insert\<close> means that the resizing of the hash table does not return.
\<close>

record 'v shard =
  capacity :: nat
  lru :: "addr list"
  tbl :: table
  usage :: nat
  hmem :: "('v, unit) heap"
  brk :: addr

definition upd_handle :: "addr \<Rightarrow> ('v handle \<Rightarrow> 'v handle) \<Rightarrow> 'v shard \<Rightarrow> 'v shard" where
  "upd_handle a f s = s\<lparr>hmem := (hmem s)(a := map_option f (hmem s a))\<rparr>"

definition Free :: "addr \<Rightarrow> 'v shard \<Rightarrow> 'v shard" where
  "Free a s = s\<lparr>hmem := (hmem s)(a := None)\<rparr>"

subsection \<open>Operations\<close>

definition LRUCacheShard_SetCapacity :: "nat \<Rightarrow> 'v shard \<Rightarrow> 'v shard" where
  "LRUCacheShard_SetCapacity c s = s\<lparr>capacity := c\<rparr>"

definition LRUCacheShard_new :: "nat \<Rightarrow> 'v shard option" where
  "LRUCacheShard_new c =
     map_option (\<lambda>t. LRUCacheShard_SetCapacity c
         \<lparr>capacity = 0, lru = [], tbl = t, usage = 0, hmem = Map.empty, brk = 0\<rparr>)
       (LRUHandleTable_new (Map.empty :: ('v, unit) heap))"

definition LRU_Remove :: "addr \<Rightarrow> 'v shard \<Rightarrow> 'v shard" where
  "LRU_Remove h s = s\<lparr>lru := remove1 h (lru s)\<rparr>"

definition LRU_Insert :: "addr \<Rightarrow> 'v shard \<Rightarrow> 'v shard" where
  "LRU_Insert h s = s\<lparr>lru := lru s @ [h]\<rparr>"

text \<open>The loop of \<open>EvictFromLRU\<close> from the list node \<open>h\<close> on, and its body for an unreferenced handle.\<close>

definition evict_one :: "addr \<Rightarrow> 'v handle \<Rightarrow> 'v shard \<Rightarrow> 'v shard" where
  "evict_one h he s =
     (let evict_charge = CalcTotalCharge he;
          s1 = s\<lparr>tbl := snd (LRUHandleTable_Remove (hmem s) (tbl s) (key_data he) (hash he))\<rparr>;
          s2 = LRU_Remove h s1
      in s2\<lparr>usage := usage s2 - evict_charge\<rparr>)"

fun evict_loop :: "nat \<Rightarrow> addr list \<Rightarrow> 'v shard \<Rightarrow> 'v shard \<times> addr list" where
  "evict_loop c [] s = (s, [])"
| "evict_loop c (h # hs) s =
     (if usage s + c > capacity s then
        (case hmem s h of
           None \<Rightarrow> evict_loop c hs s
         | Some he \<Rightarrow>
             if \<not> HasRefs he then
               let (s4, deleted) = evict_loop c hs (evict_one h he s)
               in (s4, h # deleted)
             else evict_loop c hs s)
      else (s, []))"

definition EvictFromLRU :: "nat \<Rightarrow> 'v shard \<Rightarrow> 'v shard \<times> addr list" where
  "EvictFromLRU c s = evict_loop c (lru s) s"

definition LRUCacheShard_Insert ::
    "bytes \<Rightarrow> u32 \<Rightarrow> 'v \<Rightarrow> nat \<Rightarrow> 'v shard \<Rightarrow> (addr \<times> 'v shard) option" where
  "LRUCacheShard_Insert key hs v c s0 =
     (let h = brk s0;
          he = \<lparr>hvalue = v, key_data = key, charge = c, inCache = 0, hash = hs, refs = 0\<rparr>;
          total_charge = CalcTotalCharge he;
          s1 = s0\<lparr>hmem := (hmem s0)(h \<mapsto> he), brk := h + 1\<rparr>;
          (s2, lru_list) =
            (if usage s1 + total_charge > capacity s1 then EvictFromLRU total_charge s1
             else (s1, []))
      in case LRUHandleTable_Insert (hmem s2) (tbl s2) h he of
           None \<Rightarrow> None
         | Some (old_h, t) \<Rightarrow>
             let s3 = s2\<lparr>tbl := t\<rparr> in
             if old_h \<noteq> h then
               Some (old_h, fold Free (lru_list @ [h]) (upd_handle old_h Ref s3))
             else
               let s4 = upd_handle h Ref (LRU_Insert h s3)
               in Some (h, fold Free lru_list (s4\<lparr>usage := usage s4 + total_charge\<rparr>)))"

definition LRUCacheShard_Lookup :: "bytes \<Rightarrow> u32 \<Rightarrow> 'v shard \<Rightarrow> addr option \<times> 'v shard" where
  "LRUCacheShard_Lookup key hs s =
     (case LRUHandleTable_Lookup (hmem s) (tbl s) key hs of
        None \<Rightarrow> (None, s)
      | Some h \<Rightarrow> (Some h, upd_handle h Ref (LRU_Insert h (LRU_Remove h s))))"

definition LRUCacheShard_Release :: "addr \<Rightarrow> 'v shard \<Rightarrow> 'v shard" where
  "LRUCacheShard_Release h s =
     (case hmem s h of
        None \<Rightarrow> s
      | Some he \<Rightarrow>
          let (last_reference, he') = Unref he;
              s1 = upd_handle h (\<lambda>_. he') s
          in if last_reference \<and> \<not> InCache he' then
               let s2 = LRU_Remove h s1
               in Free h (s2\<lparr>usage := usage s2 - CalcTotalCharge he'\<rparr>)
             else s1)"

definition LRUCacheShard_Erase :: "bytes \<Rightarrow> u32 \<Rightarrow> 'v shard \<Rightarrow> bool \<times> 'v shard" where
  "LRUCacheShard_Erase key hs s =
     (case LRUHandleTable_Remove (hmem s) (tbl s) key hs of
        (None, t) \<Rightarrow> (False, s\<lparr>tbl := t\<rparr>)
      | (Some h, t) \<Rightarrow>
          let s1 = upd_handle h (SetInCache False) (s\<lparr>tbl := t\<rparr>)
          in case hmem s1 h of
               None \<Rightarrow> (True, s1)
             | Some he \<Rightarrow>
                 if \<not> HasRefs he then
                   let s2 = LRU_Remove h s1
                   in (True, Free h (s2\<lparr>usage := usage s2 - CalcTotalCharge he\<rparr>))
                 else (True, s1))"

definition LRUCacheShard_GetUsage :: "'v shard \<Rightarrow> nat" where
  "LRUCacheShard_GetUsage s = usage s"

subsection \<open>Invariant\<close>

definition charge_at :: "('v, 'm) heap \<Rightarrow> addr \<Rightarrow> nat" where
  "charge_at hp a = (case hp a of None \<Rightarrow> 0 | Some h \<Rightarrow> CalcTotalCharge h)"

definition charges :: "('v, 'm) heap \<Rightarrow> addr list \<Rightarrow> nat" where
  "charges hp xs = sum_list (map (charge_at hp) xs)"

definition handle_ok :: "addr set \<Rightarrow> addr \<Rightarrow> 'v handle \<Rightarrow> bool" where
  "handle_ok E a h \<longleftrightarrow> (InCache h \<longleftrightarrow> a \<in> E) \<and> (a \<notin> E \<longrightarrow> HasRefs h)"

text \<open>What holds inside an operation, when unlinked handles are not yet freed.\<close>

definition core_inv :: "'v shard \<Rightarrow> bool" where
  "core_inv s \<longleftrightarrow>
     ht_inv (hmem s) (tbl s) \<and> distinct (lru s) \<and> set (lru s) \<subseteq> dom (hmem s) \<and>
     entries (tbl s) \<subseteq> set (lru s) \<and>
     (\<forall>a \<in> set (lru s). \<forall>h. hmem s a = Some h \<longrightarrow> handle_ok (entries (tbl s)) a h) \<and>
     usage s = charges (hmem s) (lru s) \<and>
     (\<forall>a \<in> dom (hmem s). a < brk s)"

definition shard_inv :: "'v shard \<Rightarrow> bool" where
  "shard_inv s \<longleftrightarrow> core_inv s \<and> dom (hmem s) = set (lru s)"

definition contents :: "'v shard \<Rightarrow> bytes \<Rightarrow> u32 \<Rightarrow> 'v option" where
  "contents s key hs =
     (case LRUHandleTable_FindPointer (hmem s) (tbl s) key hs of
        None \<Rightarrow> None
      | Some a \<Rightarrow> map_option hvalue (hmem s a))"

definition pinned :: "'v shard \<Rightarrow> addr \<Rightarrow> bool" where
  "pinned s a \<longleftrightarrow> (\<exists>h. hmem s a = Some h \<and> HasRefs h)"

definition room :: "'v shard \<Rightarrow> bool" where
  "room s \<longleftrightarrow> unat (ht_elems (tbl s)) < 2 ^ 30"


subsection \<open>Updating and freeing handles\<close>

lemma Free_simps [simp]:
  "capacity (Free a s) = capacity s" "lru (Free a s) = lru s" "tbl (Free a s) = tbl s"
  "usage (Free a s) = usage s" "hmem (Free a s) = (hmem s)(a := None)" "brk (Free a s) = brk s"
  by (simp_all add: Free_def)

lemma upd_handle_simps [simp]:
  "capacity (upd_handle a f s) = capacity s" "lru (upd_handle a f s) = lru s"
  "tbl (upd_handle a f s) = tbl s" "usage (upd_handle a f s) = usage s"
  "hmem (upd_handle a f s) = (hmem s)(a := map_option f (hmem s a))" "brk (upd_handle a f s) = brk s"
  by (simp_all add: upd_handle_def)

lemma LRU_list_simps [simp]:
  "capacity (LRU_Remove a s) = capacity s" "lru (LRU_Remove a s) = remove1 a (lru s)"
  "tbl (LRU_Remove a s) = tbl s" "usage (LRU_Remove a s) = usage s"
  "hmem (LRU_Remove a s) = hmem s" "brk (LRU_Remove a s) = brk s"
  "capacity (LRU_Insert a s) = capacity s" "lru (LRU_Insert a s) = lru s @ [a]"
  "tbl (LRU_Insert a s) = tbl s" "usage (LRU_Insert a s) = usage s"
  "hmem (LRU_Insert a s) = hmem s" "brk (LRU_Insert a s) = brk s"
  by (simp_all add: LRU_Remove_def LRU_Insert_def)

lemma fold_Free: "fold Free xs s = s\<lparr>hmem := hmem s |` (- set xs)\<rparr>"
proof (induction xs arbitrary: s)
  case (Cons x xs)
  have "hmem (Free x s) |` (- set xs) = hmem s |` (- set (x # xs))"
    by (auto simp: restrict_map_def)
  moreover have "(Free x s)\<lparr>hmem := m\<rparr> = s\<lparr>hmem := m\<rparr>" for m
    by (simp add: Free_def)
  ultimately show ?case
    using Cons.IH [of "Free x s"] by (simp only: fold_simps)
qed (simp add: restrict_map_def)

lemma handle_simps [simp]:
  "key_data (Ref h) = key_data h" "hash (Ref h) = hash h" "InCache (Ref h) = InCache h"
  "CalcTotalCharge (Ref h) = CalcTotalCharge h" "hvalue (Ref h) = hvalue h"
  "key_data (SetInCache f h) = key_data h" "hash (SetInCache f h) = hash h"
  "InCache (SetInCache f h) = f" "HasRefs (SetInCache f h) = HasRefs h"
  "CalcTotalCharge (SetInCache f h) = CalcTotalCharge h" "hvalue (SetInCache f h) = hvalue h"
  by (simp_all add: Ref_def SetInCache_def InCache_def CalcTotalCharge_def HasRefs_def)

lemma charges_cong:
  "(\<And>a. a \<in> set xs \<Longrightarrow> charge_at hp' a = charge_at hp a) \<Longrightarrow> charges hp' xs = charges hp xs"
  unfolding charges_def by (metis map_cong)

lemma charges_simps [simp]:
  "charges hp [] = 0"
  "charges hp (x # xs) = charge_at hp x + charges hp xs"
  "charges hp (xs @ ys) = charges hp xs + charges hp ys"
  by (simp_all add: charges_def)

lemma charges_remove1: "x \<in> set xs \<Longrightarrow> charges hp xs = charge_at hp x + charges hp (remove1 x xs)"
  by (induction xs) auto

lemma core_invD:
  assumes "core_inv s"
  shows "ht_inv (hmem s) (tbl s)" "distinct (lru s)" "set (lru s) \<subseteq> dom (hmem s)"
    "entries (tbl s) \<subseteq> set (lru s)" "usage s = charges (hmem s) (lru s)"
    "\<And>a h. a \<in> set (lru s) \<Longrightarrow> hmem s a = Some h \<Longrightarrow> handle_ok (entries (tbl s)) a h"
    "\<And>a h. hmem s a = Some h \<Longrightarrow> a < brk s"
  using assms by (auto simp: core_inv_def)

lemma shard_invD:
  assumes "shard_inv s"
  shows "core_inv s" "dom (hmem s) = set (lru s)"
  using assms by (auto simp: shard_inv_def)

lemma contents_Some_iff:
  assumes "core_inv s"
  shows "contents s key hs = Some v \<longleftrightarrow>
    (\<exists>a \<in> entries (tbl s). \<exists>h. hmem s a = Some h \<and> key_data h = key \<and> hash h = hs \<and> hvalue h = v)"
proof -
  have *: "LRUHandleTable_FindPointer (hmem s) (tbl s) key hs = Some a \<longleftrightarrow>
      a \<in> entries (tbl s) \<and> kh (hmem s) a = Some (key, hs)" for a
    by (rule FindPointer_Some_iff [OF core_invD(1) [OF assms]])
  show ?thesis
  proof (cases "LRUHandleTable_FindPointer (hmem s) (tbl s) key hs")
    case None
    then have "contents s key hs = None" by (simp add: contents_def)
    moreover have "\<forall>a \<in> entries (tbl s). kh (hmem s) a \<noteq> Some (key, hs)"
      using None * by auto
    ultimately show ?thesis by (auto simp: kh_def)
  next
    case (Some a)
    then obtain h where h: "a \<in> entries (tbl s)" "hmem s a = Some h" "key_data h = key" "hash h = hs"
      using * [of a] by (auto simp: kh_def)
    have c: "contents s key hs = Some (hvalue h)"
      using Some h by (simp add: contents_def)
    have u: "h' = h" if "b \<in> entries (tbl s)" "hmem s b = Some h'" "key_data h' = key" "hash h' = hs" for b h'
      using that Some * [of b] h(2) by (simp add: kh_def)
    show ?thesis
      unfolding c using h u by blast
  qed
qed

lemma core_inv_upd_handle:
  assumes inv: "core_inv s"
    and f: "\<And>h. hmem s a = Some h \<Longrightarrow> key_data (f h) = key_data h \<and> hash (f h) = hash h \<and>
      CalcTotalCharge (f h) = CalcTotalCharge h \<and>
      (a \<in> set (lru s) \<longrightarrow> handle_ok (entries (tbl s)) a (f h))"
  shows "core_inv (upd_handle a f s)"
proof -
  have "kh (hmem (upd_handle a f s)) b = kh (hmem s) b" for b
    using f by (cases "hmem s a") (auto simp: kh_def)
  then have "ht_inv (hmem (upd_handle a f s)) (tbl s)"
    using ht_inv_cong core_invD(1) [OF inv] by blast
  moreover have "charge_at (hmem (upd_handle a f s)) b = charge_at (hmem s) b" for b
    using f by (auto simp: charge_at_def split: option.split)
  then have "charges (hmem (upd_handle a f s)) (lru s) = charges (hmem s) (lru s)"
    by (intro charges_cong)
  ultimately show ?thesis
    using inv f by (auto simp: core_inv_def split: if_splits)
qed

lemma core_inv_restrict:
  assumes inv: "core_inv s" and "set (lru s) \<inter> set xs = {}"
  shows "core_inv (fold Free xs s)"
proof -
  have *: "hmem (fold Free xs s) a = hmem s a" if "a \<in> set (lru s)" for a
    using that assms(2) by (auto simp: fold_Free restrict_map_def)
  have "ht_inv (hmem (fold Free xs s)) (tbl s)"
    using core_invD(1,4) [OF inv] * by (subst ht_inv_cong [where hp = "hmem s"]) (auto simp: kh_def)
  moreover have "charges (hmem (fold Free xs s)) (lru s) = charges (hmem s) (lru s)"
    using * by (intro charges_cong) (simp add: charge_at_def)
  ultimately show ?thesis
    using inv * by (auto simp: core_inv_def fold_Free restrict_map_def split: if_splits)
qed

subsection \<open>Eviction\<close>

lemma unreferenced_in_table:
  assumes "core_inv s" "a \<in> set (lru s)" "hmem s a = Some h" "\<not> HasRefs h"
  shows "LRUHandleTable_FindPointer (hmem s) (tbl s) (key_data h) (hash h) = Some a"
    and "a \<in> entries (tbl s)"
proof -
  show e: "a \<in> entries (tbl s)"
    using core_invD(6) [OF assms(1-3)] assms(4) by (auto simp: handle_ok_def)
  then show "LRUHandleTable_FindPointer (hmem s) (tbl s) (key_data h) (hash h) = Some a"
    using assms(3) by (simp add: FindPointer_Some_iff [OF core_invD(1) [OF assms(1)]] kh_def)
qed

lemma evict_one_ok:
  assumes inv: "core_inv s" and a: "a \<in> set (lru s)" "hmem s a = Some h" "\<not> HasRefs h"
  shows "core_inv (evict_one a h s)"
    and "lru (evict_one a h s) = remove1 a (lru s)"
    and "entries (tbl (evict_one a h s)) = entries (tbl s) - {a}"
    and "usage s = usage (evict_one a h s) + CalcTotalCharge h"
    and "hmem (evict_one a h s) = hmem s" "capacity (evict_one a h s) = capacity s"
    and "brk (evict_one a h s) = brk s" "ht_elems (tbl (evict_one a h s)) = ht_elems (tbl s)"
proof -
  obtain t where t: "LRUHandleTable_Remove (hmem s) (tbl s) (key_data h) (hash h) = (Some a, t)"
    "ht_inv (hmem s) t" "entries t = entries (tbl s) - {a}" "ht_elems t = ht_elems (tbl s)"
    using LRUHandleTable_Remove_Some [OF core_invD(1) [OF inv] unreferenced_in_table(1) [OF assms]]
    by auto
  have eq: "evict_one a h s = s\<lparr>tbl := t, lru := remove1 a (lru s), usage := usage s - CalcTotalCharge h\<rparr>"
    by (simp add: evict_one_def t(1) LRU_Remove_def Let_def)
  have us: "usage s = CalcTotalCharge h + charges (hmem s) (remove1 a (lru s))"
    using core_invD(5) [OF inv] charges_remove1 [OF a(1), of "hmem s"] a(2)
    by (simp add: charge_at_def)
  show "core_inv (evict_one a h s)"
    using inv t(2,3) us core_invD(2) [OF inv]
    by (auto simp: core_inv_def eq handle_ok_def)
  show "usage s = usage (evict_one a h s) + CalcTotalCharge h"
    using us by (simp add: eq)
  show "lru (evict_one a h s) = remove1 a (lru s)"
    "entries (tbl (evict_one a h s)) = entries (tbl s) - {a}"
    "hmem (evict_one a h s) = hmem s" "capacity (evict_one a h s) = capacity s"
    "brk (evict_one a h s) = brk s" "ht_elems (tbl (evict_one a h s)) = ht_elems (tbl s)"
    using t by (simp_all add: eq)
qed


text \<open>
  What a run of the eviction loop over a part \<open>hs\<close> of the list does: it unlinks a prefix of the
  unreferenced handles of \<open>hs\<close>, no more than needed and, unless it has unlinked all of them,
  until the new charge fits.
\<close>

definition evicted :: "nat \<Rightarrow> addr list \<Rightarrow> 'v shard \<Rightarrow> 'v shard \<Rightarrow> addr list \<Rightarrow> bool" where
  "evicted c hs s s' deleted \<longleftrightarrow>
     core_inv s' \<and> hmem s' = hmem s \<and> capacity s' = capacity s \<and> brk s' = brk s \<and>
     ht_elems (tbl s') = ht_elems (tbl s) \<and>
     lru s' = filter (\<lambda>a. a \<notin> set deleted) (lru s) \<and>
     entries (tbl s') = entries (tbl s) - set deleted \<and>
     usage s = usage s' + charges (hmem s) deleted \<and>
     (\<exists>rest. filter (\<lambda>a. \<not> pinned s a) hs = deleted @ rest \<and>
        (rest \<noteq> [] \<longrightarrow> usage s' + c \<le> capacity s)) \<and>
     (deleted \<noteq> [] \<longrightarrow> usage s' + charge_at (hmem s) (last deleted) + c > capacity s)"

lemma pinned_iff: "hmem s a = Some h \<Longrightarrow> pinned s a \<longleftrightarrow> HasRefs h"
  by (simp add: pinned_def)

lemma pinned_cong: "hmem s' a = hmem s a \<Longrightarrow> pinned s' a = pinned s a"
  by (simp add: pinned_def)

lemma evict_loop_ok:
  assumes "core_inv s" "distinct hs" "set hs \<subseteq> set (lru s)" "evict_loop c hs s = (s', deleted)"
  shows "evicted c hs s s' deleted"
  using assms
proof (induction c hs s arbitrary: s' deleted rule: evict_loop.induct)
  case (1 c s)
  then show ?case by (simp add: evicted_def)
next
  case (2 c a hs s)
  obtain h where h: "hmem s a = Some h"
    using "2.prems" core_invD(3) by fastforce
  consider "usage s + c \<le> capacity s" | "usage s + c > capacity s" "HasRefs h"
    | "usage s + c > capacity s" "\<not> HasRefs h" by linarith
  then show ?case
  proof cases
    case 1
    then show ?thesis using "2.prems" by (auto simp: evicted_def)
  next
    case 2
    then have "evicted c hs s s' deleted"
      using "2.prems" h by (intro "2.IH"(3)) auto
    then show ?thesis
      using 2 h by (simp add: evicted_def pinned_iff)
  next
    case 3
    let ?s = "evict_one a h s"
    have a: "a \<in> set (lru s)" using "2.prems" by simp
    note one = evict_one_ok [OF "2.prems"(1) a h 3(2)]
    obtain del where del: "evict_loop c hs ?s = (s', del)" "deleted = a # del"
      using "2.prems"(4) 3 h by (auto simp: Let_def split: prod.splits)
    have sub: "set hs \<subseteq> set (lru ?s)"
      using "2.prems"(2,3) core_invD(2) [OF "2.prems"(1)] one(2) by auto
    have ih: "evicted c hs ?s s' del"
      by (rule "2.IH"(2) [OF 3(1) h 3(2) one(1) _ sub del(1)]) (use "2.prems" in simp)
    have "remove1 a (lru s) = filter (\<lambda>x. a \<noteq> x) (lru s)"
      using core_invD(2) [OF "2.prems"(1)]
      by (simp add: distinct_remove1_removeAll removeAll_filter_not_eq)
    then have lru': "filter (\<lambda>x. x \<notin> set del) (remove1 a (lru s)) =
        filter (\<lambda>x. x \<notin> set deleted) (lru s)"
      unfolding del(2) by (auto intro!: filter_cong)
    have ch: "charge_at (hmem s) a = CalcTotalCharge h"
      using h by (simp add: charge_at_def)
    have pin: "pinned ?s = pinned s" "\<not> pinned s a"
      using one(5) h 3(2) by (auto simp: pinned_def fun_eq_iff)
    obtain rest where rest: "filter (\<lambda>x. \<not> pinned ?s x) hs = del @ rest"
      "rest \<noteq> [] \<longrightarrow> usage s' + c \<le> capacity ?s"
      using ih unfolding evicted_def by blast
    have "filter (\<lambda>x. \<not> pinned s x) (a # hs) = deleted @ rest"
      using rest(1) pin del(2) by simp
    moreover have "usage s' + charge_at (hmem s) (last deleted) + c > capacity s"
      using ih one(4,5,6) ch 3(1) del(2) by (cases "del = []") (simp_all add: evicted_def)
    moreover have "core_inv s'" "hmem s' = hmem s" "capacity s' = capacity s" "brk s' = brk s"
      "ht_elems (tbl s') = ht_elems (tbl s)" "entries (tbl s') = entries (tbl s) - set deleted"
      "usage s = usage s' + charges (hmem s) deleted"
      using ih one ch del(2) by (auto simp: evicted_def)
    moreover have "lru s' = filter (\<lambda>x. x \<notin> set deleted) (lru s)"
      using ih lru' one(2) by (simp add: evicted_def)
    ultimately show ?thesis
      using rest(2) one(6) unfolding evicted_def by auto
  qed
qed

lemma EvictFromLRU_ok:
  assumes "core_inv s" "EvictFromLRU c s = (s', deleted)"
  shows "evicted c (lru s) s s' deleted"
  using assms core_invD(2) [OF assms(1)] unfolding EvictFromLRU_def by (intro evict_loop_ok) auto


subsection \<open>Insertion\<close>

definition new_handle :: "bytes \<Rightarrow> u32 \<Rightarrow> 'v \<Rightarrow> nat \<Rightarrow> 'v handle" where
  "new_handle key hs v c =
     \<lparr>hvalue = v, key_data = key, charge = c, inCache = 0, hash = hs, refs = 0\<rparr>"

definition entry_charge :: "bytes \<Rightarrow> nat \<Rightarrow> nat" where
  "entry_charge key c = c + sizeof_LRUHandle - 1 + length key"

lemma CalcTotalCharge_new: "CalcTotalCharge (new_handle key hs v c) = entry_charge key c"
  by (simp add: CalcTotalCharge_def new_handle_def entry_charge_def)

text \<open>The state after the evictions of an insertion, with the new handle allocated but not linked.\<close>

definition make_room :: "bytes \<Rightarrow> u32 \<Rightarrow> 'v \<Rightarrow> nat \<Rightarrow> 'v shard \<Rightarrow> 'v shard \<times> addr list" where
  "make_room key hs v c s =
     (let s1 = s\<lparr>hmem := (hmem s)(brk s \<mapsto> new_handle key hs v c), brk := brk s + 1\<rparr>
      in if usage s + entry_charge key c > capacity s then EvictFromLRU (entry_charge key c) s1
         else (s1, []))"

definition victims :: "nat \<Rightarrow> 'v shard \<Rightarrow> addr list \<Rightarrow> nat \<Rightarrow> bool" where
  "victims tot s deleted usage' \<longleftrightarrow>
     usage s = usage' + charges (hmem s) deleted \<and>
     (usage s + tot \<le> capacity s \<longrightarrow> deleted = []) \<and>
     (\<exists>rest. filter (\<lambda>a. \<not> pinned s a) (lru s) = deleted @ rest \<and>
        (rest \<noteq> [] \<longrightarrow> usage' + tot \<le> capacity s)) \<and>
     (deleted \<noteq> [] \<longrightarrow> usage' + charge_at (hmem s) (last deleted) + tot > capacity s)"

lemma brk_fresh:
  assumes "shard_inv s"
  shows "hmem s (brk s) = None" "brk s \<notin> set (lru s)" "brk s \<notin> entries (tbl s)"
proof -
  show n: "hmem s (brk s) = None"
    using core_invD(7) [OF shard_invD(1) [OF assms]] by (metis nat_less_le not_Some_eq)
  then show l: "brk s \<notin> set (lru s)"
    using shard_invD(2) [OF assms] by auto
  then show "brk s \<notin> entries (tbl s)"
    using core_invD(4) [OF shard_invD(1) [OF assms]] by auto
qed

lemma core_inv_alloc:
  assumes "shard_inv s"
  shows "core_inv (s\<lparr>hmem := (hmem s)(brk s \<mapsto> he), brk := brk s + 1\<rparr>)"
proof -
  note inv = shard_invD(1) [OF assms] and fresh = brk_fresh [OF assms]
  have "ht_inv ((hmem s)(brk s \<mapsto> he)) (tbl s)"
    using core_invD(1) [OF inv] fresh
    by (subst ht_inv_cong [where hp = "hmem s"]) (auto simp: kh_def)
  moreover have "charges ((hmem s)(brk s \<mapsto> he)) (lru s) = charges (hmem s) (lru s)"
    using fresh by (intro charges_cong) (auto simp: charge_at_def)
  ultimately show ?thesis
    using inv fresh by (auto simp: core_inv_def less_Suc_eq)
qed

lemma filter_lru_pinned:
  assumes "\<And>a. a \<in> set xs \<Longrightarrow> hmem s' a = hmem s a"
  shows "filter (\<lambda>a. \<not> pinned s' a) xs = filter (\<lambda>a. \<not> pinned s a) xs"
  using assms by (intro filter_cong) (auto simp: pinned_def)

lemma make_room_ok:
  assumes inv: "shard_inv s" and mr: "make_room key hs v c s = (s2, del)"
  shows "core_inv s2" "hmem s2 = (hmem s)(brk s \<mapsto> new_handle key hs v c)"
    "capacity s2 = capacity s" "brk s2 = brk s + 1" "ht_elems (tbl s2) = ht_elems (tbl s)"
    "lru s2 = filter (\<lambda>a. a \<notin> set del) (lru s)" "entries (tbl s2) = entries (tbl s) - set del"
    "victims (entry_charge key c) s del (usage s2)"
proof -
  let ?s1 = "s\<lparr>hmem := (hmem s)(brk s \<mapsto> new_handle key hs v c), brk := brk s + 1\<rparr>"
  note fresh = brk_fresh [OF inv] and alloc = core_inv_alloc [OF inv, of "new_handle key hs v c"]
  have pin: "filter (\<lambda>a. \<not> pinned ?s1 a) (lru s) = filter (\<lambda>a. \<not> pinned s a) (lru s)"
    using fresh by (intro filter_lru_pinned) auto
  have "core_inv s2 \<and> hmem s2 = (hmem s)(brk s \<mapsto> new_handle key hs v c) \<and>
    capacity s2 = capacity s \<and> brk s2 = brk s + 1 \<and> ht_elems (tbl s2) = ht_elems (tbl s) \<and>
    lru s2 = filter (\<lambda>a. a \<notin> set del) (lru s) \<and> entries (tbl s2) = entries (tbl s) - set del \<and>
    victims (entry_charge key c) s del (usage s2)"
  proof (cases "usage s + entry_charge key c > capacity s")
    case True
    then have ev: "evicted (entry_charge key c) (lru ?s1) ?s1 s2 del"
      using mr by (intro EvictFromLRU_ok [OF alloc]) (simp add: make_room_def Let_def)
    obtain rest where rest: "filter (\<lambda>a. \<not> pinned s a) (lru s) = del @ rest"
      "rest \<noteq> [] \<longrightarrow> usage s2 + entry_charge key c \<le> capacity s"
      using ev pin unfolding evicted_def by auto
    have "set del \<subseteq> set (filter (\<lambda>a. \<not> pinned s a) (lru s))"
      unfolding rest(1) by auto
    then have "set del \<subseteq> set (lru s)" by auto
    then have old: "hmem ?s1 a = hmem s a" if "a \<in> set del" for a
      using that fresh by auto
    then have ch: "charges (hmem ?s1) del = charges (hmem s) del"
      "del \<noteq> [] \<Longrightarrow> charge_at (hmem ?s1) (last del) = charge_at (hmem s) (last del)"
      by (auto intro!: charges_cong simp: charge_at_def simp del: fun_upd_apply)
    then have "victims (entry_charge key c) s del (usage s2)"
      using ev rest True unfolding victims_def evicted_def by auto
    then show ?thesis
      using ev by (simp add: evicted_def)
  next
    case False
    then have "s2 = ?s1" "del = []"
      using mr by (simp_all add: make_room_def Let_def)
    then show ?thesis
      using alloc False by (simp add: victims_def)
  qed
  then show "core_inv s2" "hmem s2 = (hmem s)(brk s \<mapsto> new_handle key hs v c)"
    "capacity s2 = capacity s" "brk s2 = brk s + 1" "ht_elems (tbl s2) = ht_elems (tbl s)"
    "lru s2 = filter (\<lambda>a. a \<notin> set del) (lru s)" "entries (tbl s2) = entries (tbl s) - set del"
    "victims (entry_charge key c) s del (usage s2)"
    by auto
qed

text \<open>
  The rest of an insertion, once there is room: the new handle \<open>h\<close> is entered in the table, or dropped when
  the key is there already, and the evicted handles are freed.
\<close>

definition link_entry :: "bytes \<Rightarrow> u32 \<Rightarrow> 'v \<Rightarrow> nat \<Rightarrow> addr \<Rightarrow> 'v shard \<Rightarrow> addr list \<Rightarrow> (addr \<times> 'v shard) option" where
  "link_entry key hs v c h s2 del =
     (case LRUHandleTable_Insert (hmem s2) (tbl s2) h (new_handle key hs v c) of
        None \<Rightarrow> None
      | Some (old_h, t) \<Rightarrow>
          if old_h \<noteq> h then
            Some (old_h, fold Free (del @ [h]) (upd_handle old_h Ref (s2\<lparr>tbl := t\<rparr>)))
          else
            let s4 = upd_handle h Ref (LRU_Insert h (s2\<lparr>tbl := t\<rparr>))
            in Some (h, fold Free del (s4\<lparr>usage := usage s4 + entry_charge key c\<rparr>)))"

lemma Insert_make_room:
  "LRUCacheShard_Insert key hs v c s =
     (let (s2, del) = make_room key hs v c s in link_entry key hs v c (brk s) s2 del)"
  unfolding LRUCacheShard_Insert_def make_room_def link_entry_def Let_def new_handle_def [symmetric]
    CalcTotalCharge_new by simp

text \<open>What an eviction strategy has to leave: the unreferenced handles \<open>del\<close> are unlinked.\<close>

definition made_room :: "bytes \<Rightarrow> u32 \<Rightarrow> 'v \<Rightarrow> nat \<Rightarrow> 'v shard \<Rightarrow> 'v shard \<Rightarrow> addr list \<Rightarrow> bool" where
  "made_room key hs v c s s2 del \<longleftrightarrow>
     core_inv s2 \<and> hmem s2 = (hmem s)(brk s \<mapsto> new_handle key hs v c) \<and> capacity s2 = capacity s \<and>
     brk s2 = brk s + 1 \<and> ht_elems (tbl s2) = ht_elems (tbl s) \<and>
     lru s2 = filter (\<lambda>a. a \<notin> set del) (lru s) \<and> entries (tbl s2) = entries (tbl s) - set del \<and>
     (\<forall>d \<in> set del. d \<in> set (lru s) \<and> \<not> pinned s d)"

lemma made_roomD:
  assumes "made_room key hs v c s s2 del"
  shows "core_inv s2" "hmem s2 = (hmem s)(brk s \<mapsto> new_handle key hs v c)"
    "capacity s2 = capacity s" "brk s2 = brk s + 1" "ht_elems (tbl s2) = ht_elems (tbl s)"
    "lru s2 = filter (\<lambda>a. a \<notin> set del) (lru s)" "entries (tbl s2) = entries (tbl s) - set del"
    "\<And>d. d \<in> set del \<Longrightarrow> d \<in> set (lru s)" "\<And>d. d \<in> set del \<Longrightarrow> \<not> pinned s d"
  using assms by (auto simp: made_room_def)

lemma victims_sub:
  "victims tot s del u \<Longrightarrow> d \<in> set del \<Longrightarrow> d \<in> set (lru s) \<and> \<not> pinned s d"
  unfolding victims_def by (metis (mono_tags, lifting) Un_iff mem_Collect_eq set_append set_filter)

lemma make_room_made:
  "shard_inv s \<Longrightarrow> make_room key hs v c s = (s2, del) \<Longrightarrow> made_room key hs v c s s2 del"
  using make_room_ok [of s key hs v c s2 del] victims_sub [of "entry_charge key c" s del "usage s2"]
  by (simp add: made_room_def)

text \<open>
  The effect of \<open>Insert\<close>. If the key has survived the evictions the existing handle is
  returned with one more reference and the new value is dropped; otherwise the new handle
  becomes the most recently used one.
\<close>

definition linked_new :: "bytes \<Rightarrow> u32 \<Rightarrow> 'v \<Rightarrow> nat \<Rightarrow> addr list \<Rightarrow> nat \<Rightarrow> 'v shard \<Rightarrow> 'v shard \<Rightarrow> bool" where
  "linked_new key hs v c del u s s' \<longleftrightarrow>
     (\<forall>b \<in> entries (tbl s) - set del. kh (hmem s) b \<noteq> Some (key, hs)) \<and>
     lru s' = filter (\<lambda>b. b \<notin> set del) (lru s) @ [brk s] \<and>
     entries (tbl s') = insert (brk s) (entries (tbl s) - set del) \<and>
     usage s' = u + entry_charge key c \<and> brk s' = brk s + 1 \<and>
     hmem s' = (hmem s |` (- set del))(brk s \<mapsto> Ref (new_handle key hs v c)) \<and>
     ht_elems (tbl s') = ht_elems (tbl s) + 1"

definition found_old :: "bytes \<Rightarrow> u32 \<Rightarrow> addr list \<Rightarrow> nat \<Rightarrow> 'v shard \<Rightarrow> addr \<Rightarrow> 'v shard \<Rightarrow> bool" where
  "found_old key hs del u s a s' \<longleftrightarrow>
     a \<in> entries (tbl s) - set del \<and> kh (hmem s) a = Some (key, hs) \<and>
     lru s' = filter (\<lambda>b. b \<notin> set del) (lru s) \<and>
     entries (tbl s') = entries (tbl s) - set del \<and>
     usage s' = u \<and> brk s' = brk s + 1 \<and>
     hmem s' = (hmem s |` (- set del))(a := map_option Ref (hmem s a)) \<and>
     ht_elems (tbl s') = ht_elems (tbl s)"

lemma handle_ok_Ref: "a \<in> E \<Longrightarrow> handle_ok E a h \<Longrightarrow> handle_ok E a (Ref h)"
  by (simp add: handle_ok_def)

lemma dom_after_free:
  "shard_inv s \<Longrightarrow> dom (hmem s |` (- set del)) = set (filter (\<lambda>b. b \<notin> set del) (lru s))"
  by (auto simp: shard_inv_def)

lemma Insert_old_ok:
  assumes inv: "shard_inv s" and mr: "made_room key hs v c s s2 del"
    and old: "LRUHandleTable_FindPointer (hmem s2) (tbl s2) key hs = Some a"
  shows "\<exists>s'. link_entry key hs v c (brk s) s2 del = Some (a, s') \<and> shard_inv s' \<and>
    capacity s' = capacity s \<and> found_old key hs del (usage s2) s a s'"
proof -
  note mk = made_roomD [OF mr] and fresh = brk_fresh [OF inv]
  let ?s3 = "upd_handle a Ref s2"
  let ?s' = "fold Free (del @ [brk s]) ?s3"
  have a: "a \<in> entries (tbl s2)" "kh (hmem s2) a = Some (key, hs)"
    using old FindPointer_Some_iff [OF core_invD(1) [OF mk(1)]] by auto
  then have ane: "a \<in> entries (tbl s) - set del" "a \<noteq> brk s" "a \<in> set (lru s2)"
    using mk(7) fresh core_invD(4) [OF mk(1)] by auto
  have ins: "link_entry key hs v c (brk s) s2 del = Some (a, ?s')"
    using old ane by (simp add: link_entry_def new_handle_def LRUHandleTable_Insert_old)
  have core3: "core_inv ?s3"
    using mk(1) a ane core_invD(6) [OF mk(1)] by (intro core_inv_upd_handle) (auto intro: handle_ok_Ref)
  have dis: "set (lru ?s3) \<inter> set (del @ [brk s]) = {}"
    using mk(6) fresh by auto
  have hm: "hmem ?s' = (hmem s |` (- set del))(a := map_option Ref (hmem s a))"
    using ane fresh mk(2) by (auto simp: fold_Free restrict_map_def fun_eq_iff)
  obtain h where "hmem s a = Some h"
    using a(2) ane(2) mk(2) by (auto simp: kh_def)
  then have "dom (hmem ?s') = set (lru ?s')"
    unfolding hm using shard_invD(2) [OF inv] ane mk(6) by (auto simp: fold_Free)
  then have "shard_inv ?s'"
    using core_inv_restrict [OF core3 dis] by (simp add: shard_inv_def)
  moreover have "found_old key hs del (usage s2) s a ?s'"
    using ane a mk fresh hm by (auto simp: found_old_def fold_Free kh_def)
  ultimately show ?thesis
    using ins mk(3) by (auto simp: fold_Free)
qed

lemma Insert_new_ok:
  assumes inv: "shard_inv s" and few: "room s" and mr: "made_room key hs v c s s2 del"
    and none: "LRUHandleTable_FindPointer (hmem s2) (tbl s2) key hs = None"
  shows "\<exists>s'. link_entry key hs v c (brk s) s2 del = Some (brk s, s') \<and> shard_inv s' \<and>
    capacity s' = capacity s \<and> linked_new key hs v c del (usage s2) s s'"
proof -
  note mk = made_roomD [OF mr] and fresh = brk_fresh [OF inv]
  let ?h = "brk s" and ?he = "new_handle key hs v c"
  have h2: "hmem s2 ?h = Some ?he" "?h \<notin> entries (tbl s2)" "?h \<notin> set (lru s2)"
    using mk fresh by auto
  obtain t where t: "LRUHandleTable_Insert (hmem s2) (tbl s2) ?h ?he = Some (?h, t)"
    "ht_inv (hmem s2) t" "entries t = insert ?h (entries (tbl s2))" "ht_elems t = ht_elems (tbl s2) + 1"
    using LRUHandleTable_Insert_new [OF core_invD(1) [OF mk(1)] h2(1,2)] none few mk(5)
    by (auto simp: room_def new_handle_def)
  let ?s3 = "LRU_Insert ?h (s2\<lparr>tbl := t, usage := usage s2 + entry_charge key c\<rparr>)"
  let ?s4 = "upd_handle ?h Ref ?s3"
  let ?s' = "fold Free del ?s4"
  have ins: "link_entry key hs v c (brk s) s2 del = Some (?h, ?s')"
  proof -
    have eq: "(upd_handle ?h Ref (LRU_Insert ?h (s2\<lparr>tbl := t\<rparr>)))\<lparr>usage := usage s2 + entry_charge key c\<rparr> = ?s4"
      by (rule shard.equality) simp_all
    show ?thesis
      using t(1) by (simp add: link_entry_def Let_def eq)
  qed
  have ok: "handle_ok (entries t) ?h ?he"
    using t(3) by (simp add: handle_ok_def InCache_def new_handle_def)
  have "core_inv ?s3"
    using mk(1) h2 t ok unfolding core_inv_def
    by (auto simp: handle_ok_def charge_at_def CalcTotalCharge_new)
  then have core4: "core_inv ?s4"
    using h2 t(3) ok by (intro core_inv_upd_handle) (auto intro: handle_ok_Ref)
  have hdel: "?h \<notin> set del"
    using mk(8) fresh(2) by blast
  have dis: "set (lru ?s4) \<inter> set del = {}"
    using mk(6) hdel by auto
  have hm: "hmem ?s' = (hmem s |` (- set del))(?h \<mapsto> Ref ?he)"
    using hdel fresh mk(2) by (auto simp: fold_Free restrict_map_def fun_eq_iff)
  have "dom (hmem ?s') = set (lru ?s')"
    unfolding hm using dom_after_free [OF inv, of del] mk(6) by (simp add: fold_Free)
  then have "shard_inv ?s'"
    using core_inv_restrict [OF core4 dis] by (simp add: shard_inv_def)
  moreover have "linked_new key hs v c del (usage s2) s ?s'"
  proof -
    have "\<forall>b \<in> entries (tbl s2). kh (hmem s2) b \<noteq> Some (key, hs)"
      using none by (simp add: FindPointer_None_iff [OF core_invD(1) [OF mk(1)]])
    moreover have "kh (hmem s2) b = kh (hmem s) b" if "b \<in> entries (tbl s)" for b
      using that mk(2) fresh(3) by (auto simp: kh_def)
    ultimately have "\<forall>b \<in> entries (tbl s) - set del. kh (hmem s) b \<noteq> Some (key, hs)"
      using mk(7) by auto
    then show ?thesis
      unfolding linked_new_def hm using mk t by (simp add: fold_Free)
  qed
  ultimately show ?thesis
    using ins mk(3) by (auto simp: fold_Free)
qed


definition linked :: "bytes \<Rightarrow> u32 \<Rightarrow> 'v \<Rightarrow> nat \<Rightarrow> addr list \<Rightarrow> nat \<Rightarrow> 'v shard \<Rightarrow> addr \<Rightarrow> 'v shard \<Rightarrow> bool" where
  "linked key hs v c del u s a s' \<longleftrightarrow>
     shard_inv s' \<and> capacity s' = capacity s \<and> (\<forall>d \<in> set del. d \<in> set (lru s) \<and> \<not> pinned s d) \<and>
     (a = brk s \<and> linked_new key hs v c del u s s' \<or> found_old key hs del u s a s')"

lemma link_entry_ok:
  assumes inv: "shard_inv s" "room s" and mr: "made_room key hs v c s s2 del"
  shows "\<exists>a s'. link_entry key hs v c (brk s) s2 del = Some (a, s') \<and> linked key hs v c del (usage s2) s a s'"
proof (cases "LRUHandleTable_FindPointer (hmem s2) (tbl s2) key hs")
  case None
  then show ?thesis
    using Insert_new_ok [OF inv mr] made_roomD(8,9) [OF mr] unfolding linked_def by blast
next
  case (Some a)
  then show ?thesis
    using Insert_old_ok [OF inv(1) mr] made_roomD(8,9) [OF mr] unfolding linked_def by blast
qed

definition inserted :: "bytes \<Rightarrow> u32 \<Rightarrow> 'v \<Rightarrow> nat \<Rightarrow> 'v shard \<Rightarrow> addr \<Rightarrow> 'v shard \<Rightarrow> bool" where
  "inserted key hs v c s a s' \<longleftrightarrow>
     (\<exists>del u. victims (entry_charge key c) s del u \<and> linked key hs v c del u s a s')"

theorem LRUCacheShard_Insert_ok:
  assumes "shard_inv s" "room s"
  shows "\<exists>a s'. LRUCacheShard_Insert key hs v c s = Some (a, s') \<and> inserted key hs v c s a s'"
proof -
  obtain s2 del where mr: "make_room key hs v c s = (s2, del)" by fastforce
  note vic = make_room_ok(8) [OF assms(1) mr]
  show ?thesis
    using link_entry_ok [OF assms make_room_made [OF assms(1) mr]] mr vic
    unfolding inserted_def Insert_make_room by auto
qed

lemma LRUCacheShard_Insert_inserted:
  "\<lbrakk>shard_inv s; room s; LRUCacheShard_Insert key hs v c s = Some (a, s')\<rbrakk> \<Longrightarrow> inserted key hs v c s a s'"
  using LRUCacheShard_Insert_ok [of s key hs v c] by auto

subsection \<open>What a client sees\<close>

definition value_at :: "'v shard \<Rightarrow> addr \<Rightarrow> 'v option" where
  "value_at s a = map_option hvalue (hmem s a)"

definition refs_at :: "'v shard \<Rightarrow> addr \<Rightarrow> u32 option" where
  "refs_at s a = map_option refs (hmem s a)"

definition view :: "('v, 'm) heap \<Rightarrow> addr \<Rightarrow> (bytes \<times> u32 \<times> 'v) option" where
  "view hp a = map_option (\<lambda>h. (key_data h, hash h, hvalue h)) (hp a)"

lemma view_Ref [simp]: "map_option (\<lambda>h. (key_data h, hash h, hvalue h)) (map_option Ref x) =
    map_option (\<lambda>h. (key_data h, hash h, hvalue h)) x"
  by (cases x) simp_all

lemma contents_view_iff:
  assumes "core_inv s"
  shows "contents s k h = Some w \<longleftrightarrow> (\<exists>a \<in> entries (tbl s). view (hmem s) a = Some (k, h, w))"
  unfolding contents_Some_iff [OF assms] by (auto simp: view_def)

lemma contents_sub:
  assumes "core_inv s" "core_inv s'"
    and "\<And>b. b \<in> entries (tbl s') \<Longrightarrow> view (hmem s') b = Some (k, h, w) \<Longrightarrow>
      b \<in> entries (tbl s) \<and> view (hmem s) b = Some (k, h, w)"
  shows "contents s' k h = Some w \<Longrightarrow> contents s k h = Some w"
  unfolding contents_view_iff [OF assms(1)] contents_view_iff [OF assms(2)] using assms(3) by blast

lemma contents_eq:
  assumes "core_inv s" "core_inv s'"
    and "\<And>b w. view (hmem s') b = Some (k, h, w) \<and> b \<in> entries (tbl s') \<longleftrightarrow>
      view (hmem s) b = Some (k, h, w) \<and> b \<in> entries (tbl s)"
  shows "contents s' k h = contents s k h"
proof -
  have "contents s' k h = Some w \<longleftrightarrow> contents s k h = Some w" for w
    unfolding contents_view_iff [OF assms(1)] contents_view_iff [OF assms(2)] using assms(3) by blast
  then show ?thesis by (metis not_Some_eq)
qed

lemma contents_found_old:
  assumes inv: "shard_inv s" "shard_inv s'" and f: "found_old key hs del u s a s'"
  shows "contents s' key hs = contents s key hs" "value_at s' a = contents s' key hs"
    "contents s' key hs \<noteq> None"
    "\<And>k h w. contents s' k h = Some w \<Longrightarrow> contents s k h = Some w"
    "\<And>k h. del = [] \<Longrightarrow> contents s' k h = contents s k h"
proof -
  note core = shard_invD(1) [OF inv(1)] shard_invD(1) [OF inv(2)]
  have E: "entries (tbl s') = entries (tbl s) - set del"
    using f by (simp add: found_old_def)
  have V: "view (hmem s') b = view (hmem s) b" if "b \<notin> set del" for b
    using f that by (auto simp: found_old_def view_def)
  obtain h where h: "hmem s a = Some h" "key_data h = key" "hash h = hs" "a \<in> entries (tbl s) - set del"
    using f by (auto simp: found_old_def kh_def)
  have a: "view (hmem s) a = Some (key, hs, hvalue h)"
    using h by (simp add: view_def)
  have "contents s key hs = Some (hvalue h)" "contents s' key hs = Some (hvalue h)"
    unfolding contents_view_iff [OF core(1)] contents_view_iff [OF core(2)] using a h V E by auto
  moreover have "value_at s' a = Some (hvalue h)"
    using V [of a] h by (auto simp: view_def value_at_def)
  ultimately show "contents s' key hs = contents s key hs" "value_at s' a = contents s' key hs"
    "contents s' key hs \<noteq> None"
    by simp_all
  show "contents s' k h = Some w \<Longrightarrow> contents s k h = Some w" for k h w
    using E V by (intro contents_sub [OF core]) auto
  show "contents s' k h = contents s k h" if "del = []" for k h
    using E V that by (intro contents_eq [OF core]) auto
qed

lemma contents_linked_new:
  assumes inv: "shard_inv s" "shard_inv s'" and f: "linked_new key hs v c del u s s'"
  shows "contents s' key hs = Some v" "value_at s' (brk s) = Some v"
    "\<And>k h w. (k, h) \<noteq> (key, hs) \<Longrightarrow> contents s' k h = Some w \<Longrightarrow> contents s k h = Some w"
    "del = [] \<Longrightarrow> contents s key hs = None"
    "\<And>k h. del = [] \<Longrightarrow> (k, h) \<noteq> (key, hs) \<Longrightarrow> contents s' k h = contents s k h"
proof -
  note core = shard_invD(1) [OF inv(1)] shard_invD(1) [OF inv(2)] and fresh = brk_fresh [OF inv(1)]
  have E: "entries (tbl s') = insert (brk s) (entries (tbl s) - set del)"
    using f by (simp add: linked_new_def)
  have V: "view (hmem s') b = view (hmem s) b" if "b \<notin> set del" "b \<noteq> brk s" for b
    using f that by (auto simp: linked_new_def view_def)
  have N: "view (hmem s') (brk s) = Some (key, hs, v)"
    using f by (simp add: linked_new_def view_def new_handle_def)
  show "contents s' key hs = Some v"
    unfolding contents_view_iff [OF core(2)] using E N by auto
  show "value_at s' (brk s) = Some v"
    using N by (auto simp: view_def value_at_def)
  show "(k, h) \<noteq> (key, hs) \<Longrightarrow> contents s' k h = Some w \<Longrightarrow> contents s k h = Some w" for k h w
    by (rule contents_sub [OF core]) (use E V N in \<open>fastforce\<close>)+
  show "contents s key hs = None" if "del = []"
  proof -
    have "\<forall>b \<in> entries (tbl s). kh (hmem s) b \<noteq> Some (key, hs)"
      using f that by (simp add: linked_new_def)
    then have "LRUHandleTable_FindPointer (hmem s) (tbl s) key hs = None"
      by (simp add: FindPointer_None_iff [OF core_invD(1) [OF core(1)]])
    then show ?thesis by (simp add: contents_def)
  qed
  show "contents s' k h = contents s k h" if "del = []" "(k, h) \<noteq> (key, hs)" for k h
  proof (rule contents_eq [OF core])
    fix b w
    show "view (hmem s') b = Some (k, h, w) \<and> b \<in> entries (tbl s') \<longleftrightarrow>
        view (hmem s) b = Some (k, h, w) \<and> b \<in> entries (tbl s)"
      using that E V [of b] N fresh(3) by (cases "b = brk s") auto
  qed
qed


subsection \<open>Lookup, release, erase\<close>

lemma mset_charges: "mset xs = mset ys \<Longrightarrow> charges hp xs = charges hp ys"
  unfolding charges_def by (metis mset_map sum_mset_sum_list)

text \<open>Reordering the list of a shard does not matter for the invariant.\<close>

lemma shard_inv_reorder:
  assumes "shard_inv s" "mset xs = mset (lru s)"
  shows "shard_inv (s\<lparr>lru := xs\<rparr>)"
proof -
  have "set xs = set (lru s)" "distinct xs = distinct (lru s)"
    using assms(2) by (metis mset_eq_setD) (rule mset_eq_imp_distinct_iff [OF assms(2)])
  then show ?thesis
    using assms(1) mset_charges [OF assms(2), of "hmem s"]
    by (simp add: shard_inv_def core_inv_def)
qed

lemma shard_inv_upd_handle:
  assumes inv: "shard_inv s"
    and f: "\<And>h. hmem s a = Some h \<Longrightarrow> key_data (f h) = key_data h \<and> hash (f h) = hash h \<and>
      CalcTotalCharge (f h) = CalcTotalCharge h \<and> handle_ok (entries (tbl s)) a (f h)"
  shows "shard_inv (upd_handle a f s)"
proof -
  have "core_inv (upd_handle a f s)"
    using f shard_invD(1) [OF inv] by (intro core_inv_upd_handle) auto
  moreover have "dom (hmem (upd_handle a f s)) = dom (hmem s)"
    by auto
  ultimately show ?thesis
    using shard_invD(2) [OF inv] by (simp add: shard_inv_def del: upd_handle_simps(5))
qed

lemma FindPointer_in_lru:
  assumes "shard_inv s" "LRUHandleTable_FindPointer (hmem s) (tbl s) key hs = Some a"
  obtains h where "a \<in> set (lru s)" "a \<in> entries (tbl s)" "hmem s a = Some h"
    "key_data h = key" "hash h = hs" "handle_ok (entries (tbl s)) a h"
proof -
  note core = shard_invD(1) [OF assms(1)]
  have "a \<in> entries (tbl s)" "kh (hmem s) a = Some (key, hs)"
    using assms(2) FindPointer_Some_iff [OF core_invD(1) [OF core]] by auto
  then show thesis
    using that core_invD(4,6) [OF core] by (auto simp: kh_def)
qed

theorem LRUCacheShard_Lookup_ok:
  assumes inv: "shard_inv s" and l: "LRUCacheShard_Lookup key hs s = (r, s')"
  shows "shard_inv s'" "contents s' = contents s" "capacity s' = capacity s"
    "usage s' = usage s" "tbl s' = tbl s"
    "case r of None \<Rightarrow> contents s key hs = None \<and> s' = s
     | Some a \<Rightarrow> value_at s' a = contents s key hs \<and> contents s key hs \<noteq> None \<and>
         lru s' = remove1 a (lru s) @ [a] \<and> hmem s' = (hmem s)(a := map_option Ref (hmem s a))"
proof -
  have "shard_inv s' \<and> contents s' = contents s \<and> capacity s' = capacity s \<and> usage s' = usage s \<and>
    tbl s' = tbl s \<and> (case r of None \<Rightarrow> contents s key hs = None \<and> s' = s
     | Some a \<Rightarrow> value_at s' a = contents s key hs \<and> contents s key hs \<noteq> None \<and>
         lru s' = remove1 a (lru s) @ [a] \<and> hmem s' = (hmem s)(a := map_option Ref (hmem s a)))"
  proof (cases "LRUHandleTable_FindPointer (hmem s) (tbl s) key hs")
    case None
    then show ?thesis
      using l inv by (auto simp: LRUCacheShard_Lookup_def LRUHandleTable_Lookup_def contents_def)
  next
    case (Some a)
    then obtain h where h: "a \<in> set (lru s)" "a \<in> entries (tbl s)" "hmem s a = Some h"
      "key_data h = key" "hash h = hs" "handle_ok (entries (tbl s)) a h"
      using FindPointer_in_lru [OF inv] by blast
    let ?s1 = "LRU_Insert a (LRU_Remove a s)"
    have r: "r = Some a" "s' = upd_handle a Ref ?s1"
      using l Some by (auto simp: LRUCacheShard_Lookup_def LRUHandleTable_Lookup_def)
    have eq: "?s1 = s\<lparr>lru := remove1 a (lru s) @ [a]\<rparr>"
      by (simp add: LRU_Insert_def LRU_Remove_def)
    have "shard_inv ?s1"
      unfolding eq using h(1) by (intro shard_inv_reorder inv) simp
    then have i: "shard_inv s'"
      unfolding r using h by (intro shard_inv_upd_handle) (auto intro: handle_ok_Ref)
    have "contents s' k x = contents s k x" for k x
      by (rule contents_eq [OF shard_invD(1) [OF inv] shard_invD(1) [OF i]]) (auto simp: r view_def)
    then have "contents s' = contents s" by blast
    moreover have "contents s key hs = Some (hvalue h)"
      using Some h by (simp add: contents_def)
    ultimately show ?thesis
      using i r h by (auto simp: value_at_def)
  qed
  then show "shard_inv s'" "contents s' = contents s" "capacity s' = capacity s"
    "usage s' = usage s" "tbl s' = tbl s"
    "case r of None \<Rightarrow> contents s key hs = None \<and> s' = s
     | Some a \<Rightarrow> value_at s' a = contents s key hs \<and> contents s key hs \<noteq> None \<and>
         lru s' = remove1 a (lru s) @ [a] \<and> hmem s' = (hmem s)(a := map_option Ref (hmem s a))"
    by blast+
qed

text \<open>Unlinking and freeing a handle that is no longer in the table.\<close>

definition drop_handle :: "addr \<Rightarrow> nat \<Rightarrow> 'v shard \<Rightarrow> 'v shard" where
  "drop_handle a ch s = Free a ((LRU_Remove a s)\<lparr>usage := usage s - ch\<rparr>)"

lemma drop_handle_ok:
  assumes ht: "ht_inv (hmem s) (tbl s)" "distinct (lru s)" "dom (hmem s) = set (lru s)"
    "entries (tbl s) \<subseteq> set (lru s) - {a}" "usage s = charges (hmem s) (lru s)"
    "\<And>b h. b \<noteq> a \<Longrightarrow> hmem s b = Some h \<Longrightarrow> handle_ok (entries (tbl s)) b h"
    "\<And>b h. hmem s b = Some h \<Longrightarrow> b < brk s" and a: "hmem s a = Some h" "CalcTotalCharge h = ch"
  shows "shard_inv (drop_handle a ch s)"
proof -
  have al: "a \<in> set (lru s)" using ht(3) a by auto
  have "ht_inv ((hmem s)(a := None)) (tbl s)"
    using ht(1,4) by (subst ht_inv_cong [where hp = "hmem s"]) (auto simp: kh_def)
  moreover have "charges ((hmem s)(a := None)) (remove1 a (lru s)) = charges (hmem s) (remove1 a (lru s))"
    using ht(2) by (intro charges_cong) (auto simp: charge_at_def)
  moreover have "usage s = ch + charges (hmem s) (remove1 a (lru s))"
    using ht(5) charges_remove1 [OF al, of "hmem s"] a by (simp add: charge_at_def)
  moreover have "\<forall>b \<in> set (lru s). b < brk s"
    using ht(3,7) by (metis domD)
  ultimately show ?thesis
    using ht by (auto simp: shard_inv_def core_inv_def drop_handle_def split: if_splits)
qed

lemma core_parts:
  assumes "shard_inv s"
  shows "ht_inv (hmem s) (tbl s)" "distinct (lru s)" "dom (hmem s) = set (lru s)"
    "entries (tbl s) \<subseteq> set (lru s)" "usage s = charges (hmem s) (lru s)"
    "\<And>b h. hmem s b = Some h \<Longrightarrow> handle_ok (entries (tbl s)) b h"
    "\<And>b h. hmem s b = Some h \<Longrightarrow> b < brk s"
  using shard_invD [OF assms] core_invD [of s] by (auto dest: domI)


theorem LRUCacheShard_Release_ok:
  assumes inv: "shard_inv s" and a: "hmem s a = Some h" and r: "refs h \<noteq> 0"
  shows "shard_inv (LRUCacheShard_Release a s)"
    "contents (LRUCacheShard_Release a s) = contents s"
    "capacity (LRUCacheShard_Release a s) = capacity s"
    "tbl (LRUCacheShard_Release a s) = tbl s"
    "hmem (LRUCacheShard_Release a s) =
       (hmem s)(a := if refs h = 1 \<and> a \<notin> entries (tbl s) then None else Some (h\<lparr>refs := refs h - 1\<rparr>))"
proof -
  let ?s' = "LRUCacheShard_Release a s" and ?h = "h\<lparr>refs := refs h - 1\<rparr>"
  note p = core_parts [OF inv]
  have ok: "InCache h \<longleftrightarrow> a \<in> entries (tbl s)" using p(6) [OF a] by (simp add: handle_ok_def)
  have ct: "CalcTotalCharge ?h = CalcTotalCharge h" by (simp add: CalcTotalCharge_def)
  show hm: "hmem ?s' = (hmem s)(a := if refs h = 1 \<and> a \<notin> entries (tbl s) then None else Some ?h)"
    and t: "tbl ?s' = tbl s" "capacity ?s' = capacity s"
    using a ok by (auto simp: LRUCacheShard_Release_def Unref_def InCache_def Let_def)
  show i: "shard_inv ?s'"
  proof (cases "refs h = 1 \<and> a \<notin> entries (tbl s)")
    case True
    let ?s1 = "upd_handle a (\<lambda>_. ?h) s"
    have "?s' = drop_handle a (CalcTotalCharge h) ?s1"
      using True a ok ct
      by (auto simp: LRUCacheShard_Release_def Unref_def InCache_def drop_handle_def)
    moreover have "shard_inv (drop_handle a (CalcTotalCharge h) ?s1)"
    proof (rule drop_handle_ok)
      show "ht_inv (hmem ?s1) (tbl ?s1)"
        using p(1) True by (subst ht_inv_cong [where hp = "hmem s"]) (auto simp: kh_def)
      show "usage ?s1 = charges (hmem ?s1) (lru ?s1)"
        using p(5) a ct charges_cong [of "lru s" "hmem ?s1" "hmem s"] by (auto simp: charge_at_def)
      show "hmem ?s1 a = Some ?h" "CalcTotalCharge ?h = CalcTotalCharge h"
        using a ct by simp_all
    qed (use p a True in \<open>auto split: if_splits\<close>)
    ultimately show ?thesis by simp
  next
    case False
    then have "?s' = upd_handle a (\<lambda>_. ?h) s"
      using a ok by (auto simp: LRUCacheShard_Release_def Unref_def InCache_def)
    moreover have "handle_ok (entries (tbl s)) a ?h"
      using p(6) [OF a] False r by (auto simp: handle_ok_def InCache_def HasRefs_def word_neq_0_conv [symmetric])
    ultimately show ?thesis
      using inv a ct by (simp only:) (intro shard_inv_upd_handle, auto)
  qed
  have "contents ?s' k x = contents s k x" for k x
    by (rule contents_eq [OF shard_invD(1) [OF inv] shard_invD(1) [OF i]])
      (use a in \<open>auto simp: hm t view_def split: if_splits\<close>)
  then show "contents ?s' = contents s" by blast
qed


text \<open>What \<open>Erase\<close> does to the table and to a found handle.\<close>

lemma LRUCacheShard_Erase_None:
  assumes "shard_inv s" "LRUHandleTable_FindPointer (hmem s) (tbl s) key hs = None"
  shows "LRUCacheShard_Erase key hs s = (False, s)"
  using assms LRUHandleTable_Remove_None [of "hmem s" "tbl s" key hs]
  by (simp add: LRUCacheShard_Erase_def)

lemma LRUCacheShard_Erase_Some:
  assumes inv: "shard_inv s" and f: "LRUHandleTable_FindPointer (hmem s) (tbl s) key hs = Some a"
    and h: "hmem s a = Some h"
  obtains s' t where "LRUCacheShard_Erase key hs s = (True, s')" "shard_inv s'" "capacity s' = capacity s"
    "tbl s' = t" "entries t = entries (tbl s) - {a}" "ht_elems t = ht_elems (tbl s)"
    "hmem s' = (hmem s)(a := if HasRefs h then Some (SetInCache False h) else None)"
proof -
  note p = core_parts [OF inv]
  obtain t where t: "LRUHandleTable_Remove (hmem s) (tbl s) key hs = (Some a, t)" "ht_inv (hmem s) t"
    "entries t = entries (tbl s) - {a}" "ht_elems t = ht_elems (tbl s)"
    using LRUHandleTable_Remove_Some [OF p(1) f] by blast
  let ?h = "SetInCache False h"
  let ?s1 = "upd_handle a (SetInCache False) (s\<lparr>tbl := t\<rparr>)"
  have ct: "CalcTotalCharge ?h = CalcTotalCharge h"
    by (simp add: SetInCache_def CalcTotalCharge_def)
  have hr: "HasRefs ?h \<longleftrightarrow> HasRefs h" by (simp add: SetInCache_def HasRefs_def)
  have ht: "ht_inv (hmem ?s1) (tbl ?s1)"
    using t(2) by (subst ht_inv_cong [where hp = "hmem s"]) (auto simp: kh_def SetInCache_def h)
  have us: "usage ?s1 = charges (hmem ?s1) (lru ?s1)"
    using p(5) h ct charges_cong [of "lru s" "hmem ?s1" "hmem s"] by (auto simp: charge_at_def)
  have ok: "handle_ok (entries t) b x" if "hmem s b = Some x" "b \<noteq> a" for b x
    using p(6) [OF that(1)] that(2) by (auto simp: handle_ok_def t)
  have okh: "handle_ok (entries t) a ?h" if "HasRefs h"
    using that hr by (auto simp: handle_ok_def t InCache_def SetInCache_def)
  have bk: "b < brk s" if "b \<in> set (lru s)" for b
    using p(3,7) that by (metis domD)
  show thesis
  proof (cases "HasRefs h")
    case True
    have "shard_inv ?s1"
      using ht us ok okh [OF True] p(2-4) p(7) [OF h] bk h unfolding shard_inv_def core_inv_def
      by (auto simp: t(3))
    then show thesis
      using t h True hr by (intro that [of ?s1 t]) (simp_all add: LRUCacheShard_Erase_def)
  next
    case False
    have "shard_inv (drop_handle a (CalcTotalCharge h) ?s1)"
    proof (rule drop_handle_ok)
      show "ht_inv (hmem ?s1) (tbl ?s1)" "usage ?s1 = charges (hmem ?s1) (lru ?s1)"
        by (fact ht us)+
      show "hmem ?s1 a = Some ?h" "CalcTotalCharge ?h = CalcTotalCharge h"
        using h ct by simp_all
    qed (use p h ok in \<open>auto simp: t(3) split: if_splits\<close>)
    then show thesis
      using t h False hr ct
      by (intro that [of "drop_handle a (CalcTotalCharge h) ?s1" t])
        (simp_all add: LRUCacheShard_Erase_def drop_handle_def Let_def)
  qed
qed

theorem LRUCacheShard_Erase_ok:
  assumes inv: "shard_inv s" and e: "LRUCacheShard_Erase key hs s = (b, s')"
  shows "shard_inv s'" "b \<longleftrightarrow> contents s key hs \<noteq> None" "capacity s' = capacity s"
    "contents s' k x = (if k = key \<and> x = hs then None else contents s k x)"
    "hmem s c = Some h \<Longrightarrow> HasRefs h \<Longrightarrow> value_at s' c = value_at s c \<and> refs_at s' c = refs_at s c"
proof -
  have "shard_inv s' \<and> (b \<longleftrightarrow> contents s key hs \<noteq> None) \<and> capacity s' = capacity s \<and>
    contents s' k x = (if k = key \<and> x = hs then None else contents s k x) \<and>
    (hmem s c = Some h \<longrightarrow> HasRefs h \<longrightarrow> value_at s' c = value_at s c \<and> refs_at s' c = refs_at s c)"
  proof (cases "LRUHandleTable_FindPointer (hmem s) (tbl s) key hs")
    case None
    then show ?thesis
      using inv e LRUCacheShard_Erase_None [OF inv None]
      by (auto simp: contents_def)
  next
    case (Some a)
    then obtain ha where h: "hmem s a = Some ha" "a \<in> entries (tbl s)" "key_data ha = key" "hash ha = hs"
      using FindPointer_in_lru [OF inv] by metis
    obtain t where r: "b = True" "shard_inv s'" "capacity s' = capacity s" "tbl s' = t"
      "entries t = entries (tbl s) - {a}"
      "hmem s' = (hmem s)(a := if HasRefs ha then Some (SetInCache False ha) else None)"
      using LRUCacheShard_Erase_Some [OF inv Some h(1)] e by (metis prod.inject)
    note core = shard_invD(1) [OF inv] shard_invD(1) [OF r(2)]
    have uniq: "c = a" if "view (hmem s) c = Some (key, hs, w)" "c \<in> entries (tbl s)" for c w
    proof -
      have "kh (hmem s) c = Some (key, hs)" using that(1) by (auto simp: view_def kh_def)
      then have "LRUHandleTable_FindPointer (hmem s) (tbl s) key hs = Some c"
        using that(2) FindPointer_Some_iff [OF core_invD(1) [OF core(1)]] by simp
      then show ?thesis using Some by simp
    qed
    have V: "view (hmem s') c = view (hmem s) c" if "c \<noteq> a" for c
      using that by (simp add: view_def r)
    have "contents s' key hs = None"
      using contents_view_iff [OF core(2), of key hs] uniq V r(4,5)
      by (metis DiffD1 DiffD2 insertI1 not_None_eq)
    moreover have "contents s' k x = contents s k x" if "(k, x) \<noteq> (key, hs)"
      using that h by (intro contents_eq [OF core])
        (auto simp: r(4-6) view_def SetInCache_def split: if_splits)
    moreover have "contents s key hs \<noteq> None"
      using Some h by (simp add: contents_def)
    ultimately show ?thesis
      using r h by (auto simp: value_at_def refs_at_def SetInCache_def)
  qed
  then show "shard_inv s'" "b \<longleftrightarrow> contents s key hs \<noteq> None" "capacity s' = capacity s"
    "contents s' k x = (if k = key \<and> x = hs then None else contents s k x)"
    "hmem s c = Some h \<Longrightarrow> HasRefs h \<Longrightarrow> value_at s' c = value_at s c \<and> refs_at s' c = refs_at s c"
    by blast+
qed


subsection \<open>A shard keeps the cache contract\<close>

definition hash_at :: "'v shard \<Rightarrow> addr \<Rightarrow> u32 option" where
  "hash_at s a = map_option hash (hmem s a)"

definition load :: "'v shard \<Rightarrow> nat" where
  "load s = unat (ht_elems (tbl s))"

definition fits :: "'v shard \<Rightarrow> bytes \<times> u32 \<Rightarrow> nat \<Rightarrow> bool" where
  "fits s k c \<longleftrightarrow> usage s + entry_charge (fst k) c \<le> capacity s"

lemma HasRefs_iff: "HasRefs h \<longleftrightarrow> refs h \<noteq> 0"
  by (simp add: HasRefs_def word_neq_0_conv)

lemma room_load: "room s \<longleftrightarrow> load s < 2 ^ 30"
  by (simp add: room_def load_def)

lemma unat_Suc_le: "unat ((x :: u32) + 1) \<le> unat x + 1"
  using unatSuc [of x] by (cases "1 + x = 0") (simp_all add: add.commute)

text \<open>The laws of an insertion, from its effect on the heap and the table.\<close>

lemma linked_cases:
  assumes "linked key hs v c del u s a s'"
  obtains (new) "a = brk s" "linked_new key hs v c del u s s'" | (old) "found_old key hs del u s a s'"
  using assms by (auto simp: linked_def)

lemma linked_contents:
  assumes inv: "shard_inv s" and i: "linked key hs v c del u s a s'"
  shows "value_at s' a = contents s' key hs \<and> contents s' key hs \<noteq> None \<and>
      (contents s' key hs = Some v \<or> contents s' key hs = contents s key hs)"
    "(k, h) \<noteq> (key, hs) \<Longrightarrow> contents s' k h = None \<or> contents s' k h = contents s k h"
    "del = [] \<Longrightarrow> contents s' k h =
       (if (k, h) = (key, hs) then Some (case contents s key hs of None \<Rightarrow> v | Some w \<Rightarrow> w)
        else contents s k h)"
proof -
  have inv': "shard_inv s'" using i by (simp add: linked_def)
  have "(value_at s' a = contents s' key hs \<and> contents s' key hs \<noteq> None \<and>
      (contents s' key hs = Some v \<or> contents s' key hs = contents s key hs)) \<and>
    ((k, h) \<noteq> (key, hs) \<longrightarrow> contents s' k h = None \<or> contents s' k h = contents s k h) \<and>
    (del = [] \<longrightarrow> contents s' k h =
       (if (k, h) = (key, hs) then Some (case contents s key hs of None \<Rightarrow> v | Some w \<Rightarrow> w)
        else contents s k h))"
    using i
  proof (cases rule: linked_cases)
    case new
    note c = contents_linked_new [OF inv inv' new(2)]
    show ?thesis
      using c(1,2,4) c(3) [of k h] c(5) [of k h] new(1) by (cases "contents s' k h") auto
  next
    case old
    note c = contents_found_old [OF inv inv' old]
    show ?thesis
      using c(1,2,3) c(4) [of k h] c(5) [of k h] by (cases "contents s' k h") auto
  qed
  then show "value_at s' a = contents s' key hs \<and> contents s' key hs \<noteq> None \<and>
      (contents s' key hs = Some v \<or> contents s' key hs = contents s key hs)"
    "(k, h) \<noteq> (key, hs) \<Longrightarrow> contents s' k h = None \<or> contents s' k h = contents s k h"
    "del = [] \<Longrightarrow> contents s' k h =
       (if (k, h) = (key, hs) then Some (case contents s key hs of None \<Rightarrow> v | Some w \<Rightarrow> w)
        else contents s k h)"
    by blast+
qed

lemma linked_heap:
  assumes inv: "shard_inv s" and i: "linked key hs v c del u s a s'"
  shows "hmem s' = (hmem s |` (- set del))(a \<mapsto>
      (case hmem s a of None \<Rightarrow> Ref (new_handle key hs v c) | Some h \<Rightarrow> Ref h))"
    "a \<notin> set del" "load s' \<le> load s + 1"
proof -
  have "hmem s' = (hmem s |` (- set del))(a \<mapsto>
      (case hmem s a of None \<Rightarrow> Ref (new_handle key hs v c) | Some h \<Rightarrow> Ref h)) \<and> a \<notin> set del \<and> load s' \<le> load s + 1"
    using i
  proof (cases rule: linked_cases)
    case new
    have "brk s \<notin> set del" using i brk_fresh(2) [OF inv] by (auto simp: linked_def)
    then show ?thesis
      using new brk_fresh(1) [OF inv] unat_Suc_le by (auto simp: linked_new_def load_def)
  next
    case old
    obtain h where "hmem s a = Some h" using old by (auto simp: found_old_def kh_def)
    then show ?thesis using old by (auto simp: found_old_def load_def)
  qed
  then show "hmem s' = (hmem s |` (- set del))(a \<mapsto>
      (case hmem s a of None \<Rightarrow> Ref (new_handle key hs v c) | Some h \<Rightarrow> Ref h))"
    "a \<notin> set del" "load s' \<le> load s + 1"
    by blast+
qed

lemma linked_refs:
  assumes inv: "shard_inv s" and i: "linked key hs v c del u s a s'"
  shows "refs_at s' a = Some (case refs_at s a of None \<Rightarrow> 1 | Some n \<Rightarrow> n + 1)" "load s' \<le> load s + 1"
    "g \<noteq> a \<Longrightarrow> refs_at s' g = refs_at s g \<or> refs_at s g = Some 0 \<and> refs_at s' g = None"
    "refs_at s g = Some n \<Longrightarrow> n \<noteq> 0 \<Longrightarrow> value_at s' g = value_at s g"
    "hash_at s' g = Some x \<Longrightarrow> x = hs \<or> hash_at s g = Some x"
proof -
  note d = linked_heap [OF inv i]
  have np: "\<not> pinned s d" if "d \<in> set del" for d using i that by (auto simp: linked_def)
  show "refs_at s' a = Some (case refs_at s a of None \<Rightarrow> 1 | Some n \<Rightarrow> n + 1)" "load s' \<le> load s + 1"
    using d(1,3) by (auto simp: refs_at_def new_handle_def Ref_def split: option.splits)
  show "g \<noteq> a \<Longrightarrow> refs_at s' g = refs_at s g \<or> refs_at s g = Some 0 \<and> refs_at s' g = None"
    using d(1) np [of g]
    by (cases "hmem s g") (auto simp: refs_at_def restrict_map_def pinned_def HasRefs_iff)
  show "refs_at s g = Some n \<Longrightarrow> n \<noteq> 0 \<Longrightarrow> value_at s' g = value_at s g"
    using d(1,2) np [of g]
    by (auto simp: refs_at_def value_at_def restrict_map_def pinned_def HasRefs_iff split: option.splits)
  show "hash_at s' g = Some x \<Longrightarrow> x = hs \<or> hash_at s g = Some x"
    using d(1) by (auto simp: hash_at_def restrict_map_def new_handle_def split: option.splits if_splits)
qed

lemma lookup_laws:
  assumes inv: "shard_inv s" and l: "LRUCacheShard_Lookup key hs s = (r, s')"
  shows "shard_inv s' \<and> load s' = load s \<and> contents s' = contents s"
    "r = None \<Longrightarrow> contents s key hs = None \<and> s' = s"
    "r = Some a \<Longrightarrow> value_at s' a = contents s key hs \<and> contents s key hs \<noteq> None \<and>
       (\<exists>n. refs_at s a = Some n \<and> refs_at s' = (refs_at s)(a \<mapsto> n + 1))"
    "value_at s' g = value_at s g" "hash_at s' g = hash_at s g"
proof -
  note L = LRUCacheShard_Lookup_ok [OF inv l]
  show "shard_inv s' \<and> load s' = load s \<and> contents s' = contents s"
    "r = None \<Longrightarrow> contents s key hs = None \<and> s' = s"
    using L by (simp_all add: load_def)
  show "value_at s' g = value_at s g" "hash_at s' g = hash_at s g"
    using L(6) by (auto simp: value_at_def hash_at_def option.map_comp o_def split: option.splits)
  show "value_at s' a = contents s key hs \<and> contents s key hs \<noteq> None \<and>
       (\<exists>n. refs_at s a = Some n \<and> refs_at s' = (refs_at s)(a \<mapsto> n + 1))" if "r = Some a"
  proof -
    have v: "value_at s' a = contents s key hs" "contents s key hs \<noteq> None"
      "hmem s' = (hmem s)(a := map_option Ref (hmem s a))"
      using L(6) that by simp_all
    then obtain h where "hmem s a = Some h"
      by (auto simp: value_at_def)
    then show ?thesis
      using v by (auto simp: refs_at_def Ref_def fun_eq_iff)
  qed
qed

lemma release_laws:
  assumes inv: "shard_inv s" and r: "refs_at s a = Some n" "n \<noteq> 0"
  shows "shard_inv (LRUCacheShard_Release a s) \<and> load (LRUCacheShard_Release a s) = load s \<and>
      contents (LRUCacheShard_Release a s) = contents s"
    "refs_at (LRUCacheShard_Release a s) = (refs_at s)(a \<mapsto> n - 1) \<or>
      n = 1 \<and> refs_at (LRUCacheShard_Release a s) = (refs_at s)(a := None)"
    "hash_at (LRUCacheShard_Release a s) g = Some x \<Longrightarrow> hash_at s g = Some x"
proof -
  obtain h where h: "hmem s a = Some h" "refs h = n"
    using r(1) by (auto simp: refs_at_def)
  note R = LRUCacheShard_Release_ok [OF inv h(1)]
  show "shard_inv (LRUCacheShard_Release a s) \<and> load (LRUCacheShard_Release a s) = load s \<and>
      contents (LRUCacheShard_Release a s) = contents s"
    using R h r by (simp add: load_def)
  show "refs_at (LRUCacheShard_Release a s) = (refs_at s)(a \<mapsto> n - 1) \<or>
      n = 1 \<and> refs_at (LRUCacheShard_Release a s) = (refs_at s)(a := None)"
    using R(5) h r by (auto simp: refs_at_def fun_eq_iff)
  show "hash_at (LRUCacheShard_Release a s) g = Some x \<Longrightarrow> hash_at s g = Some x"
    using R(5) h r by (auto simp: hash_at_def split: if_splits)
qed

lemma erase_laws:
  assumes inv: "shard_inv s" and e: "LRUCacheShard_Erase key hs s = (b, s')"
  shows "shard_inv s' \<and> load s' = load s \<and>
      case_prod (contents s') = (case_prod (contents s))((key, hs) := None)"
    "refs_at s' g = refs_at s g \<or> refs_at s g = Some 0 \<and> refs_at s' g = None"
    "refs_at s g = Some n \<Longrightarrow> n \<noteq> 0 \<Longrightarrow> value_at s' g = value_at s g"
    "hash_at s' g = Some x \<Longrightarrow> hash_at s g = Some x"
proof -
  note E = LRUCacheShard_Erase_ok [OF inv e]
  have H: "load s' = load s \<and> (hmem s' g = hmem s g \<or>
    (\<exists>h. hmem s g = Some h \<and> hmem s' g = (if HasRefs h then Some (SetInCache False h) else None)))"
  proof (cases "LRUHandleTable_FindPointer (hmem s) (tbl s) key hs")
    case None
    then show ?thesis using LRUCacheShard_Erase_None [OF inv None] e by simp
  next
    case (Some a)
    obtain h where h: "hmem s a = Some h" using FindPointer_in_lru [OF inv Some] by metis
    obtain s2 t where "LRUCacheShard_Erase key hs s = (True, s2)" "shard_inv s2" "capacity s2 = capacity s"
      "tbl s2 = t" "ht_elems t = ht_elems (tbl s)"
      "hmem s2 = (hmem s)(a := if HasRefs h then Some (SetInCache False h) else None)"
      using LRUCacheShard_Erase_Some [OF inv Some h] by metis
    then show ?thesis using h e by (auto simp: load_def)
  qed
  show "shard_inv s' \<and> load s' = load s \<and>
      case_prod (contents s') = (case_prod (contents s))((key, hs) := None)"
    using E(1,4) H by (auto simp: fun_eq_iff)
  show "refs_at s' g = refs_at s g \<or> refs_at s g = Some 0 \<and> refs_at s' g = None"
    "hash_at s' g = Some x \<Longrightarrow> hash_at s g = Some x"
    using H by (cases "hmem s g"; auto simp: refs_at_def hash_at_def HasRefs_iff SetInCache_def split: if_splits)+
  show "refs_at s g = Some n \<Longrightarrow> n \<noteq> 0 \<Longrightarrow> value_at s' g = value_at s g"
    using E(5) by (auto simp: refs_at_def HasRefs_iff)
qed


lemma insert_step:
  assumes "shard_inv s" "load s < 2 ^ 30" "case_prod LRUCacheShard_Insert k v c s = Some (a, s')"
  obtains del u where "linked (fst k) (snd k) v c del u s a s'" "fits s k c \<Longrightarrow> del = []"
proof -
  have "inserted (fst k) (snd k) v c s a s'"
    using assms by (auto simp: room_load split: prod.splits intro: LRUCacheShard_Insert_inserted)
  then show thesis using that by (auto simp: inserted_def victims_def fits_def)
qed

text \<open>\<open>Erase\<close> as the sharded cache uses it, whose result it does not return.\<close>

abbreviation LRU_Erase_state :: "bytes \<Rightarrow> u32 \<Rightarrow> 'v shard \<Rightarrow> 'v shard" where
  "LRU_Erase_state key hs s \<equiv> snd (LRUCacheShard_Erase key hs s)"

lemmas erase_state_laws = erase_laws [OF _ prod.collapse [symmetric]]

interpretation lru_shard: cache_shard LRUCacheShard_Insert LRUCacheShard_Lookup LRUCacheShard_Release
  LRU_Erase_state "\<lambda>a s. value_at s a" refs_at "\<lambda>s. case_prod (contents s)" shard_inv load fits hash_at
proof (unfold_locales, goal_cases)
  case (1 s k v c)
  then show ?case
    using LRUCacheShard_Insert_ok [of s "fst k" "snd k" v c] by (auto simp: room_load split: prod.splits)
next
  case (2 s k v c h s')
  obtain del u where i: "linked (fst k) (snd k) v c del u s h s'" by (rule insert_step [OF 2])
  show ?case
    using i linked_refs(2) [OF 2(1) i] by (simp add: linked_def)
next
  case (3 s k v c h s')
  obtain del u where i: "linked (fst k) (snd k) v c del u s h s'" by (rule insert_step [OF 3])
  show ?case
    using linked_contents(1) [OF 3(1) i] by (cases k) simp
next
  case (4 s k v c h s' j)
  obtain del u where i: "linked (fst k) (snd k) v c del u s h s'" by (rule insert_step [OF 4(1-3)])
  show ?case
    using linked_contents(2) [OF 4(1) i, of "fst j" "snd j"] 4(4)
    by (auto split: prod.splits)
next
  case (5 s k v c h s')
  obtain del u where i: "linked (fst k) (snd k) v c del u s h s'" by (rule insert_step [OF 5])
  show ?case by (rule linked_refs(1) [OF 5(1) i])
next
  case (6 s k v c h s' g)
  obtain del u where i: "linked (fst k) (snd k) v c del u s h s'" by (rule insert_step [OF 6(1-3)])
  show ?case using linked_refs(3) [OF 6(1) i] 6(4) by blast
next
  case (7 s k v c h s')
  obtain del u where i: "linked (fst k) (snd k) v c del u s h s'" "fits s k c \<Longrightarrow> del = []"
    by (rule insert_step [OF 7(1-3)]) (rule that)
  show ?case
    using linked_contents(3) [OF 7(1) i(1)] i(2) [OF 7(4)] by (cases k) (auto simp: fun_eq_iff)
next
  case (8 s k r s')
  then show ?case using lookup_laws(1) [OF 8(1)] by (cases k) auto
next
  case (9 s k s')
  then show ?case using lookup_laws(2) [OF 9(1)] by (cases k) auto
next
  case (10 s k h s')
  then show ?case using lookup_laws(3) [OF 10(1)] by (cases k) auto
next
  case (11 s h n)
  then show ?case using release_laws(1) [OF 11] by simp
next
  case (12 s h n)
  then show ?case by (rule release_laws(2))
next
  case (13 s k)
  then show ?case using erase_state_laws(1) [OF 13] by (cases k) simp
next
  case (14 s k g)
  then show ?case using erase_state_laws(2) [OF 14] by (cases k) simp
next
  case (15 s g n k v c h s')
  have "value_at s' g = value_at s g" if "load s < 2 ^ 30" "case_prod LRUCacheShard_Insert k v c s = Some (h, s')"
    by (rule insert_step [OF 15(1) that]) (rule linked_refs(4) [OF 15(1) _ 15(2,3)])
  moreover have "value_at (snd (case_prod LRUCacheShard_Lookup k s)) g = value_at s g"
    using lookup_laws(4) [OF 15(1)] by (cases k) (metis case_prod_conv surjective_pairing)
  moreover have "value_at (case_prod LRU_Erase_state k s) g = value_at s g"
    using erase_state_laws(3) [OF 15] by (cases k) simp
  ultimately show ?case by blast
next
  case (16 s a n)
  then show ?case by (auto simp: refs_at_def hash_at_def)
next
  case (17 s k h v c a s' b x)
  have i: "case_prod LRUCacheShard_Insert (k, h) v c s = Some (a, s')" using 17(3) by simp
  obtain del u where "linked (fst (k, h)) (snd (k, h)) v c del u s a s'" by (rule insert_step [OF 17(1,2) i])
  then show ?case using linked_refs(5) [OF 17(1) _ 17(4)] by simp
next
  case (18 s k h r s' b x)
  then show ?case using lookup_laws(5) [OF 18(1,2)] by simp
next
  case (19 s a n b x)
  then show ?case using release_laws(3) by blast
next
  case (20 s k h b x)
  then show ?case using erase_state_laws(4) [OF 20(1)] by blast
qed


subsection \<open>\<open>NewLRUCache\<close>\<close>

definition NewLRUCache :: "nat \<Rightarrow> int \<Rightarrow> 'v shard sharded option res" where
  "NewLRUCache cap bits = new_cache LRUCacheShard_new cap bits"

lemma LRUCacheShard_new_ok:
  obtains s :: "'v shard" where "LRUCacheShard_new c = Some s" "shard_inv s" "contents s = (\<lambda>_ _. None)"
    "load s = 0" "hmem s = Map.empty" "capacity s = c" "usage s = 0"
proof -
  obtain t where t: "LRUHandleTable_new (Map.empty :: ('v, unit) heap) = Some t"
    "ht_inv (Map.empty :: ('v, unit) heap) t" "entries t = {}" "ht_elems t = 0"
    using LRUHandleTable_new_ok by blast
  let ?s = "LRUCacheShard_SetCapacity c
    \<lparr>capacity = 0, lru = [], tbl = t, usage = 0, hmem = (Map.empty :: ('v, unit) heap), brk = 0\<rparr>"
  have inv: "shard_inv ?s"
    using t by (simp add: shard_inv_def core_inv_def LRUCacheShard_SetCapacity_def)
  have "contents ?s k h = None" for k h
    using contents_Some_iff [OF shard_invD(1) [OF inv], of k h] t
    by (cases "contents ?s k h") (auto simp: LRUCacheShard_SetCapacity_def)
  then show thesis
    using t inv by (intro that [of ?s])
      (auto simp: LRUCacheShard_new_def load_def LRUCacheShard_SetCapacity_def)
qed


lemma NewLRUCache_ok:
  assumes "bits < 20"
  obtains s :: "'v shard sharded" where "NewLRUCache cap bits = Inr (Some s)" "lru_shard.sharded.rest s" "sc_load load s = 0"
    "sc_contents (\<lambda>s. case_prod (contents s)) s = Map.empty" "sc_capacity s = cap"
proof -
  let ?n = "if bits < 0 then GetDefaultCacheShardBits cap else nat bits"
  obtain x :: "'v shard" where x: "LRUCacheShard_new (per_shard cap (2 ^ ?n)) = Some x" "shard_inv x"
    "contents x = (\<lambda>_ _. None)" "load x = 0" "hmem x = Map.empty"
    by (rule LRUCacheShard_new_ok)
  obtain s :: "'v shard sharded" where s: "new_sharded LRUCacheShard_new cap ?n = Some s" "sc_invar shard_inv hash_at s"
    "sc_load load s = 0" "sc_contents (\<lambda>s. case_prod (contents s)) s = Map.empty"
    "sc_refs refs_at s = Map.empty" "num_shard_bits s = ?n" "sc_capacity s = cap"
    using new_sharded_ok [where ok = shard_inv and hash = hash_at and ld = load and refs = refs_at
        and cont = "\<lambda>s. case_prod (contents s)" and new_shard = LRUCacheShard_new and cap = cap and bits = ?n,
        OF x(1) default_bits_le [OF assms]] x
    by (auto simp: hash_at_def refs_at_def)
  have "NewLRUCache cap bits = Inr (Some s)"
    unfolding NewLRUCache_def by (rule new_cache_bits [OF assms refl s(1)])
  then show thesis
    using s by (intro that [of s]) (auto simp: lru_shard.sharded.rest_def lru_shard.sharded.quiet_def)
qed

subsection \<open>The eviction policy\<close>



end
