(* ===== verification/FIFO_Cache.thy ===== *)
theory FIFO_Cache
  imports LRU_Cache
begin

text \<open>
  src/cache/fifo_cache.h and fifo_cache.cc: the shard of the write buffers. The classes have the fields
  of their LRU counterparts, so the record \<open>shard\<close> is shared; the operations are those of the
  FIFO file. All but \<open>Lookup\<close>, which leaves the list alone, turn out equal to the LRU ones, and
  the cache contract is inherited through these equations.
\<close>

subsection \<open>\<open>FIFOHandleTable\<close>\<close>

definition FIFOHandleTable_Resize :: "('v, 'm) heap \<Rightarrow> table \<Rightarrow> table option" where
  "FIFOHandleTable_Resize hp t =
     (let n0 = (if ht_length t = 0 then 16 else push_bit 1 (ht_length t))
      in case grow n0 (ht_elems t) of
           None \<Rightarrow> None
         | Some n \<Rightarrow>
             Some (t\<lparr>ht_list := foldl (rehash_one hp n) (replicate (unat n) []) (concat (ht_list t)),
                     ht_length := n\<rparr>))"

definition FIFOHandleTable_FindPointer ::
    "('v, 'm) heap \<Rightarrow> table \<Rightarrow> bytes \<Rightarrow> u32 \<Rightarrow> addr option" where
  "FIFOHandleTable_FindPointer hp t key hs =
     find (matches hp key hs) (ht_list t ! hash_idx hs (ht_length t))"

definition FIFOHandleTable_Lookup ::
    "('v, 'm) heap \<Rightarrow> table \<Rightarrow> bytes \<Rightarrow> u32 \<Rightarrow> addr option" where
  "FIFOHandleTable_Lookup hp t key hs = FIFOHandleTable_FindPointer hp t key hs"

definition FIFOHandleTable_Insert ::
    "('v, 'm) heap \<Rightarrow> table \<Rightarrow> addr \<Rightarrow> ('v, 'm) handle_scheme \<Rightarrow> (addr \<times> table) option" where
  "FIFOHandleTable_Insert hp t a h =
     (case FIFOHandleTable_FindPointer hp t (key_data h) (hash h) of
        Some old \<Rightarrow> Some (old, t)
      | None \<Rightarrow>
          let i = hash_idx (hash h) (ht_length t);
              t1 = t\<lparr>ht_list := (ht_list t)[i := a # ht_list t ! i], ht_elems := ht_elems t + 1\<rparr>
          in if ht_elems t1 > ht_length t1
             then map_option (Pair a) (FIFOHandleTable_Resize hp t1)
             else Some (a, t1))"

definition FIFOHandleTable_Remove ::
    "('v, 'm) heap \<Rightarrow> table \<Rightarrow> bytes \<Rightarrow> u32 \<Rightarrow> addr option \<times> table" where
  "FIFOHandleTable_Remove hp t key hs =
     (let i = hash_idx hs (ht_length t)
      in case find (matches hp key hs) (ht_list t ! i) of
           None \<Rightarrow> (None, t)
         | Some a \<Rightarrow> (Some a, t\<lparr>ht_list := (ht_list t)[i := remove1 a (ht_list t ! i)]\<rparr>))"

definition FIFOHandleTable_new :: "('v, 'm) heap \<Rightarrow> table option" where
  "FIFOHandleTable_new hp = FIFOHandleTable_Resize hp \<lparr>ht_list = [], ht_length = 0, ht_elems = 0\<rparr>"

subsection \<open>\<open>FIFOCacheShard\<close>\<close>

definition FIFOCacheShard_SetCapacity :: "nat \<Rightarrow> 'v shard \<Rightarrow> 'v shard" where
  "FIFOCacheShard_SetCapacity c s = s\<lparr>capacity := c\<rparr>"

definition FIFOCacheShard_new :: "nat \<Rightarrow> 'v shard option" where
  "FIFOCacheShard_new c =
     map_option (\<lambda>t. FIFOCacheShard_SetCapacity c
         \<lparr>capacity = 0, lru = [], tbl = t, usage = 0, hmem = Map.empty, brk = 0\<rparr>)
       (FIFOHandleTable_new (Map.empty :: ('v, unit) heap))"

definition FIFO_Remove :: "addr \<Rightarrow> 'v shard \<Rightarrow> 'v shard" where
  "FIFO_Remove h s = s\<lparr>lru := remove1 h (lru s)\<rparr>"

definition FIFO_Insert :: "addr \<Rightarrow> 'v shard \<Rightarrow> 'v shard" where
  "FIFO_Insert h s = s\<lparr>lru := lru s @ [h]\<rparr>"

text \<open>The loop of \<open>EvictFromFIFO\<close> from the list node \<open>h\<close> on, and its body for an unreferenced handle.\<close>

definition fifo_evict_one :: "addr \<Rightarrow> 'v handle \<Rightarrow> 'v shard \<Rightarrow> 'v shard" where
  "fifo_evict_one h he s =
     (let evict_charge = CalcTotalCharge he;
          s1 = s\<lparr>tbl := snd (FIFOHandleTable_Remove (hmem s) (tbl s) (key_data he) (hash he))\<rparr>;
          s2 = FIFO_Remove h s1
      in s2\<lparr>usage := usage s2 - evict_charge\<rparr>)"

fun fifo_evict_loop :: "nat \<Rightarrow> addr list \<Rightarrow> 'v shard \<Rightarrow> 'v shard \<times> addr list" where
  "fifo_evict_loop c [] s = (s, [])"
| "fifo_evict_loop c (h # hs) s =
     (if usage s + c > capacity s then
        (case hmem s h of
           None \<Rightarrow> fifo_evict_loop c hs s
         | Some he \<Rightarrow>
             if \<not> HasRefs he then
               let (s4, deleted) = fifo_evict_loop c hs (fifo_evict_one h he s)
               in (s4, h # deleted)
             else fifo_evict_loop c hs s)
      else (s, []))"

definition EvictFromFIFO :: "nat \<Rightarrow> 'v shard \<Rightarrow> 'v shard \<times> addr list" where
  "EvictFromFIFO c s = fifo_evict_loop c (lru s) s"

definition FIFOCacheShard_Insert ::
    "bytes \<Rightarrow> u32 \<Rightarrow> 'v \<Rightarrow> nat \<Rightarrow> 'v shard \<Rightarrow> (addr \<times> 'v shard) option" where
  "FIFOCacheShard_Insert key hs v c s0 =
     (let h = brk s0;
          he = \<lparr>hvalue = v, key_data = key, charge = c, inCache = 0, hash = hs, refs = 0\<rparr>;
          total_charge = CalcTotalCharge he;
          s1 = s0\<lparr>hmem := (hmem s0)(h \<mapsto> he), brk := h + 1\<rparr>;
          (s2, lru_list) =
            (if usage s1 + total_charge > capacity s1 then EvictFromFIFO total_charge s1
             else (s1, []))
      in case FIFOHandleTable_Insert (hmem s2) (tbl s2) h he of
           None \<Rightarrow> None
         | Some (old_h, t) \<Rightarrow>
             let s3 = s2\<lparr>tbl := t\<rparr> in
             if old_h \<noteq> h then
               Some (old_h, fold Free (lru_list @ [h]) (upd_handle old_h Ref s3))
             else
               let s4 = upd_handle h Ref (FIFO_Insert h s3)
               in Some (h, fold Free lru_list (s4\<lparr>usage := usage s4 + total_charge\<rparr>)))"

definition FIFOCacheShard_Lookup :: "bytes \<Rightarrow> u32 \<Rightarrow> 'v shard \<Rightarrow> addr option \<times> 'v shard" where
  "FIFOCacheShard_Lookup key hs s =
     (case FIFOHandleTable_Lookup (hmem s) (tbl s) key hs of
        None \<Rightarrow> (None, s)
      | Some h \<Rightarrow> (Some h, upd_handle h Ref s))"

definition FIFOCacheShard_Release :: "addr \<Rightarrow> 'v shard \<Rightarrow> 'v shard" where
  "FIFOCacheShard_Release h s =
     (case hmem s h of
        None \<Rightarrow> s
      | Some he \<Rightarrow>
          let (last_reference, he') = Unref he;
              s1 = upd_handle h (\<lambda>_. he') s
          in if last_reference \<and> \<not> InCache he' then
               let s2 = FIFO_Remove h s1
               in Free h (s2\<lparr>usage := usage s2 - CalcTotalCharge he'\<rparr>)
             else s1)"

definition FIFOCacheShard_Erase :: "bytes \<Rightarrow> u32 \<Rightarrow> 'v shard \<Rightarrow> bool \<times> 'v shard" where
  "FIFOCacheShard_Erase key hs s =
     (case FIFOHandleTable_Remove (hmem s) (tbl s) key hs of
        (None, t) \<Rightarrow> (False, s\<lparr>tbl := t\<rparr>)
      | (Some h, t) \<Rightarrow>
          let s1 = upd_handle h (SetInCache False) (s\<lparr>tbl := t\<rparr>)
          in case hmem s1 h of
               None \<Rightarrow> (True, s1)
             | Some he \<Rightarrow>
                 if \<not> HasRefs he then
                   let s2 = FIFO_Remove h s1
                   in (True, Free h (s2\<lparr>usage := usage s2 - CalcTotalCharge he\<rparr>))
                 else (True, s1))"

definition FIFOCacheShard_GetUsage :: "'v shard \<Rightarrow> nat" where
  "FIFOCacheShard_GetUsage s = usage s"

definition NewFIFOCache :: "nat \<Rightarrow> int \<Rightarrow> 'v shard sharded option res" where
  "NewFIFOCache cap bits = new_cache FIFOCacheShard_new cap bits"

subsection \<open>The equations with the LRU classes\<close>

lemma FIFOHandleTable_eqs:
  "FIFOHandleTable_Resize = LRUHandleTable_Resize"
  "FIFOHandleTable_FindPointer = LRUHandleTable_FindPointer"
  "FIFOHandleTable_Lookup = LRUHandleTable_Lookup"
  "FIFOHandleTable_Remove = LRUHandleTable_Remove"
  by (simp_all add: fun_eq_iff FIFOHandleTable_Resize_def LRUHandleTable_Resize_def
      FIFOHandleTable_FindPointer_def LRUHandleTable_FindPointer_def FIFOHandleTable_Lookup_def
      LRUHandleTable_Lookup_def FIFOHandleTable_Remove_def LRUHandleTable_Remove_def)

lemma FIFOHandleTable_eqs2:
  "FIFOHandleTable_Insert = LRUHandleTable_Insert" "FIFOHandleTable_new = LRUHandleTable_new"
  by (unfold FIFOHandleTable_eqs FIFOHandleTable_Insert_def LRUHandleTable_Insert_def
      FIFOHandleTable_new_def LRUHandleTable_new_def) (rule refl)+

lemma FIFO_list_eqs:
  "FIFO_Remove = LRU_Remove" "FIFO_Insert = LRU_Insert" "fifo_evict_one = evict_one"
  by (simp_all add: fun_eq_iff FIFO_Remove_def LRU_Remove_def FIFO_Insert_def LRU_Insert_def
      fifo_evict_one_def evict_one_def FIFOHandleTable_eqs)

lemma fifo_evict_loop_eq: "fifo_evict_loop c hs s = evict_loop c hs s"
  by (induction c hs s rule: evict_loop.induct)
    (simp_all add: FIFO_list_eqs split: option.split)

lemma FIFOCacheShard_eqs:
  "FIFOCacheShard_Insert = LRUCacheShard_Insert" "FIFOCacheShard_Release = LRUCacheShard_Release"
  "FIFOCacheShard_Erase = LRUCacheShard_Erase" "FIFOCacheShard_new = LRUCacheShard_new"
  by (simp_all only: fun_eq_iff FIFOCacheShard_Insert_def LRUCacheShard_Insert_def EvictFromFIFO_def
      EvictFromLRU_def fifo_evict_loop_eq FIFO_list_eqs FIFOHandleTable_eqs FIFOHandleTable_eqs2
      FIFOCacheShard_Release_def LRUCacheShard_Release_def FIFOCacheShard_Erase_def
      LRUCacheShard_Erase_def FIFOCacheShard_new_def LRUCacheShard_new_def
      FIFOCacheShard_SetCapacity_def LRUCacheShard_SetCapacity_def simp_thms)

text \<open>\<open>Lookup\<close> has the effect of the LRU one, but for the order of the list.\<close>

lemma FIFOCacheShard_Lookup_None:
  "LRUHandleTable_FindPointer (hmem s) (tbl s) key hs = None \<Longrightarrow> FIFOCacheShard_Lookup key hs s = (None, s)"
  by (simp add: FIFOCacheShard_Lookup_def FIFOHandleTable_eqs LRUHandleTable_Lookup_def)

lemma FIFOCacheShard_Lookup_Some:
  "LRUHandleTable_FindPointer (hmem s) (tbl s) key hs = Some a \<Longrightarrow>
   FIFOCacheShard_Lookup key hs s = (Some a, upd_handle a Ref s)"
  by (simp add: FIFOCacheShard_Lookup_def FIFOHandleTable_eqs LRUHandleTable_Lookup_def)

lemma fifo_lookup_laws:
  assumes inv: "shard_inv s" and l: "FIFOCacheShard_Lookup key hs s = (r, s')"
  shows "shard_inv s' \<and> load s' = load s \<and> contents s' = contents s \<and> lru s' = lru s"
    "r = None \<Longrightarrow> contents s key hs = None \<and> s' = s"
    "r = Some a \<Longrightarrow> value_at s' a = contents s key hs \<and> contents s key hs \<noteq> None \<and>
       (\<exists>n. refs_at s a = Some n \<and> refs_at s' = (refs_at s)(a \<mapsto> n + 1))"
    "value_at s' g = value_at s g" "hash_at s' g = hash_at s g"
proof -
  have "(shard_inv s' \<and> load s' = load s \<and> contents s' = contents s \<and> lru s' = lru s) \<and>
    (r = None \<longrightarrow> contents s key hs = None \<and> s' = s) \<and>
    (r = Some a \<longrightarrow> value_at s' a = contents s key hs \<and> contents s key hs \<noteq> None \<and>
       (\<exists>n. refs_at s a = Some n \<and> refs_at s' = (refs_at s)(a \<mapsto> n + 1))) \<and>
    value_at s' g = value_at s g \<and> hash_at s' g = hash_at s g"
  proof (cases "LRUHandleTable_FindPointer (hmem s) (tbl s) key hs")
    case None
    then show ?thesis
      using l inv FIFOCacheShard_Lookup_None [OF None] by (auto simp: contents_def)
  next
    case (Some b)
    then obtain h where h: "b \<in> entries (tbl s)" "hmem s b = Some h" "handle_ok (entries (tbl s)) b h"
      using FindPointer_in_lru [OF inv] by metis
    have r: "r = Some b" "s' = upd_handle b Ref s"
      using l FIFOCacheShard_Lookup_Some [OF Some] by auto
    have i: "shard_inv s'"
      unfolding r using inv h by (intro shard_inv_upd_handle) (auto intro: handle_ok_Ref)
    have "contents s' k x = contents s k x" for k x
      by (rule contents_eq [OF shard_invD(1) [OF inv] shard_invD(1) [OF i]]) (auto simp: r view_def)
    then have "contents s' = contents s" by blast
    then show ?thesis
      using i r h Some
      by (auto simp: value_at_def hash_at_def refs_at_def load_def contents_def Ref_def fun_eq_iff)
  qed
  then show "shard_inv s' \<and> load s' = load s \<and> contents s' = contents s \<and> lru s' = lru s"
    "r = None \<Longrightarrow> contents s key hs = None \<and> s' = s"
    "r = Some a \<Longrightarrow> value_at s' a = contents s key hs \<and> contents s key hs \<noteq> None \<and>
       (\<exists>n. refs_at s a = Some n \<and> refs_at s' = (refs_at s)(a \<mapsto> n + 1))"
    "value_at s' g = value_at s g" "hash_at s' g = hash_at s g"
    by blast+
qed

abbreviation FIFO_Erase_state :: "bytes \<Rightarrow> u32 \<Rightarrow> 'v shard \<Rightarrow> 'v shard" where
  "FIFO_Erase_state key hs s \<equiv> snd (FIFOCacheShard_Erase key hs s)"

interpretation fifo_shard: cache_shard FIFOCacheShard_Insert FIFOCacheShard_Lookup FIFOCacheShard_Release
  FIFO_Erase_state "\<lambda>a s. value_at s a" refs_at "\<lambda>s. case_prod (contents s)" shard_inv load fits hash_at
  unfolding FIFOCacheShard_eqs
proof (unfold_locales, goal_cases)
  case (8 s k r s')
  then show ?case using fifo_lookup_laws(1) [OF 8(1)] by (cases k) auto
next
  case (9 s k s')
  then show ?case using fifo_lookup_laws(2) [OF 9(1)] by (cases k) auto
next
  case (10 s k h s')
  then show ?case using fifo_lookup_laws(3) [OF 10(1)] by (cases k) auto
next
  case (15 s g n k v c h s')
  have "value_at (snd (case_prod FIFOCacheShard_Lookup k s)) g = value_at s g"
    using fifo_lookup_laws(4) [OF 15(1) prod.collapse [symmetric]] by (cases k) simp
  then show ?case using lru_shard.pinned_value [OF 15] by blast
next
  case (18 s k h r s' b x)
  then show ?case using fifo_lookup_laws(5) [OF 18(1,2)] by simp
qed (fact lru_shard.insert_returns lru_shard.insert_invar lru_shard.insert_value lru_shard.insert_other
    lru_shard.insert_refs lru_shard.insert_refs_other lru_shard.insert_fits lru_shard.release_state
    lru_shard.release_refs lru_shard.erase_state lru_shard.erase_refs lru_shard.hash_live
    lru_shard.insert_hash lru_shard.release_hash lru_shard.erase_hash)+

lemma NewFIFOCache_ok:
  assumes "bits < 20"
  obtains s :: "'v shard sharded" where "NewFIFOCache cap bits = Inr (Some s)" "fifo_shard.sharded.rest s"
    "sc_load load s = 0" "sc_contents (\<lambda>s. case_prod (contents s)) s = Map.empty" "sc_capacity s = cap"
  using NewLRUCache_ok [OF assms, of cap] unfolding NewFIFOCache_def NewLRUCache_def FIFOCacheShard_eqs
  by (auto simp: lru_shard.sharded.rest_def lru_shard.sharded.quiet_def
      fifo_shard.sharded.rest_def fifo_shard.sharded.quiet_def)


end
