(* ===== verification/Statistics.thy ===== *)
theory Statistics
  imports Prelude
begin

text \<open>
  include/wisckey/statistics.h: the tickers and their operations. The array \<open>tickers_\<close> is a list of
  64-bit counters with atomic wrapping addition. \<open>Reset\<close> loops from an uninitialised index, which is
  an argument of its model. The reporting thread only prints and is not modelled.
\<close>

datatype Tickers = REQ_PUT | REQ_GET | REQ_GET_NOEXIST | REQ_DEL | REQ_SEEK | REQ_NEXT
  | WBUFFER_HIT | WBUFFER_MISS | WBUFFER_FILL | WBUFFER_ERASE
  | CACHE_HIT | CACHE_MISS | CACHE_FILL | CACHE_ERASE

definition TickersNameMap :: "(Tickers \<times> string) list" where
  "TickersNameMap =
     [(REQ_PUT, ''req.put''), (REQ_GET, ''req.get''), (REQ_GET_NOEXIST, ''req.get.noexist''),
      (REQ_DEL, ''req.delete''), (REQ_SEEK, ''req.seek''), (REQ_NEXT, ''req.next''),
      (WBUFFER_HIT, ''write.buffer.hit''), (WBUFFER_MISS, ''write.buffer.miss''),
      (WBUFFER_FILL, ''write.buffer.fill''), (WBUFFER_ERASE, ''write.buffer.erase''),
      (CACHE_HIT, ''cache.hit''), (CACHE_MISS, ''cache.miss''), (CACHE_FILL, ''cache.fill''),
      (CACHE_ERASE, ''cache.erase'')]"

fun ticker_num :: "Tickers \<Rightarrow> nat" where
  "ticker_num REQ_PUT = 0"
| "ticker_num REQ_GET = 1"
| "ticker_num REQ_GET_NOEXIST = 2"
| "ticker_num REQ_DEL = 3"
| "ticker_num REQ_SEEK = 4"
| "ticker_num REQ_NEXT = 5"
| "ticker_num WBUFFER_HIT = 6"
| "ticker_num WBUFFER_MISS = 7"
| "ticker_num WBUFFER_FILL = 8"
| "ticker_num WBUFFER_ERASE = 9"
| "ticker_num CACHE_HIT = 10"
| "ticker_num CACHE_MISS = 11"
| "ticker_num CACHE_FILL = 12"
| "ticker_num CACHE_ERASE = 13"

definition TICKER_ENUM_MAX :: nat where
  "TICKER_ENUM_MAX = 14"

type_synonym tickers = "u64 list"

definition Statistics_new :: tickers where
  "Statistics_new = replicate TICKER_ENUM_MAX 0"

definition recordTick :: "nat \<Rightarrow> u64 \<Rightarrow> tickers \<Rightarrow> tickers" where
  "recordTick t n ts = (if t < TICKER_ENUM_MAX then ts[t := ts ! t + n] else ts)"

definition getTickCount :: "nat \<Rightarrow> tickers \<Rightarrow> u64" where
  "getTickCount t ts = ts ! t"

definition Reset :: "nat \<Rightarrow> tickers \<Rightarrow> tickers" where
  "Reset tick0 ts = fold (\<lambda>tick ts. ts[tick := 0]) [tick0..<TICKER_ENUM_MAX] ts"

definition RecordTick :: "Tickers \<Rightarrow> tickers option \<Rightarrow> tickers option" where
  "RecordTick t st = map_option (recordTick (ticker_num t) 1) st"

definition GetTickerCount :: "Tickers \<Rightarrow> tickers option \<Rightarrow> u64" where
  "GetTickerCount t st = (case st of None \<Rightarrow> 0 | Some ts \<Rightarrow> getTickCount (ticker_num t) ts)"

lemma ticker_num_less: "ticker_num t < TICKER_ENUM_MAX"
  by (cases t) (simp_all add: TICKER_ENUM_MAX_def)

lemma ticker_num_inject [simp]: "ticker_num t = ticker_num u \<longleftrightarrow> t = u"
  by (cases t; cases u) simp_all

definition stats_ok :: "tickers option \<Rightarrow> bool" where
  "stats_ok st \<longleftrightarrow> (case st of None \<Rightarrow> True | Some ts \<Rightarrow> length ts = TICKER_ENUM_MAX)"

lemma stats_ok_RecordTick [simp]: "stats_ok (RecordTick t st) = stats_ok st"
  by (cases st) (simp_all add: stats_ok_def RecordTick_def recordTick_def)

lemma stats_ok_new [simp]: "stats_ok (Some Statistics_new)"
  by (simp add: stats_ok_def Statistics_new_def)

text \<open>A tick moves exactly its own counter, by one modulo \<open>2^64\<close>.\<close>

lemma GetTickerCount_RecordTick:
  assumes "stats_ok (Some ts)"
  shows "GetTickerCount u (RecordTick t (Some ts)) = GetTickerCount u (Some ts) + (if u = t then 1 else 0)"
  using assms ticker_num_less [of t]
  by (auto simp: GetTickerCount_def RecordTick_def recordTick_def getTickCount_def stats_ok_def
      TICKER_ENUM_MAX_def)

lemma ticker_num_names: "i < length TickersNameMap \<Longrightarrow> ticker_num (fst (TickersNameMap ! i)) = i"
  unfolding TickersNameMap_def by (auto simp: less_Suc_eq numeral_eq_Suc)

text \<open>\<open>Reset\<close> clears the tickers from its starting index on, so all of them only when that happens to be 0.\<close>

lemma fold_update_nth:
  "i < length ts \<Longrightarrow> fold (\<lambda>j ts. ts[j := x]) js ts ! i = (if i \<in> set js then x else ts ! i)"
  by (induction js arbitrary: ts) (auto simp: nth_list_update)

lemma Reset_nth:
  assumes "length ts = TICKER_ENUM_MAX" "i < TICKER_ENUM_MAX"
  shows "Reset tick0 ts ! i = (if tick0 \<le> i then 0 else ts ! i)"
  using assms fold_update_nth [of i ts 0 "[tick0..<TICKER_ENUM_MAX]"] by (simp add: Reset_def)

end
