(* ===== verification/Cache_Client.thy ===== *)
theory Cache_Client
  imports FIFO_Cache Statistics
begin

text \<open>
  The in-memory interface of \<open>DBImpl\<close> in src/db_impl.h: the four operations on the data cache and the
  four on a write buffer. Their bodies are the same up to the cache and the tickers, so they are
  instances of one family. The state is the cache pointer (None for NULL) and the tickers. The value
  kept in a cache is the copy of the bytes that \<open>CacheEntry\<close> makes.

  \<open>ShardedCache::Erase\<close> returns nothing, so the flag that the erase operations test is unspecified
  and an argument here. Releasing a NULL handle through a non-null cache dereferences it.
\<close>

type_synonym 's cst = "'s option \<times> tickers option"

definition sizeof_CacheEntry :: nat where
  "sizeof_CacheEntry = 16"

definition cc_read :: "(bytes \<Rightarrow> 's \<Rightarrow> 'h option \<times> 's) \<Rightarrow> ('h \<Rightarrow> 's \<Rightarrow> bytes option) \<Rightarrow> Tickers \<Rightarrow> Tickers \<Rightarrow>
    bytes \<Rightarrow> bytes \<Rightarrow> ('s cst, 'h option \<times> bytes) op" where
  "cc_read look val hit miss key out c =
     (case fst c of
        None \<Rightarrow> Inr ((None, out), c)
      | Some s \<Rightarrow>
          (case look key s of
             (Some h, s') \<Rightarrow>
               (case val h s' of
                  None \<Rightarrow> Inl Null_Deref
                | Some v \<Rightarrow> Inr ((Some h, out @ v), (Some s', RecordTick hit (snd c))))
           | (None, s') \<Rightarrow> Inr ((None, out), (Some s', RecordTick miss (snd c)))))"

definition cc_insert :: "(bytes \<Rightarrow> bytes \<Rightarrow> nat \<Rightarrow> 's \<Rightarrow> ('h \<times> 's) option) \<Rightarrow> Tickers \<Rightarrow>
    bytes \<Rightarrow> bytes \<Rightarrow> ('s cst, 'h option) op" where
  "cc_insert ins fill key v c =
     (case fst c of
        None \<Rightarrow> Inr (None, c)
      | Some s \<Rightarrow>
          (case ins key v (sizeof_CacheEntry + length v) s of
             None \<Rightarrow> Inl Hang
           | Some (h, s') \<Rightarrow> Inr (Some h, (Some s', RecordTick fill (snd c)))))"

definition cc_erase :: "(bytes \<Rightarrow> 's \<Rightarrow> 's) \<Rightarrow> Tickers \<Rightarrow> bool \<Rightarrow> bytes \<Rightarrow> ('s cst, unit) op" where
  "cc_erase era erased flag key c =
     (case fst c of
        None \<Rightarrow> Inr ((), c)
      | Some s \<Rightarrow> Inr ((), (Some (era key s), if flag then RecordTick erased (snd c) else snd c)))"

definition cc_release :: "('h \<Rightarrow> 's \<Rightarrow> 's) \<Rightarrow> 'h option \<Rightarrow> ('s cst, unit) op" where
  "cc_release rel h c =
     (case fst c of
        None \<Rightarrow> Inr ((), c)
      | Some s \<Rightarrow>
          (case h of
             None \<Rightarrow> Inl Null_Deref
           | Some a \<Rightarrow> Inr ((), (Some (rel a s), snd c))))"

subsection \<open>The data cache and the write buffers\<close>

type_synonym byte_cache = "bytes shard sharded"

definition LRUCache_Value :: "sc_handle \<Rightarrow> byte_cache \<Rightarrow> bytes option" where
  "LRUCache_Value h s = value_at (GetShard s (fst h)) (snd h)"

definition LRUCache_GetHash :: "bytes shard \<Rightarrow> addr \<Rightarrow> u32 option" where
  "LRUCache_GetHash s a = map_option hash (hmem s a)"

definition read_cache :: "bytes \<Rightarrow> bytes \<Rightarrow> (byte_cache cst, sc_handle option \<times> bytes) op" where
  "read_cache = cc_read (ShardedCache_Lookup LRUCacheShard_Lookup) LRUCache_Value CACHE_HIT CACHE_MISS"

definition insert_cache :: "bytes \<Rightarrow> bytes \<Rightarrow> (byte_cache cst, sc_handle option) op" where
  "insert_cache = cc_insert (ShardedCache_Insert LRUCacheShard_Insert) CACHE_FILL"

definition erase_cache_entry :: "bool \<Rightarrow> bytes \<Rightarrow> (byte_cache cst, unit) op" where
  "erase_cache_entry = cc_erase (ShardedCache_Erase LRU_Erase_state) CACHE_ERASE"

definition release_cache_entry :: "sc_handle option \<Rightarrow> (byte_cache cst, unit) op" where
  "release_cache_entry = cc_release (ShardedCache_Release LRUCache_GetHash LRUCacheShard_Release)"

definition read_buffer :: "bytes \<Rightarrow> bytes \<Rightarrow> (byte_cache cst, sc_handle option \<times> bytes) op" where
  "read_buffer = cc_read (ShardedCache_Lookup FIFOCacheShard_Lookup) LRUCache_Value WBUFFER_HIT WBUFFER_MISS"

definition insert_buffer :: "bytes \<Rightarrow> bytes \<Rightarrow> (byte_cache cst, sc_handle option) op" where
  "insert_buffer = cc_insert (ShardedCache_Insert FIFOCacheShard_Insert) WBUFFER_FILL"

definition erase_buffer_entry :: "bool \<Rightarrow> bytes \<Rightarrow> (byte_cache cst, unit) op" where
  "erase_buffer_entry = cc_erase (ShardedCache_Erase FIFO_Erase_state) WBUFFER_ERASE"

definition release_buffer_entry :: "sc_handle option \<Rightarrow> (byte_cache cst, unit) op" where
  "release_buffer_entry = cc_release (ShardedCache_Release LRUCache_GetHash FIFOCacheShard_Release)"

subsection \<open>What the operations do to the contents\<close>

text \<open>What the cache behind a pointer holds, and that it is at rest with room for \<open>N\<close> more insertions.\<close>

definition opt_contents :: "('s \<Rightarrow> bytes \<Rightarrow> 'v option) \<Rightarrow> 's option \<Rightarrow> bytes \<Rightarrow> 'v option" where
  "opt_contents cont c k = (case c of None \<Rightarrow> None | Some s \<Rightarrow> cont s k)"

definition opt_ok :: "('s \<Rightarrow> bool) \<Rightarrow> ('s \<Rightarrow> nat) \<Rightarrow> nat \<Rightarrow> 's option \<Rightarrow> bool" where
  "opt_ok ok ld N c \<longleftrightarrow> (case c of None \<Rightarrow> True | Some s \<Rightarrow> ok s \<and> ld s + N < 2 ^ 30)"

text \<open>A value can be inserted without an eviction.\<close>

definition opt_fits :: "('s \<Rightarrow> bytes \<Rightarrow> nat \<Rightarrow> bool) \<Rightarrow> 's option \<Rightarrow> bytes \<Rightarrow> bytes \<Rightarrow> bool" where
  "opt_fits fit c k v \<longleftrightarrow> (case c of None \<Rightarrow> True | Some s \<Rightarrow> fit s k (sizeof_CacheEntry + length v))"

text \<open>The effect of an insertion on the contents.\<close>

definition fill_rel :: "bytes \<Rightarrow> 'v \<Rightarrow> (bytes \<Rightarrow> 'v option) \<Rightarrow> (bytes \<Rightarrow> 'v option) \<Rightarrow> bool" where
  "fill_rel k v m m' \<longleftrightarrow> (m' k = Some v \<or> m' k = m k) \<and> (\<forall>j. j \<noteq> k \<longrightarrow> m' j = None \<or> m' j = m j)"

lemma fill_rel_refl: "fill_rel k v m m"
  by (simp add: fill_rel_def)

lemma opt_ok_mono: "opt_ok ok ld N c \<Longrightarrow> M \<le> N \<Longrightarrow> opt_ok ok ld M c"
  by (auto simp: opt_ok_def split: option.splits)

locale cache_client = cache Insert Lookup Release Erase Value refs_at contents invar load fits
  for Insert :: "bytes \<Rightarrow> bytes \<Rightarrow> nat \<Rightarrow> 's \<Rightarrow> ('h \<times> 's) option"
    and Lookup :: "bytes \<Rightarrow> 's \<Rightarrow> 'h option \<times> 's"
    and Release :: "'h \<Rightarrow> 's \<Rightarrow> 's"
    and Erase :: "bytes \<Rightarrow> 's \<Rightarrow> 's"
    and Value :: "'h \<Rightarrow> 's \<Rightarrow> bytes option"
    and refs_at :: "'s \<Rightarrow> 'h \<Rightarrow> u32 option"
    and contents :: "'s \<Rightarrow> bytes \<Rightarrow> bytes option"
    and invar :: "'s \<Rightarrow> bool"
    and load :: "'s \<Rightarrow> nat"
    and fits :: "'s \<Rightarrow> bytes \<Rightarrow> nat \<Rightarrow> bool"
begin

abbreviation "holds \<equiv> opt_contents contents"
abbreviation "ready \<equiv> opt_ok rest load"

lemma fill_ok:
  assumes "ready (Suc N) c"
  obtains h c1 c2 where "cc_insert Insert fill k v (c, st) = Inr (h, (c1, if c = None then st else RecordTick fill st))"
    "\<And>st'. cc_release Release h (c1, st') = Inr ((), (c2, st'))" "ready N c2"
    "fill_rel k v (holds c) (holds c2)" "c \<noteq> None \<Longrightarrow> holds c2 k \<noteq> None" "c2 = None \<longleftrightarrow> c = None"
    "opt_fits fits c k v \<longrightarrow> holds c k \<noteq> None \<longrightarrow> holds c2 k = holds c k"
proof (cases c)
  case None
  then show thesis
    using assms by (intro that [of None None None])
      (auto simp: cc_insert_def cc_release_def opt_ok_def fill_rel_refl opt_contents_def)
next
  case (Some s)
  then have s: "rest s" "load s < 2 ^ 30" "load s + Suc N < 2 ^ 30"
    using assms by (auto simp: opt_ok_def)
  obtain h s' where i: "Insert k v (sizeof_CacheEntry + length v) s = Some (h, s')" "rest (Release h s')"
    "load (Release h s') \<le> load s + 1" "contents (Release h s') = contents s'"
    using insert_release [OF s(1,2), of k v "sizeof_CacheEntry + length v"] by blast
  have inv: "invar s" using s(1) by (simp add: rest_def)
  have "fill_rel k v (contents s) (contents s')"
    using insert_value [OF inv s(2) i(1)] insert_other [OF inv s(2) i(1)] by (auto simp: fill_rel_def)
  moreover have "contents s' k \<noteq> None"
    using insert_value [OF inv s(2) i(1)] by simp
  moreover have "contents s' k = contents s k"
    if "fits s k (sizeof_CacheEntry + length v)" "contents s k \<noteq> None"
    using insert_fits [OF inv s(2) i(1) that(1)] that(2) by auto
  ultimately show thesis
    using Some i s by (intro that [of "Some h" "Some s'" "Some (Release h s')"])
      (auto simp: cc_insert_def cc_release_def opt_ok_def opt_contents_def opt_fits_def fun_eq_iff fill_rel_def)
qed

lemma read_hit:
  assumes "ready N c" "holds c k = Some v"
  obtains h c1 c2 where "cc_read Lookup Value hit miss k out (c, st) = Inr ((Some h, out @ v), (c1, RecordTick hit st))"
    "\<And>st'. cc_release Release (Some h) (c1, st') = Inr ((), (c2, st'))" "ready N c2" "holds c2 = holds c"
proof -
  obtain s where c: "c = Some s" using assms(2) by (auto simp: opt_contents_def split: option.splits)
  then have s: "rest s" "load s + N < 2 ^ 30" "contents s k = Some v"
    using assms by (auto simp: opt_ok_def opt_contents_def)
  obtain h s' where l: "Lookup k s = (Some h, s')"
    using lookup_none(2) [OF s(1), of k] s(3) by (cases "Lookup k s"; cases "fst (Lookup k s)") auto
  note r = lookup_release [OF s(1) l]
  show thesis
    using c s l r by (intro that [of h "Some s'" "Some (Release h s')"])
      (auto simp: cc_read_def cc_release_def opt_ok_def opt_contents_def fun_eq_iff)
qed

lemma read_miss:
  assumes "ready N c" "holds c k = None"
  shows "cc_read Lookup Value hit miss k out (c, st) =
    Inr ((None, out), (c, if c = None then st else RecordTick miss st))"
proof (cases c)
  case None
  then show ?thesis by (simp add: cc_read_def)
next
  case (Some s)
  then have s: "rest s" "contents s k = None"
    using assms by (auto simp: opt_ok_def opt_contents_def)
  obtain r s' where l: "Lookup k s = (r, s')" by fastforce
  have "r = None"
    using lookup_release(5) [OF s(1), of k] l s(2) by (cases r) auto
  moreover from this have "s' = s"
    using lookup_none(1) [OF s(1), of k s'] l by simp
  ultimately show ?thesis using Some l by (simp add: cc_read_def)
qed

lemma erase_ok:
  assumes "ready N c"
  obtains c1 st1 where "cc_erase Erase era flag k (c, st) = Inr ((), (c1, st1))" "ready N c1"
    "holds c1 = (holds c)(k := None)" "c1 = None \<longleftrightarrow> c = None"
proof (cases c)
  case None
  then show thesis
    using that [of c st] assms by (auto simp: cc_erase_def opt_contents_def fun_eq_iff)
next
  case (Some s)
  then have s: "rest s" "load s + N < 2 ^ 30" using assms by (auto simp: opt_ok_def)
  note e = erase_rest [OF s(1), of k]
  show thesis
    using Some s e by (intro that [of "Some (Erase k s)" "if flag then RecordTick era st else st"])
      (auto simp: cc_erase_def opt_ok_def opt_contents_def fun_eq_iff)
qed

end

lemma handle_reads:
  "LRUCache_Value = sc_value (\<lambda>a s. value_at s a)" "LRUCache_GetHash = hash_at"
  by (simp_all add: fun_eq_iff LRUCache_Value_def sc_value_def LRUCache_GetHash_def hash_at_def)

abbreviation cache_contents :: "byte_cache \<Rightarrow> bytes \<Rightarrow> bytes option" where
  "cache_contents \<equiv> sc_contents (\<lambda>s. case_prod (contents s))"

interpretation data_cache: cache_client "ShardedCache_Insert LRUCacheShard_Insert"
  "ShardedCache_Lookup LRUCacheShard_Lookup" "ShardedCache_Release LRUCache_GetHash LRUCacheShard_Release"
  "ShardedCache_Erase LRU_Erase_state" LRUCache_Value "sc_refs refs_at" cache_contents
  "sc_invar shard_inv hash_at" "sc_load load" "sc_fits fits"
  unfolding handle_reads by unfold_locales

interpretation write_buf: cache_client "ShardedCache_Insert FIFOCacheShard_Insert"
  "ShardedCache_Lookup FIFOCacheShard_Lookup" "ShardedCache_Release LRUCache_GetHash FIFOCacheShard_Release"
  "ShardedCache_Erase FIFO_Erase_state" LRUCache_Value "sc_refs refs_at" cache_contents
  "sc_invar shard_inv hash_at" "sc_load load" "sc_fits fits"
  unfolding handle_reads by unfold_locales

text \<open>Changing the capacity keeps what the cache holds.\<close>

lemma fold_upd_shard:
  "n \<le> length (shards s) \<Longrightarrow> fold (\<lambda>i s. upd_shard i (f (GetShard s i)) s) [0..<n] s =
     s\<lparr>shards := map f (take n (shards s)) @ drop n (shards s)\<rparr>"
proof (induction n)
  case (Suc n)
  have n: "n < length (shards s)" using Suc.prems by simp
  then show ?case
    using Suc.IH by (simp add: upd_shard_def GetShard_def nth_append list_update_append take_Suc_conv_app_nth
        Cons_nth_drop_Suc [symmetric])
qed simp

lemma SetCapacity_shards:
  assumes "length (shards s) = 2 ^ num_shard_bits s"
  shows "ShardedCache_SetCapacity f cap s =
    s\<lparr>shards := map (f (per_shard cap (length (shards s)))) (shards s), sc_capacity := cap\<rparr>"
  using fold_upd_shard [of "length (shards s)" s "f (per_shard cap (length (shards s)))"] assms
  by (simp add: ShardedCache_SetCapacity_def Let_def)

lemma LRU_SetCapacity_simps [simp]:
  "shard_inv (LRUCacheShard_SetCapacity c s) = shard_inv s" "contents (LRUCacheShard_SetCapacity c s) = contents s"
  "refs_at (LRUCacheShard_SetCapacity c s) = refs_at s" "hash_at (LRUCacheShard_SetCapacity c s) = hash_at s"
  "load (LRUCacheShard_SetCapacity c s) = load s"
  by (simp_all add: LRUCacheShard_SetCapacity_def shard_inv_def core_inv_def contents_def refs_at_def hash_at_def load_def fun_eq_iff
      split: option.split)

lemma SetCapacity_ready:
  fixes cap :: nat
  assumes "data_cache.ready N (Some s)"
  defines "s' \<equiv> ShardedCache_SetCapacity LRUCacheShard_SetCapacity cap s"
  shows "data_cache.ready N (Some s')" "cache_contents s' = cache_contents s"
    "usage (GetShard s (sc_shard k s)) + entry_charge k c \<le> cap div length (shards s) \<Longrightarrow> sc_fits fits s' k c"
proof -
  have inv: "sc_invar shard_inv hash_at s" using assms(1) by (simp add: opt_ok_def data_cache.rest_def)
  then have l: "length (shards s) = 2 ^ num_shard_bits s" by (simp add: sc_invar_def)
  have sh: "sc_shard k s < length (shards s)" for k by (rule sc_shard_less [OF inv])
  note e = SetCapacity_shards [OF l, of LRUCacheShard_SetCapacity cap]
  have "(load :: bytes shard \<Rightarrow> nat) \<circ> LRUCacheShard_SetCapacity n = load" for n by (simp add: fun_eq_iff)
  then show "data_cache.ready N (Some s')"
    using assms(1) unfolding opt_ok_def by (auto simp: opt_ok_def data_cache.rest_def data_cache.quiet_def sc_invar_def sc_refs_def
        GetShard_def sc_load_def s'_def e split: if_splits)
  show "cache_contents s' = cache_contents s"
    using sh by (simp add: fun_eq_iff sc_contents_def GetShard_def sc_shard_def s'_def e)
  have "cap div length (shards s) \<le> per_shard cap (length (shards s))"
    by (simp add: per_shard_def div_le_mono)
  then show "usage (GetShard s (sc_shard k s)) + entry_charge k c \<le> cap div length (shards s) \<Longrightarrow> sc_fits fits s' k c"
    using sh by (simp add: sc_fits_def fits_def GetShard_def sc_shard_def s'_def e LRUCacheShard_SetCapacity_def)
qed

end
