(* ===== verification/Options.thy ===== *)
theory Options
  imports Statistics
begin

text \<open>
  include/wisckey/options.h: the option structures and their constructors. The environment is a
  partial map from variable names to C strings; \<open>atoi\<close> skips blanks, reads a sign and digits and
  ignores the rest, and is modelled on values that fit an \<open>int\<close>.
\<close>

datatype FilterType = NoFilter | Bloom | Surf

record Options =
  maxOpenFiles :: int
  indexBlockSize :: int
  indexCacheSize :: int
  prefetchEnabled :: bool
  prefetchDepth :: int
  prefetchReqThres :: int
  rangefilterEnabled :: bool
  threadPoolThreadsNum :: int
  threadPoolQueueDepth :: int
  filterType :: FilterType
  filterBitsPerKey :: int
  dataCacheSize :: int
  logBufSize :: u64
  walBufSize :: u64
  GCWorkerThreads :: int
  statistics :: "tickers option"
  stats_dump_interval :: int
  readonly :: bool

definition is_digit :: "char \<Rightarrow> bool" where
  "is_digit c \<longleftrightarrow> 48 \<le> (of_char c :: nat) \<and> (of_char c :: nat) \<le> 57"

fun atoi_digits :: "int \<Rightarrow> string \<Rightarrow> int" where
  "atoi_digits acc [] = acc"
| "atoi_digits acc (c # cs) =
     (if is_digit c then atoi_digits (10 * acc + int (of_char c - 48)) cs else acc)"

definition is_space :: "char \<Rightarrow> bool" where
  "is_space c \<longleftrightarrow> (of_char c :: nat) = 32 \<or> 9 \<le> (of_char c :: nat) \<and> (of_char c :: nat) \<le> 13"

definition atoi :: "string \<Rightarrow> int" where
  "atoi s =
     (case dropWhile is_space s of
        [] \<Rightarrow> 0
      | c # cs \<Rightarrow> if c = CHR ''-'' then - atoi_digits 0 cs
                  else if c = CHR ''+'' then atoi_digits 0 cs
                  else atoi_digits 0 (c # cs))"

definition Options_new :: "(string \<Rightarrow> string option) \<Rightarrow> Options" where
  "Options_new getenv =
     (let o0 = \<lparr>maxOpenFiles = 1000, indexBlockSize = 4096, indexCacheSize = 128,
                prefetchEnabled = False, prefetchDepth = 64, prefetchReqThres = 128,
                rangefilterEnabled = False, threadPoolThreadsNum = 16, threadPoolQueueDepth = 128,
                filterType = NoFilter, filterBitsPerKey = 8, dataCacheSize = 16,
                logBufSize = push_bit 20 16, walBufSize = push_bit 20 1, GCWorkerThreads = 16,
                statistics = None, stats_dump_interval = -1, readonly = False\<rparr>;
          o1 = (case getenv ''PREFETCH_ENA'' of
                  None \<Rightarrow> o0
                | Some e \<Rightarrow> o0\<lparr>prefetchEnabled := (e = ''TRUE'' \<or> e = ''true'')\<rparr>)
      in (case getenv ''PREFETCH_DEPTH'' of
            None \<Rightarrow> o1
          | Some e \<Rightarrow> o1\<lparr>prefetchDepth := atoi e\<rparr>))"

definition CreateDBStatistics :: tickers where
  "CreateDBStatistics = Statistics_new"

record ReadOptions =
  upper_key :: "bytes option"
  scan_length :: int

definition ReadOptions_new :: ReadOptions where
  "ReadOptions_new = \<lparr>upper_key = None, scan_length = 1\<rparr>"

record WriteOptions =
  sync :: bool
  batchIDXWrite :: bool
  batchIDXSize :: nat

definition WriteOptions_new :: WriteOptions where
  "WriteOptions_new = \<lparr>sync = False, batchIDXWrite = False, batchIDXSize = 8\<rparr>"

text \<open>The defaults give a log buffer that the value log can use: 4 MB per partition, page aligned.\<close>

lemma Options_new_logBufSize [simp]: "logBufSize (Options_new getenv) = 16777216"
  by (simp add: Options_new_def Let_def push_bit_eq_mult split: option.split)

lemma Options_new_statistics [simp]: "statistics (Options_new getenv) = None"
  by (simp add: Options_new_def Let_def split: option.split)

end
