(* ===== verification/VLog.thy ===== *)
theory VLog
  imports Options Hashing
begin

text \<open>
  One partition of the value log of src/db_impl.cc: the log file, the aligned in-memory buffer that
  collects values, and the steps that \<open>Put\<close>, \<open>Get\<close>, \<open>flushVLog\<close>, the garbage collector and the
  iterator share: appending under \<open>logM_\<close>, flushing whole pages, reading a value back through an
  aligned \<open>pread\<close>, and the 12-byte index record. The log files are opened with \<open>O_APPEND\<close>, so
  on Linux \<open>pwrite\<close> appends whatever its offset argument is.

  A system call may fail or transfer only a part; the schedule \<open>sys\<close> says how the n-th one ends.
  Bytes of fresh memory come from \<open>junk\<close>.
\<close>

datatype io = Full | Short nat | Fail

record env =
  sys :: "nat \<Rightarrow> io"
  junk :: "nat \<Rightarrow> byte"

definition pwrite :: "io \<Rightarrow> bytes \<Rightarrow> bytes \<Rightarrow> bytes" where
  "pwrite r file data =
     (case r of Full \<Rightarrow> file @ data | Short m \<Rightarrow> file @ take m data | Fail \<Rightarrow> file)"

definition pread :: "io \<Rightarrow> bytes \<Rightarrow> nat \<Rightarrow> nat \<Rightarrow> bytes option" where
  "pread r file n off =
     (case r of Full \<Rightarrow> Some (chunk off n file) | Short m \<Rightarrow> Some (take m (chunk off n file)) | Fail \<Rightarrow> None)"

definition alloc :: "env \<Rightarrow> nat \<Rightarrow> bytes" where
  "alloc E n = map (junk E) [0..<n]"

definition PAGE_SIZE :: u64 where
  "PAGE_SIZE = 4096"

definition roundUp :: "u64 \<Rightarrow> u64 \<Rightarrow> u64" where
  "roundUp x roundTo =
     (let remainder = x mod roundTo in if remainder = 0 then x else x + roundTo - remainder)"

definition roundDown :: "u64 \<Rightarrow> u64 \<Rightarrow> u64" where
  "roundDown x roundTo =
     (let remainder = x mod roundTo in if remainder = 0 then x else x - remainder)"

record vlog =
  log_file :: bytes
  lba :: u64
  log_buf :: bytes
  log_buf_offset :: u64

definition part_size :: "Options \<Rightarrow> u64" where
  "part_size opts = logBufSize opts div of_nat LOG_PARTITION"

text \<open>
  The code under \<open>logM_\<close> in \<open>Put\<close> and \<open>vLogGCWorker\<close>: copy \<open>w\<close> bytes of \<open>data\<close> into the buffer and
  write the buffer out when less than a page is left. The result is the log address of the value.
  \<open>n\<close> counts the system calls.
\<close>

definition append_value :: "env \<Rightarrow> u64 \<Rightarrow> bytes \<Rightarrow> u64 \<Rightarrow> nat \<Rightarrow> vlog \<Rightarrow> (u64 \<times> nat \<times> vlog) res" where
  "append_value E B data w n vl =
     (let addr = lba vl + log_buf_offset vl
      in if unat w > length data then Inl Over_Read
         else if unat (log_buf_offset vl) + unat w > length (log_buf vl) then Inl Heap_Overflow
         else
           let buf = overwrite (log_buf vl) (unat (log_buf_offset vl)) (take (unat w) data);
               off = log_buf_offset vl + w
           in if off \<ge> B - PAGE_SIZE then
                let off' = roundUp off PAGE_SIZE
                in if unat off' > length buf then Inl Over_Read
                   else Inr (addr, n + 1,
                          \<lparr>log_file = pwrite (sys E n) (log_file vl) (take (unat off') buf),
                           lba = lba vl + off', log_buf = buf, log_buf_offset = 0\<rparr>)
              else Inr (addr, n, vl\<lparr>log_buf := buf, log_buf_offset := off\<rparr>))"

text \<open>The body of the loop of \<open>flushVLog\<close>.\<close>

definition flush_part :: "env \<Rightarrow> nat \<Rightarrow> vlog \<Rightarrow> (nat \<times> vlog) res" where
  "flush_part E n vl =
     (if log_buf_offset vl \<noteq> 0 then
        let off = roundUp (log_buf_offset vl) PAGE_SIZE
        in if unat off > length (log_buf vl) then Inl Over_Read
           else Inr (n + 1, vl\<lparr>log_file := pwrite (sys E n) (log_file vl) (take (unat off) (log_buf vl)),
                               lba := lba vl + off, log_buf_offset := 0\<rparr>)
      else Inr (n, vl))"

text \<open>The index record, \<open>metaVal\<close>.\<close>

definition metaVal :: "u64 \<Rightarrow> u32 \<Rightarrow> bytes" where
  "metaVal addr valSize = to_le 8 addr @ to_le 4 valSize"

definition logOffset :: "bytes \<Rightarrow> u64" where
  "logOffset m = of_le (take 8 m)"

definition valSize :: "bytes \<Rightarrow> u32" where
  "valSize m = of_le (take 4 (drop 8 m))"

definition aligned_raddr :: "bytes \<Rightarrow> u64" where
  "aligned_raddr m = roundDown (logOffset m) PAGE_SIZE"

definition rSize :: "bytes \<Rightarrow> 32 word" where
  "rSize m = ucast (roundUp (logOffset m - aligned_raddr m + ucast (valSize m)) PAGE_SIZE)"

text \<open>
  \<open>aligned_alloc\<close> of \<open>rSize\<close> bytes and \<open>pread\<close> into it: the number of bytes read, or None for the
  error result -1, and the buffer. A negative \<open>rSize\<close>, one with bit 31 set, becomes a huge \<open>size_t\<close>, for which
  \<open>aligned_alloc\<close> returns NULL.
\<close>

definition alloc_read_buf :: "env \<Rightarrow> bytes \<Rightarrow> bytes res" where
  "alloc_read_buf E m = (if 2 ^ 31 \<le> unat (rSize m) then Inl Null_Deref else Inr (alloc E (unat (rSize m))))"

definition read_log :: "env \<Rightarrow> nat \<Rightarrow> bytes \<Rightarrow> bytes \<Rightarrow> bytes \<Rightarrow> nat option \<times> bytes" where
  "read_log E n file m buf =
     (case pread (sys E n) file (unat (rSize m)) (unat (aligned_raddr m)) of
        None \<Rightarrow> (None, buf)
      | Some d \<Rightarrow> (Some (length d), overwrite buf 0 d))"

text \<open>The value inside the buffer, at \<open>logOffset - aligned_raddr\<close>.\<close>

definition value_in_buf :: "bytes \<Rightarrow> bytes \<Rightarrow> bytes res" where
  "value_in_buf m buf =
     (let d = unat (logOffset m - aligned_raddr m)
      in if d + unat (valSize m) > length buf then Inl Over_Read
         else Inr (chunk d (unat (valSize m)) buf))"

subsection \<open>Pages\<close>

lemma unat_mod_page: "unat (x mod PAGE_SIZE) = unat x mod 4096"
  by (simp add: PAGE_SIZE_def unat_mod)

lemma next_multiple:
  assumes "0 < (p :: nat)"
  shows "(y + (p - 1)) div p * p = (if y mod p = 0 then y else y + p - y mod p)"
proof (cases "y mod p = 0")
  case True
  then obtain q where "y = p * q" by auto
  then have "(y + (p - 1)) div p = q"
    using assms by (intro div_nat_eqI) simp_all
  then show ?thesis
    using True \<open>y = p * q\<close> by simp
next
  case False
  define q r where "q = y div p" and "r = y mod p"
  have y: "y = p * q + r" "0 < r" "r < p"
    using False assms by (simp_all add: q_def r_def)
  have "(y + (p - 1)) div p = Suc q"
    using y by (intro div_nat_eqI) simp_all
  then show ?thesis
    using False y by (simp flip: r_def)
qed

lemma roundDown_page: "unat (roundDown x PAGE_SIZE) = unat x div 4096 * 4096"
proof -
  let ?r = "x mod PAGE_SIZE"
  have r: "unat ?r = unat x mod 4096" by (rule unat_mod_page)
  have "unat (x - ?r) = unat x - unat ?r"
    by (rule unat_sub_small) (simp add: r)
  moreover have "?r = 0 \<longleftrightarrow> unat x mod 4096 = 0"
    using r by (metis unat_0 unat_eq_zero)
  ultimately show ?thesis
    by (auto simp: roundDown_def Let_def r minus_mod_eq_div_mult)
qed

lemma roundUp_page:
  assumes "unat x + 4096 < 2 ^ 64"
  shows "unat (roundUp x PAGE_SIZE) = (unat x + 4095) div 4096 * 4096"
proof -
  let ?r = "x mod PAGE_SIZE"
  have r: "unat ?r = unat x mod 4096" by (rule unat_mod_page)
  have z: "?r = 0 \<longleftrightarrow> unat x mod 4096 = 0"
    using r by (metis unat_0 unat_eq_zero)
  have a: "unat (x + PAGE_SIZE) = unat x + 4096"
    using assms by (subst unat_add_small) (simp_all add: PAGE_SIZE_def)
  have "unat (x + PAGE_SIZE - ?r) = unat x + 4096 - unat x mod 4096"
  proof (subst unat_sub_small)
    show "unat ?r \<le> unat (x + PAGE_SIZE)"
      unfolding a r by (metis le_add1 mod_less_eq_dividend order_trans)
    show "unat (x + PAGE_SIZE) - unat ?r = unat x + 4096 - unat x mod 4096"
      unfolding a r ..
  qed
  then show ?thesis
    using z next_multiple [of 4096 "unat x"] by (auto simp: roundUp_def Let_def)
qed

lemma metaVal_fields [simp]:
  "length (metaVal a s) = 12" "logOffset (metaVal a s) = a" "valSize (metaVal a s) = s"
  by (simp_all add: metaVal_def logOffset_def valSize_def)


subsection \<open>The log as one byte string\<close>

text \<open>
  The bytes of the log, flushed or not. The invariant says that \<open>lba_\<close> is the size of the file, which
  holds whole pages, and that more than a page is left in the buffer.
\<close>

definition log_bytes :: "vlog \<Rightarrow> bytes" where
  "log_bytes vl = log_file vl @ take (unat (log_buf_offset vl)) (log_buf vl)"

definition part_ok :: "u64 \<Rightarrow> bool" where
  "part_ok B \<longleftrightarrow> 4096 dvd unat B \<and> 8192 \<le> unat B \<and> unat B < 2 ^ 62"

definition vlog_inv :: "u64 \<Rightarrow> vlog \<Rightarrow> bool" where
  "vlog_inv B vl \<longleftrightarrow> length (log_file vl) = unat (lba vl) \<and> 4096 dvd unat (lba vl) \<and>
     length (log_buf vl) = unat B \<and> unat (log_buf_offset vl) + 4096 < unat B"

definition log_room :: "u64 \<Rightarrow> vlog \<Rightarrow> bool" where
  "log_room B vl \<longleftrightarrow> unat (lba vl) + unat B < 2 ^ 63"

lemma part_ok_minus_page: "part_ok B \<Longrightarrow> unat (B - PAGE_SIZE) = unat B - 4096"
  by (subst unat_sub_small) (auto simp: part_ok_def PAGE_SIZE_def)

lemma length_log_bytes:
  "vlog_inv B vl \<Longrightarrow> length (log_bytes vl) = unat (lba vl) + unat (log_buf_offset vl)"
  by (simp add: log_bytes_def vlog_inv_def)

lemma roundUp_ge: "(x :: nat) \<le> (x + 4095) div 4096 * 4096"
proof -
  have "x mod 4096 < 4096" by simp
  then show ?thesis
    using next_multiple [of 4096 x] by (cases "x mod 4096 = 0"; simp)
qed

lemma roundUp_le_mult:
  assumes "x \<le> b" "4096 dvd (b :: nat)"
  shows "(x + 4095) div 4096 * 4096 \<le> b"
proof -
  obtain q where b: "b = 4096 * q" using assms(2) by blast
  have "(x + 4095) div 4096 \<le> (4096 * q + 4095) div 4096"
    using assms(1) b by (intro div_le_mono) simp
  also have "\<dots> = q" by (intro div_nat_eqI) simp_all
  finally show ?thesis using b by simp
qed

text \<open>Writing the first \<open>off\<close> bytes of the buffer out, in whole pages.\<close>

lemma flush_pages:
  assumes B: "part_ok B" and buf: "length buf = unat B" and off: "unat off \<le> unat B"
    and fl: "length file = unat a" "4096 dvd unat a" and room: "unat a + unat B < 2 ^ 63"
  defines "off' \<equiv> roundUp off PAGE_SIZE"
  shows "unat off' \<le> unat B" "unat off \<le> unat off'" "unat (a + off') = unat a + unat off'"
    "length (file @ take (unat off') buf) = unat (a + off')" "4096 dvd unat (a + off')"
    "take (unat off') buf = take (unat off) buf @ chunk (unat off) (unat off' - unat off) buf"
proof -
  have "unat off + 4096 < 2 ^ 64" using off B by (simp add: part_ok_def)
  then have u: "unat off' = (unat off + 4095) div 4096 * 4096"
    unfolding off'_def by (rule roundUp_page)
  show le: "unat off' \<le> unat B"
    unfolding u using off B by (intro roundUp_le_mult) (simp_all add: part_ok_def)
  show ge: "unat off \<le> unat off'"
    unfolding u by (rule roundUp_ge)
  show s: "unat (a + off') = unat a + unat off'"
    using le room by (intro unat_add_small) simp
  show "length (file @ take (unat off') buf) = unat (a + off')"
    using le buf fl s by simp
  show "4096 dvd unat (a + off')"
    using s fl(2) u by simp
  show "take (unat off') buf = take (unat off) buf @ chunk (unat off) (unat off' - unat off) buf"
    using ge by (metis chunk_def le_add_diff_inverse take_add)
qed

lemma append_value_ok:
  assumes B: "part_ok B" and inv: "vlog_inv B vl" and w: "unat w \<le> length data" "unat w \<le> 4096"
    and io: "sys E n = Full" and room: "log_room B vl"
  obtains addr n' vl' pad where "append_value E B data w n vl = Inr (addr, n', vl')" "vlog_inv B vl'"
    "unat addr = length (log_bytes vl)" "log_bytes vl' = log_bytes vl @ take (unat w) data @ pad"
    "unat (lba vl') \<le> unat (lba vl) + unat B" "log_file vl' = log_file vl \<or> log_buf_offset vl' = 0"
proof -
  let ?buf = "overwrite (log_buf vl) (unat (log_buf_offset vl)) (take (unat w) data)"
  let ?off = "log_buf_offset vl + w" and ?addr = "lba vl + log_buf_offset vl"
  note i = inv [unfolded vlog_inv_def]
  have fit: "unat (log_buf_offset vl) + unat w \<le> unat B" using i w(2) by simp
  have Bs: "unat B < 2 ^ 62" using B by (simp add: part_ok_def)
  have off: "unat ?off = unat (log_buf_offset vl) + unat w"
    using fit Bs by (intro unat_add_small) simp
  have addr: "unat ?addr = length (log_bytes vl)"
    unfolding length_log_bytes [OF inv] using i room by (intro unat_add_small) (simp add: log_room_def)
  have buf: "length ?buf = unat B" using i w fit by simp
  have tk: "take (unat ?off) ?buf = take (unat (log_buf_offset vl)) (log_buf vl) @ take (unat w) data"
    using take_overwrite [of "unat (log_buf_offset vl)" "take (unat w) data" "log_buf vl"] i w fit off by simp
  show thesis
  proof (cases "?off \<ge> B - PAGE_SIZE")
    case False
    then have "unat ?off + 4096 < unat B"
      using part_ok_minus_page [OF B] by (auto simp: word_le_nat_alt)
    then show thesis
      using False i w fit buf addr tk
      by (intro that [of ?addr n "vl\<lparr>log_buf := ?buf, log_buf_offset := ?off\<rparr>" "[]"])
        (simp_all add: append_value_def Let_def vlog_inv_def log_bytes_def)
  next
    case True
    let ?o = "roundUp ?off PAGE_SIZE"
    let ?vl = "\<lparr>log_file = log_file vl @ take (unat ?o) ?buf, lba = lba vl + ?o, log_buf = ?buf, log_buf_offset = 0\<rparr>"
    have le: "unat ?off \<le> unat B" using fit off by simp
    note fl = flush_pages [OF B buf le _ _ room [unfolded log_room_def], of "log_file vl"]
    have "vlog_inv B ?vl"
      using fl i buf B by (simp add: vlog_inv_def part_ok_def)
    moreover have "log_bytes ?vl = log_bytes vl @ take (unat w) data @ chunk (unat ?off) (unat ?o - unat ?off) ?buf"
      using fl(6) i tk by (simp add: log_bytes_def)
    moreover have "append_value E B data w n vl = Inr (?addr, n + 1, ?vl)"
      using True i w fit buf fl(1) io by (simp add: append_value_def Let_def pwrite_def)
    ultimately show thesis
      using addr fl(1,3) i by (intro that [of ?addr "n + 1" ?vl]) simp_all
  qed
qed


lemma flush_part_ok:
  assumes B: "part_ok B" and inv: "vlog_inv B vl" and io: "sys E n = Full" and room: "log_room B vl"
  obtains n' vl' pad where "flush_part E n vl = Inr (n', vl')" "vlog_inv B vl'"
    "log_bytes vl' = log_bytes vl @ pad" "log_file vl' = log_bytes vl'" "log_buf_offset vl' = 0"
    "unat (lba vl') \<le> unat (lba vl) + unat B" "n' = n \<or> n' = n + 1"
proof (cases "log_buf_offset vl = 0")
  case True
  then show thesis
    using inv by (intro that [of n vl "[]"]) (simp_all add: flush_part_def log_bytes_def)
next
  case False
  note i = inv [unfolded vlog_inv_def]
  let ?o = "roundUp (log_buf_offset vl) PAGE_SIZE"
  let ?vl = "vl\<lparr>log_file := log_file vl @ take (unat ?o) (log_buf vl), lba := lba vl + ?o, log_buf_offset := 0\<rparr>"
  have le: "unat (log_buf_offset vl) \<le> unat B" using i by simp
  note fl = flush_pages [OF B _ le _ _ room [unfolded log_room_def], of "log_buf vl" "log_file vl"]
  have "vlog_inv B ?vl"
    using fl i B by (simp add: vlog_inv_def part_ok_def)
  moreover have "log_bytes ?vl = log_bytes vl @
      chunk (unat (log_buf_offset vl)) (unat ?o - unat (log_buf_offset vl)) (log_buf vl)"
    using fl(6) i by (simp add: log_bytes_def)
  moreover have "flush_part E n vl = Inr (n + 1, ?vl)"
    using False i fl(1) io by (simp add: flush_part_def Let_def pwrite_def)
  ultimately show thesis
    using fl(1,3) i by (intro that [of "n + 1" ?vl]) (simp_all add: log_bytes_def)
qed

subsection \<open>Reading a value back\<close>

text \<open>Where an index record points to, and that the value lies inside a log of a given length.\<close>

definition entry_in :: "bytes \<Rightarrow> nat \<Rightarrow> bool" where
  "entry_in m n \<longleftrightarrow> length m = 12 \<and> unat (valSize m) \<le> 4096 \<and> unat (logOffset m) + unat (valSize m) \<le> n"

definition entry_value :: "bytes \<Rightarrow> bytes \<Rightarrow> bytes" where
  "entry_value m l = chunk (unat (logOffset m)) (unat (valSize m)) l"

text \<open>
  A record is placed in a log when its value lies in the log and does not straddle the end of the file:
  values are appended whole and the buffer is flushed whole. Appending and flushing make a log grow.
\<close>

definition placed :: "bytes \<Rightarrow> vlog \<Rightarrow> bool" where
  "placed m vl \<longleftrightarrow> entry_in m (length (log_bytes vl)) \<and>
     (entry_in m (length (log_file vl)) \<or> length (log_file vl) \<le> unat (logOffset m))"

definition grows :: "vlog \<Rightarrow> vlog \<Rightarrow> bool" where
  "grows vl vl' \<longleftrightarrow> (\<exists>l. log_bytes vl' = log_bytes vl @ l) \<and>
     (log_file vl' = log_file vl \<or> log_file vl' = log_bytes vl')"

lemma entry_in_mono: "entry_in m n \<Longrightarrow> n \<le> n' \<Longrightarrow> entry_in m n'"
  by (auto simp: entry_in_def)

lemma entry_value_append [simp]: "entry_in m (length l) \<Longrightarrow> entry_value m (l @ l') = entry_value m l"
  by (simp add: entry_in_def entry_value_def chunk_append_left)

lemma metaVal_entry:
  assumes "unat a = length l" "unat s = length v" "length v \<le> 4096"
  shows "entry_in (metaVal a s) (length (l @ v @ pad))" "entry_value (metaVal a s) (l @ v @ pad) = v"
  using assms by (simp_all add: entry_in_def entry_value_def chunk_at_end)

lemma grows_refl [simp]: "grows vl vl"
  by (simp add: grows_def)

lemma placed_grows: "placed m vl \<Longrightarrow> grows vl vl' \<Longrightarrow> placed m vl'"
  by (auto simp: placed_def grows_def elim: entry_in_mono)

lemma entry_value_grows:
  "placed m vl \<Longrightarrow> grows vl vl' \<Longrightarrow> entry_value m (log_bytes vl') = entry_value m (log_bytes vl)"
  by (auto simp: placed_def grows_def)

lemma placed_new:
  assumes "unat a = length (log_bytes vl)" "unat s = length v" "length v \<le> 4096"
    "log_bytes vl' = log_bytes vl @ v @ pad" "grows vl vl'"
  shows "placed (metaVal a s) vl'" "entry_value (metaVal a s) (log_bytes vl') = v"
proof -
  note e = metaVal_entry [OF assms(1-3), of pad]
  have "length (log_file vl) \<le> length (log_bytes vl)" by (simp add: log_bytes_def)
  then show "placed (metaVal a s) vl'" "entry_value (metaVal a s) (log_bytes vl') = v"
    using e assms(1,4,5) by (auto simp: placed_def grows_def)
qed

text \<open>The extent of the aligned read.\<close>

lemma aligned_diff:
  "unat (logOffset m - aligned_raddr m) = unat (logOffset m) mod 4096"
  "unat (aligned_raddr m) + unat (logOffset m) mod 4096 = unat (logOffset m)"
proof -
  have "unat (logOffset m) div 4096 * 4096 \<le> unat (logOffset m)" by (rule div_times_less_eq_dividend)
  then show "unat (logOffset m - aligned_raddr m) = unat (logOffset m) mod 4096"
    by (subst unat_sub_small) (simp_all add: aligned_raddr_def roundDown_page minus_div_mult_eq_mod)
  show "unat (aligned_raddr m) + unat (logOffset m) mod 4096 = unat (logOffset m)"
    by (simp add: aligned_raddr_def roundDown_page)
qed

lemma rSize_ok:
  assumes "unat (valSize m) \<le> 4096"
  shows "unat (rSize m) = (unat (logOffset m) mod 4096 + unat (valSize m) + 4095) div 4096 * 4096"
    "unat (rSize m) \<le> 8192"
proof -
  let ?d = "unat (logOffset m) mod 4096" and ?x = "logOffset m - aligned_raddr m + ucast (valSize m)"
  have v: "unat (ucast (valSize m) :: u64) = unat (valSize m)" 
    using unsigned_less [of "valSize m", where 'a = nat] by (simp add: unsigned_ucast_eq take_bit_nat_eq_self)
  have d: "?d < 4096" by simp
  have x: "unat ?x = ?d + unat (valSize m)"
    using d assms by (subst unat_add_small) (simp_all add: v aligned_diff)
  have up: "unat (roundUp ?x PAGE_SIZE) = (?d + unat (valSize m) + 4095) div 4096 * 4096"
    using d assms x by (subst roundUp_page) simp_all
  have le: "(?d + unat (valSize m) + 4095) div 4096 * 4096 \<le> 8192"
    using d assms by (intro roundUp_le_mult) simp_all
  show r: "unat (rSize m) = (?d + unat (valSize m) + 4095) div 4096 * 4096"
    using up le by (simp add: rSize_def unsigned_ucast_eq take_bit_nat_eq_self)
  then show "unat (rSize m) \<le> 8192"
    using le by simp
qed


lemma read_back:
  assumes e: "entry_in m (length file)" and io: "sys E n = Full"
  obtains buf k buf' where "alloc_read_buf E m = Inr buf" "read_log E n file m buf = (Some k, buf')"
    "value_in_buf m buf' = Inr (entry_value m file)" "valSize m \<noteq> 0 \<Longrightarrow> k \<noteq> 0"
proof -
  let ?o = "unat (logOffset m)" and ?s = "unat (valSize m)" and ?a = "unat (aligned_raddr m)" and ?r = "unat (rSize m)"
  let ?d = "?o mod 4096"
  have s: "?s \<le> 4096" and os: "?o + ?s \<le> length file" using e by (auto simp: entry_in_def)
  note rs = rSize_ok [OF s]
  have r: "?d + ?s \<le> ?r"
    unfolding rs(1) by (rule roundUp_ge)
  note a = aligned_diff [of m]
  let ?data = "chunk ?a ?r file" and ?buf = "alloc E ?r"
  have len: "?d + ?s \<le> length ?data"
    using r a(2) os by (simp add: chunk_def)
  have dl: "length ?data \<le> ?r" by (simp add: chunk_def)
  have "chunk ?d ?s (overwrite ?buf 0 ?data) = chunk ?d ?s ?data"
    using len by (simp add: overwrite_def chunk_append_left)
  also have "\<dots> = entry_value m file"
    using chunk_chunk [OF r, of ?a "file"] a(2) by (simp add: entry_value_def)
  finally have "value_in_buf m (overwrite ?buf 0 ?data) = Inr (entry_value m file)"
    using r dl by (simp add: value_in_buf_def a alloc_def)
  moreover have "alloc_read_buf E m = Inr ?buf"
    using rs(2) by (simp add: alloc_read_buf_def)
  moreover have "length ?data \<noteq> 0" if "valSize m \<noteq> 0"
  proof -
    have "?s \<noteq> 0" using that by (simp add: unat_eq_zero)
    then show ?thesis using len by linarith
  qed
  ultimately show thesis
    using io by (intro that [of ?buf "length ?data"]) (simp_all add: read_log_def pread_def)
qed

text \<open>A value that is not in the file yet: the aligned read starts at or after the end of the file.\<close>

lemma read_unflushed:
  assumes "4096 dvd length file" "length file \<le> unat (logOffset m)" "sys E n = Full"
  shows "read_log E n file m buf = (Some 0, buf)"
proof -
  obtain q where q: "length file = 4096 * q" using assms(1) by blast
  have "q \<le> unat (logOffset m) div 4096"
    using assms(2) q by (simp add: less_eq_div_iff_mult_less_eq mult.commute)
  then have "length file \<le> unat (aligned_raddr m)"
    by (simp add: aligned_raddr_def roundDown_page q)
  then show ?thesis
    using assms(3) by (simp add: read_log_def pread_def chunk_def overwrite_def)
qed

end
