(* ===== verification/Rocks.thy ===== *)
theory Rocks
  imports Slices
begin

text \<open>
  What the store uses of RocksDB (\<open>rocksdb::DB\<close>), as a record of operations on an opaque state and
  as locales that state the documented behaviour the code relies on. \<open>index\<close> is the map a RocksDB state
  stands for. A write that reports success has taken place; one that reports an error may have taken
  place or not. A \<open>Get\<close> that succeeds returns the stored value, \<open>IsNotFound\<close> means the key is absent.
  An iterator walks over a snapshot, in key order.
\<close>

datatype rstatus = ROk | RNotFound | RError

record 'r rocks =
  rocks_Put :: "bytes \<Rightarrow> bytes \<Rightarrow> 'r \<Rightarrow> rstatus \<times> 'r"
  rocks_Delete :: "bytes \<Rightarrow> 'r \<Rightarrow> rstatus \<times> 'r"
  rocks_Get :: "bytes \<Rightarrow> 'r \<Rightarrow> rstatus \<times> bytes \<times> 'r"
  rocks_entries :: "'r \<Rightarrow> (bytes \<times> bytes) list"

locale rocks_map =
  fixes R :: "'r rocks"
    and rinv :: "'r \<Rightarrow> bool"
    and index :: "'r \<Rightarrow> bytes \<Rightarrow> bytes option"
  assumes put_law: "rinv r \<Longrightarrow> rocks_Put R k v r = (st, r') \<Longrightarrow>
      rinv r' \<and> (index r' = (index r)(k \<mapsto> v) \<or> st \<noteq> ROk \<and> index r' = index r)"
    and delete_law: "rinv r \<Longrightarrow> rocks_Delete R k r = (st, r') \<Longrightarrow>
      rinv r' \<and> (index r' = (index r)(k := None) \<or> st \<noteq> ROk \<and> index r' = index r)"
    and get_law: "rinv r \<Longrightarrow> rocks_Get R k r = (st, v, r') \<Longrightarrow>
      rinv r' \<and> index r' = index r \<and> (st = ROk \<longrightarrow> index r k = Some v) \<and>
      (st = RNotFound \<longrightarrow> index r k = None)"

text \<open>With the default comparator the iterator goes through the keys in byte order.\<close>

locale rocksdb = rocks_map +
  assumes entries_map: "rinv r \<Longrightarrow> map_of (rocks_entries R r) = index r"
    and entries_sorted: "rinv r \<Longrightarrow> sorted_wrt lex_less (map fst (rocks_entries R r))"
begin

lemma entries_distinct: "rinv r \<Longrightarrow> distinct (map fst (rocks_entries R r))"
proof -
  have *: "sorted_wrt lex_less ks \<Longrightarrow> distinct ks" for ks
    by (induction ks) (auto simp: lex_less_irrefl)
  show "rinv r \<Longrightarrow> distinct (map fst (rocks_entries R r))"
    using * entries_sorted by blast
qed

end

text \<open>RocksDB without I/O errors: every call succeeds, or reports a missing key as such.\<close>

locale rocks_map_ok = rocks_map +
  assumes put_ok: "rinv r \<Longrightarrow> fst (rocks_Put R k v r) = ROk"
    and delete_ok: "rinv r \<Longrightarrow> fst (rocks_Delete R k r) = ROk"
    and get_ok: "rinv r \<Longrightarrow> fst (rocks_Get R k r) \<noteq> RError"
begin

lemma put_index:
  assumes "rinv r"
  obtains r' where "rocks_Put R k v r = (ROk, r')" "rinv r'" "index r' = (index r)(k \<mapsto> v)"
  using put_ok [OF assms, of k v] put_law [OF assms, of k v]
  by (cases "rocks_Put R k v r") auto

lemma delete_index:
  assumes "rinv r"
  obtains r' where "rocks_Delete R k r = (ROk, r')" "rinv r'" "index r' = (index r)(k := None)"
  using delete_ok [OF assms, of k] delete_law [OF assms, of k]
  by (cases "rocks_Delete R k r") auto

lemma get_index:
  assumes "rinv r"
  obtains (found) v r' where "rocks_Get R k r = (ROk, v, r')" "rinv r'" "index r' = index r" "index r k = Some v"
  | (missing) v r' where "rocks_Get R k r = (RNotFound, v, r')" "rinv r'" "index r' = index r" "index r k = None"
proof (cases "rocks_Get R k r")
  case (fields st v r')
  then show thesis
    using get_ok [OF assms, of k] get_law [OF assms fields] that by (cases st) auto
qed

end

locale rocksdb_ok = rocksdb + rocks_map_ok

text \<open>
  A database with manual compaction: \<open>CompactFiles\<close> of some files to a level may drop the entries that
  the compaction filter removes, and keeps all others.
\<close>

locale compacting = rocks_map_ok +
  fixes CompactFiles :: "string list \<Rightarrow> int \<Rightarrow> (bytes \<Rightarrow> bool) \<Rightarrow> 'r \<Rightarrow> 'r"
  assumes compact_law: "rinv r \<Longrightarrow> rinv (CompactFiles fs l rm r) \<and>
      (index (CompactFiles fs l rm r) k = index r k \<or> rm k \<and> index (CompactFiles fs l rm r) k = None)"

end
