(* ===== verification/Statuses.thy ===== *)
theory Statuses
  imports Slices
begin

text \<open>
  \<open>Status\<close> of include/wisckey/status.h: a null pointer for success, otherwise a heap array that
  holds the message length (4 bytes), the code (1 byte) and the message. The lemmas show that
  the codes read back from the array are the ones the factory functions store, and that the
  copy made by \<open>CopyState\<close> is the array itself, for messages below 2 GB.
\<close>

datatype Code = kOk | kNotFound | kCorruption | kNotSupported | kInvalidArgument | kIOError

fun code_num :: "Code \<Rightarrow> byte" where
  "code_num kOk = 0"
| "code_num kNotFound = 1"
| "code_num kCorruption = 2"
| "code_num kNotSupported = 3"
| "code_num kInvalidArgument = 4"
| "code_num kIOError = 5"

type_synonym Status = "bytes option"

definition Status_make :: "Code \<Rightarrow> bytes \<Rightarrow> bytes \<Rightarrow> Status" where
  "Status_make c msg msg2 =
     (let len1 = (of_nat (length msg) :: u32);
          len2 = (of_nat (length msg2) :: u32);
          size = len1 + (if len2 \<noteq> 0 then 2 + len2 else 0)
      in Some (to_le 4 size @ [code_num c] @ take (unat len1) msg @
               (if len2 \<noteq> 0 then [0x3A, 0x20] @ take (unat len2) msg2 else [])))"

definition Status_OK :: Status where
  "Status_OK = None"

definition Status_NotFound :: "bytes \<Rightarrow> bytes \<Rightarrow> Status" where
  "Status_NotFound msg msg2 = Status_make kNotFound msg msg2"

definition Status_IOError :: "bytes \<Rightarrow> bytes \<Rightarrow> Status" where
  "Status_IOError msg msg2 = Status_make kIOError msg msg2"

definition Status_code :: "Status \<Rightarrow> byte" where
  "Status_code s = (case s of None \<Rightarrow> code_num kOk | Some st \<Rightarrow> st ! 4)"

definition Status_ok :: "Status \<Rightarrow> bool" where
  "Status_ok s \<longleftrightarrow> s = None"

definition Status_IsNotFound :: "Status \<Rightarrow> bool" where
  "Status_IsNotFound s \<longleftrightarrow> Status_code s = code_num kNotFound"

definition Status_IsIOError :: "Status \<Rightarrow> bool" where
  "Status_IsIOError s \<longleftrightarrow> Status_code s = code_num kIOError"

definition CopyState :: "bytes \<Rightarrow> bytes" where
  "CopyState state = (let size = (of_le (take 4 state) :: u32) in take (unat size + 5) state)"

definition Status_copy :: "Status \<Rightarrow> Status" where
  "Status_copy s = (case s of None \<Rightarrow> None | Some st \<Rightarrow> Some (CopyState st))"

lemma Status_code_make [simp]: "Status_code (Status_make c msg msg2) = code_num c"
  by (simp add: Status_code_def Status_make_def Let_def nth_append)

lemma Status_make_not_ok [simp]: "\<not> Status_ok (Status_make c msg msg2)"
  by (simp add: Status_ok_def Status_make_def Let_def)

lemma code_num_inject [simp]: "code_num c = code_num d \<longleftrightarrow> c = d"
  by (cases c; cases d; simp)

lemma Status_copy_make:
  assumes "length msg < 2 ^ 31" "length msg2 < 2 ^ 31 - 2"
  shows "Status_copy (Status_make c msg msg2) = Status_make c msg msg2"
proof -
  let ?len1 = "of_nat (length msg) :: u32" and ?len2 = "of_nat (length msg2) :: u32"
  let ?size = "?len1 + (if ?len2 \<noteq> 0 then 2 + ?len2 else 0)"
  have 1: "unat ?len1 = length msg" and 2: "unat ?len2 = length msg2"
    using assms by (simp_all add: unat_of_nat_small)
  have 3: "unat (2 + ?len2) = 2 + length msg2"
    using assms 2 by (subst unat_add_small) simp_all
  have "unat ?size = length msg + (if ?len2 \<noteq> 0 then 2 + length msg2 else 0)"
    using assms 1 3 by (auto simp: unat_add_small)
  then show ?thesis
    using 1 2 by (auto simp: Status_copy_def Status_make_def CopyState_def Let_def)
qed

end
