(* ===== verification/DB.thy ===== *)
theory DB
  imports Cache_Client VLog Rocks Statuses
begin

text \<open>
  \<open>DBImpl\<close> of src/db_impl.h and src/db_impl.cc: construction and destruction, \<open>Put\<close>, \<open>Get\<close>,
  \<open>Delete\<close> and \<open>flushVLog\<close>. The state holds the RocksDB index, the four value log partitions, the
  write buffers, the data cache and the tickers; \<open>ios\<close> counts the system calls. The operations are
  threaded through the state in the order of the code; RocksDB is the parameter \<open>R\<close>. Printing,
  sleeping and the write-ahead log, whose code is commented out, have no effect on the state.
  The file is compiled with \<open>NDEBUG\<close>, so an \<open>assert\<close> does nothing.
\<close>

record 'r db =
  options :: Options
  rdb :: 'r
  vlogs :: "vlog list"
  write_buffer :: "byte_cache option list"
  data_cache :: "byte_cache option"
  stats :: "tickers option"
  ios :: nat

definition tick :: "Tickers \<Rightarrow> ('r db, unit) op" where
  "tick t db = Inr ((), db\<lparr>stats := RecordTick t (stats db)\<rparr>)"

definition on_cache :: "(byte_cache cst, 'a) op \<Rightarrow> ('r db, 'a) op" where
  "on_cache f db =
     rbind (f (data_cache db, stats db)) (\<lambda>(x, (c, st)). Inr (x, db\<lparr>data_cache := c, stats := st\<rparr>))"

definition on_buffer :: "nat \<Rightarrow> (byte_cache cst, 'a) op \<Rightarrow> ('r db, 'a) op" where
  "on_buffer i f db =
     rbind (f (write_buffer db ! i, stats db))
       (\<lambda>(x, (c, st)). Inr (x, db\<lparr>write_buffer := (write_buffer db)[i := c], stats := st\<rparr>))"

definition on_log :: "nat \<Rightarrow> (nat \<Rightarrow> vlog \<Rightarrow> ('a \<times> nat \<times> vlog) res) \<Rightarrow> ('r db, 'a) op" where
  "on_log i f db =
     rbind (f (ios db) (vlogs db ! i))
       (\<lambda>(x, n, vl). Inr (x, db\<lparr>vlogs := (vlogs db)[i := vl], ios := n\<rparr>))"

definition on_rdb :: "('r \<Rightarrow> 'a \<times> 'r) \<Rightarrow> ('r db, 'a) op" where
  "on_rdb f db = (let (x, r) = f (rdb db) in Inr (x, db\<lparr>rdb := r\<rparr>))"

subsection \<open>Put\<close>

text \<open>The loop around \<open>rdb_->Put\<close>: \<open>s\<close> is the last status, \<open>cnt\<close> is \<open>wi_retry_cnt\<close>.\<close>

function put_retry :: "'r rocks \<Rightarrow> bytes \<Rightarrow> bytes \<Rightarrow> nat \<Rightarrow> rstatus \<Rightarrow> ('r db, Status) op" where
  "put_retry R key m cnt s =
     (if s = ROk then ret Status_OK
      else sbind (on_rdb (rocks_Put R key m)) (\<lambda>s'.
        if cnt \<ge> 3 then ret (Status_IOError [] []) else put_retry R key m (cnt + 1) s'))"
  by pat_completeness auto
termination
  by (relation "measure (\<lambda>(R, key, m, cnt, s). 4 - cnt)") auto

declare put_retry.simps [simp del]

definition wSize :: "bytes \<Rightarrow> u64" where
  "wSize v = scast (of_nat (length v) :: 32 word)"

definition DBImpl_Put :: "'r rocks \<Rightarrow> env \<Rightarrow> bytes \<Rightarrow> bytes \<Rightarrow> ('r db, Status) op" where
  "DBImpl_Put R E key v =
     sbind (tick REQ_PUT) (\<lambda>_.
     sbind (on_cache (insert_cache key v)) (\<lambda>h.
     sbind (on_cache (release_cache_entry h)) (\<lambda>_.
     let hs = log_of key in
     sbind (on_buffer hs (insert_buffer key v)) (\<lambda>bh.
     sbind (on_buffer hs (release_buffer_entry bh)) (\<lambda>_ db.
     sbind (on_log hs (append_value E (part_size (options db)) v (wSize v))) (\<lambda>lba.
     let m = metaVal lba (of_nat (length v)) in
     sbind (on_rdb (rocks_Put R key m)) (\<lambda>s. put_retry R key m 0 s)) db)))))"

subsection \<open>Delete\<close>

definition DBImpl_Delete :: "'r rocks \<Rightarrow> bool \<Rightarrow> bool \<Rightarrow> bytes \<Rightarrow> ('r db, Status) op" where
  "DBImpl_Delete R evicted1 evicted2 key =
     sbind (tick REQ_DEL) (\<lambda>_.
     sbind (on_cache (erase_cache_entry evicted1 key)) (\<lambda>_.
     let hs = log_of key in
     sbind (on_buffer hs (erase_buffer_entry evicted2 key)) (\<lambda>_.
     sbind (on_rdb (rocks_Delete R key)) (\<lambda>s. ret Status_OK))))"

subsection \<open>Get\<close>

text \<open>The loop around \<open>rdb_->Get\<close>: None when it gives up.\<close>

function get_retry :: "'r rocks \<Rightarrow> bytes \<Rightarrow> nat \<Rightarrow> rstatus \<Rightarrow> bytes \<Rightarrow> ('r db, bytes option) op" where
  "get_retry R key cnt s rv =
     (if s = ROk then ret (Some rv)
      else sbind (on_rdb (\<lambda>r. case rocks_Get R key r of (s, v, r') \<Rightarrow> ((s, v), r'))) (\<lambda>(s', rv').
        if cnt \<ge> 3 then ret None else get_retry R key (cnt + 1) s' rv'))"
  by pat_completeness auto
termination
  by (relation "measure (\<lambda>(R, key, cnt, s, rv). 4 - cnt)") auto

declare get_retry.simps [simp del]

text \<open>
  The \<open>pread\<close> with its retry loop. \<open>rret\<close> has type \<open>size_t\<close>, so \<open>rret <= 0\<close> holds only for 0, and the
  result -1 of a failed call leaves the loop like a success. None when the loop gives up.
\<close>

function read_retry :: "env \<Rightarrow> bytes \<Rightarrow> nat \<Rightarrow> nat option \<Rightarrow> bytes \<Rightarrow> nat \<Rightarrow> vlog \<Rightarrow> (bytes option \<times> nat \<times> vlog) res" where
  "read_retry E m cnt rret buf n vl =
     (if rret = Some 0 then
        (let (rret', buf') = read_log E n (log_file vl) m buf
         in if cnt + 1 \<ge> 3 then Inr (None, n + 1, vl)
            else read_retry E m (cnt + 1) rret' buf' (n + 1) vl)
      else Inr (Some buf, n, vl))"
  by pat_completeness auto
termination
  by (relation "measure (\<lambda>(E, m, cnt, rret, buf, n, vl). 3 - cnt)") auto

declare read_retry.simps [simp del]

definition get_log :: "env \<Rightarrow> bytes \<Rightarrow> nat \<Rightarrow> vlog \<Rightarrow> (bytes option \<times> nat \<times> vlog) res" where
  "get_log E m n vl =
     (if length m < 12 then Inl Over_Read
      else rbind (alloc_read_buf E m) (\<lambda>buf.
        let (rret, buf') = read_log E n (log_file vl) m buf
        in read_retry E m 0 rret buf' (n + 1) vl))"

text \<open>The last part of \<open>Get\<close>: the value is not in memory and is read from the log.\<close>

definition get_from_log :: "env \<Rightarrow> bytes \<Rightarrow> bytes \<Rightarrow> bytes \<Rightarrow> ('r db, Status \<times> bytes) op" where
  "get_from_log E key m out =
     sbind (on_log (log_of key) (get_log E m)) (\<lambda>buf.
     case buf of
       None \<Rightarrow> ret (Status_NotFound [] [], out)
     | Some b \<Rightarrow> (\<lambda>db.
     rbind (value_in_buf m b) (\<lambda>v.
     let out = out @ v in
     sbind (on_cache (insert_cache key out)) (\<lambda>h.
     sbind (on_cache (release_cache_entry h)) (\<lambda>_. ret (Status_OK, out))) db)))"

definition DBImpl_Get :: "'r rocks \<Rightarrow> env \<Rightarrow> bytes \<Rightarrow> bytes \<Rightarrow> ('r db, Status \<times> bytes) op" where
  "DBImpl_Get R E key out =
     sbind (tick REQ_GET) (\<lambda>_.
     sbind (on_cache (read_cache key out)) (\<lambda>(h, out).
     if h \<noteq> None then sbind (on_cache (release_cache_entry h)) (\<lambda>_. ret (Status_OK, out))
     else
     let hs = log_of key in
     sbind (on_rdb (\<lambda>r. case rocks_Get R key r of (s, v, r') \<Rightarrow> ((s, v), r'))) (\<lambda>(s, rv).
     if s = RNotFound then
       sbind (tick REQ_GET_NOEXIST) (\<lambda>_. ret (Status_NotFound [] [], out))
     else
     sbind (get_retry R key 0 s rv) (\<lambda>rv'.
     case rv' of
       None \<Rightarrow> ret (Status_NotFound [] [], out)
     | Some m \<Rightarrow>
     sbind (on_buffer hs (read_buffer key out)) (\<lambda>(bh, out).
     if bh \<noteq> None then sbind (on_buffer hs (release_buffer_entry bh)) (\<lambda>_. ret (Status_OK, out))
     else
     get_from_log E key m out)))))"

subsection \<open>Flushing, opening, closing\<close>

primrec flush_parts :: "env \<Rightarrow> nat list \<Rightarrow> ('r db, unit) op" where
  "flush_parts E [] = ret ()"
| "flush_parts E (i # is) =
     sbind (on_log i (\<lambda>n vl. rbind (flush_part E n vl) (\<lambda>(n', vl'). Inr ((), n', vl')))) (\<lambda>_. flush_parts E is)"

definition flushVLog :: "env \<Rightarrow> ('r db, unit) op" where
  "flushVLog E = flush_parts E [0..<LOG_PARTITION]"

definition write_buffer_new :: "Options \<Rightarrow> byte_cache option res" where
  "write_buffer_new opts = NewFIFOCache (unat (logBufSize opts div of_nat LOG_PARTITION * 2 + 16384)) 2"

definition data_cache_new :: "Options \<Rightarrow> byte_cache option res" where
  "data_cache_new opts =
     (if dataCacheSize opts > 0 then NewLRUCache (unat (push_bit 20 (of_int (dataCacheSize opts) :: u64))) (-1)
      else Inr None)"

text \<open>
  The log file of a partition as the constructor finds it: None when it does not exist. The buffer
  is fresh memory.
\<close>

definition open_log :: "env \<Rightarrow> Options \<Rightarrow> bytes option \<Rightarrow> vlog" where
  "open_log E opts f =
     \<lparr>log_file = (case f of None \<Rightarrow> [] | Some d \<Rightarrow> d),
      lba = (case f of None \<Rightarrow> 0 | Some d \<Rightarrow> of_nat (length d)),
      log_buf = (if logBufSize opts > 0 then alloc E (unat (part_size opts)) else []),
      log_buf_offset = 0\<rparr>"

definition DBImpl_new :: "env \<Rightarrow> Options \<Rightarrow> bytes option list \<Rightarrow> 'r \<Rightarrow> 'r db res" where
  "DBImpl_new E opts files r =
     rbind (write_buffer_new opts) (\<lambda>wb.
     rbind (data_cache_new opts) (\<lambda>dc.
     case statistics opts of
       None \<Rightarrow> Inl Null_Deref
     | Some st \<Rightarrow>
         Inr \<lparr>options = opts, rdb = r,
              vlogs = map (open_log E opts) files,
              write_buffer = replicate LOG_PARTITION wb,
              data_cache = dc, stats = Some st, ios = 0\<rparr>))"

definition DB_Open :: "env \<Rightarrow> Options \<Rightarrow> bytes option list \<Rightarrow> 'r \<Rightarrow> (Status \<times> 'r db) res" where
  "DB_Open E opts files r = rbind (DBImpl_new E opts files r) (\<lambda>db. Inr (Status_OK, db))"

text \<open>What the destructor leaves on disk: the log files and the index.\<close>

definition DBImpl_delete :: "env \<Rightarrow> 'r db \<Rightarrow> (bytes option list \<times> 'r) res" where
  "DBImpl_delete E db =
     rbind (flushVLog E db) (\<lambda>(_, db'). Inr (map (\<lambda>vl. Some (log_file vl)) (vlogs db'), rdb db'))"


subsection \<open>Running one step\<close>

lemmas cache_ops = insert_cache_def read_cache_def release_cache_entry_def erase_cache_entry_def
lemmas buffer_ops = insert_buffer_def read_buffer_def release_buffer_entry_def erase_buffer_entry_def

lemma run_cache: "f (data_cache db, stats db) = Inr (x, (c, st)) \<Longrightarrow>
    on_cache f db = Inr (x, db\<lparr>data_cache := c, stats := st\<rparr>)"
  by (simp add: on_cache_def)

lemma run_buffer: "f (write_buffer db ! i, stats db) = Inr (x, (c, st)) \<Longrightarrow>
    on_buffer i f db = Inr (x, db\<lparr>write_buffer := (write_buffer db)[i := c], stats := st\<rparr>)"
  by (simp add: on_buffer_def)

lemma run_log: "f (ios db) (vlogs db ! i) = Inr (x, n, vl) \<Longrightarrow>
    on_log i f db = Inr (x, db\<lparr>vlogs := (vlogs db)[i := vl], ios := n\<rparr>)"
  by (simp add: on_log_def)

lemma run_rdb: "f (rdb db) = (x, r) \<Longrightarrow> on_rdb f db = Inr (x, db\<lparr>rdb := r\<rparr>)"
  by (simp add: on_rdb_def)

lemma run_tick [simp]: "tick t db = Inr ((), db\<lparr>stats := RecordTick t (stats db)\<rparr>)"
  by (simp add: tick_def)

text \<open>Filling and reading the data cache and a write buffer, with the handle given back.\<close>

lemma cache_fill:
  assumes "data_cache.ready (Suc N) (data_cache db)"
  obtains h mid c st where "on_cache (insert_cache k v) db = Inr (h, mid)"
    "on_cache (release_cache_entry h) mid = Inr ((), db\<lparr>data_cache := c, stats := st\<rparr>)"
    "data_cache.ready N c" "fill_rel k v (data_cache.holds (data_cache db)) (data_cache.holds c)"
    "data_cache db \<noteq> None \<longrightarrow> data_cache.holds c k \<noteq> None"
    "opt_fits (sc_fits fits) (data_cache db) k v \<longrightarrow> data_cache.holds (data_cache db) k \<noteq> None \<longrightarrow>
       data_cache.holds c k = data_cache.holds (data_cache db) k"
proof -
  let ?st = "if data_cache db = None then stats db else RecordTick CACHE_FILL (stats db)"
  obtain h c1 c2 where c: "insert_cache k v (data_cache db, stats db) =
      Inr (h, (c1, if data_cache db = None then stats db else RecordTick CACHE_FILL (stats db)))"
    "\<And>st'. release_cache_entry h (c1, st') = Inr ((), (c2, st'))" "data_cache.ready N c2"
    "fill_rel k v (data_cache.holds (data_cache db)) (data_cache.holds c2)"
    "data_cache db \<noteq> None \<Longrightarrow> data_cache.holds c2 k \<noteq> None"
    "opt_fits (sc_fits fits) (data_cache db) k v \<longrightarrow> data_cache.holds (data_cache db) k \<noteq> None \<longrightarrow>
       data_cache.holds c2 k = data_cache.holds (data_cache db) k"
    using data_cache.fill_ok [OF assms] unfolding cache_ops by metis
  show thesis
    using c by (intro that [where h = h and c = c2 and st = ?st and mid = "db\<lparr>data_cache := c1, stats := ?st\<rparr>"])
      (simp_all add: on_cache_def)
qed

lemma buffer_fill:
  assumes "write_buf.ready (Suc N) (write_buffer db ! i)" "i < length (write_buffer db)"
  obtains h mid c st where "on_buffer i (insert_buffer k v) db = Inr (h, mid)"
    "on_buffer i (release_buffer_entry h) mid = Inr ((), db\<lparr>write_buffer := (write_buffer db)[i := c], stats := st\<rparr>)"
    "write_buf.ready N c" "fill_rel k v (write_buf.holds (write_buffer db ! i)) (write_buf.holds c)"
    "write_buffer db ! i \<noteq> None \<longrightarrow> write_buf.holds c k \<noteq> None" "c = None \<longleftrightarrow> write_buffer db ! i = None"
proof -
  let ?st = "if write_buffer db ! i = None then stats db else RecordTick WBUFFER_FILL (stats db)"
  obtain h c1 c2 where c: "insert_buffer k v (write_buffer db ! i, stats db) =
      Inr (h, (c1, if write_buffer db ! i = None then stats db else RecordTick WBUFFER_FILL (stats db)))"
    "\<And>st'. release_buffer_entry h (c1, st') = Inr ((), (c2, st'))" "write_buf.ready N c2"
    "fill_rel k v (write_buf.holds (write_buffer db ! i)) (write_buf.holds c2)"
    "write_buffer db ! i \<noteq> None \<Longrightarrow> write_buf.holds c2 k \<noteq> None" "c2 = None \<longleftrightarrow> write_buffer db ! i = None"
    using write_buf.fill_ok [OF assms(1)] unfolding buffer_ops by metis
  show thesis
    using c assms(2) by (intro that [where h = h and c = c2 and st = ?st and
        mid = "db\<lparr>write_buffer := (write_buffer db)[i := c1], stats := ?st\<rparr>"])
      (simp_all add: on_buffer_def)
qed


subsection \<open>The abstract store and the invariant\<close>

text \<open>
  The value of a key is what its index record points to in the log of its partition, flushed or not.
  The invariant is indexed by the number of writes that still fit the 63-bit log addresses and the
  30-bit table counters.
\<close>

definition key_log :: "'r db \<Rightarrow> bytes \<Rightarrow> vlog" where
  "key_log db k = vlogs db ! log_of k"

definition db_abs :: "('r \<Rightarrow> bytes \<Rightarrow> bytes option) \<Rightarrow> 'r db \<Rightarrow> bytes \<Rightarrow> bytes option" where
  "db_abs index db k = map_option (\<lambda>m. entry_value m (log_bytes (key_log db k))) (index (rdb db) k)"

definition dc_holds :: "'r db \<Rightarrow> bytes \<Rightarrow> bytes option" where
  "dc_holds db = opt_contents cache_contents (data_cache db)"

definition dc_fits :: "'r db \<Rightarrow> bytes \<Rightarrow> bytes \<Rightarrow> bool" where
  "dc_fits db k v \<longleftrightarrow> opt_fits (sc_fits fits) (data_cache db) k v"

definition wb_holds :: "'r db \<Rightarrow> bytes \<Rightarrow> bytes option" where
  "wb_holds db k = opt_contents cache_contents (write_buffer db ! log_of k) k"

definition caches_ok :: "nat \<Rightarrow> 'r db \<Rightarrow> bool" where
  "caches_ok N db \<longleftrightarrow> data_cache.ready N (data_cache db) \<and> length (write_buffer db) = LOG_PARTITION \<and>
     (\<forall>i < LOG_PARTITION. write_buf.ready N (write_buffer db ! i) \<and> write_buffer db ! i \<noteq> None)"

definition logs_ok :: "nat \<Rightarrow> 'r db \<Rightarrow> bool" where
  "logs_ok N db \<longleftrightarrow> part_ok (part_size (options db)) \<and> length (vlogs db) = LOG_PARTITION \<and>
     (\<forall>i < LOG_PARTITION. vlog_inv (part_size (options db)) (vlogs db ! i) \<and>
        unat (lba (vlogs db ! i)) + (N + 1) * unat (part_size (options db)) < 2 ^ 63)"

definition index_ok :: "('r \<Rightarrow> bytes \<Rightarrow> bytes option) \<Rightarrow> 'r db \<Rightarrow> bool" where
  "index_ok index db \<longleftrightarrow>
     (\<forall>k m. index (rdb db) k = Some m \<longrightarrow> placed m (key_log db k))"

definition db_inv :: "('r \<Rightarrow> bool) \<Rightarrow> ('r \<Rightarrow> bytes \<Rightarrow> bytes option) \<Rightarrow> nat \<Rightarrow> 'r db \<Rightarrow> bool" where
  "db_inv rinv index N db \<longleftrightarrow> caches_ok N db \<and> logs_ok N db \<and> rinv (rdb db) \<and> index_ok index db"

text \<open>What the caches hold is what the store holds.\<close>

definition coherent :: "('r \<Rightarrow> bytes \<Rightarrow> bytes option) \<Rightarrow> 'r db \<Rightarrow> bool" where
  "coherent index db \<longleftrightarrow>
     (\<forall>k v. dc_holds db k = Some v \<or> wb_holds db k = Some v \<longrightarrow> db_abs index db k = Some v)"

lemma coherentD:
  "coherent index db \<Longrightarrow> dc_holds db k = Some v \<or> wb_holds db k = Some v \<Longrightarrow> db_abs index db k = Some v"
  by (auto simp: coherent_def)

definition full_io :: "env \<Rightarrow> bool" where
  "full_io E \<longleftrightarrow> (\<forall>n. sys E n = Full)"

lemma log_of_part [simp]: "log_of k < LOG_PARTITION"
  by (rule log_of_less)

lemma db_simps [simp]:
  "key_log (db\<lparr>data_cache := c\<rparr>) = key_log db" "key_log (db\<lparr>stats := st\<rparr>) = key_log db"
  "key_log (db\<lparr>write_buffer := w\<rparr>) = key_log db" "key_log (db\<lparr>rdb := r\<rparr>) = key_log db"
  by (simp_all add: key_log_def fun_eq_iff)

lemma logs_ok_cong:
  "options db' = options db \<Longrightarrow> vlogs db' = vlogs db \<Longrightarrow> logs_ok N db' = logs_ok N db"
  by (simp add: logs_ok_def)

lemma logs_okD:
  assumes "logs_ok (Suc N) db" "i < LOG_PARTITION"
  shows "part_ok (part_size (options db))" "vlog_inv (part_size (options db)) (vlogs db ! i)"
    "log_room (part_size (options db)) (vlogs db ! i)"
proof -
  show "part_ok (part_size (options db))" "vlog_inv (part_size (options db)) (vlogs db ! i)"
    using assms by (simp_all add: logs_ok_def)
  have "unat (lba (vlogs db ! i)) + (Suc N + 1) * unat (part_size (options db)) < 2 ^ 63"
    using assms by (simp add: logs_ok_def)
  then show "log_room (part_size (options db)) (vlogs db ! i)"
    by (simp add: log_room_def)
qed

lemma logs_ok_mono: "logs_ok N db \<Longrightarrow> M \<le> N \<Longrightarrow> logs_ok M db"
proof -
  assume *: "logs_ok N db" "M \<le> N"
  have "x + (N + 1) * b < c \<Longrightarrow> x + (M + 1) * b < c" for x b c :: nat
    using *(2) by (meson Suc_le_mono add_le_mono1 add_left_mono le_less_trans mult_le_mono1)
  then show ?thesis using *(1) by (auto simp: logs_ok_def)
qed

lemma caches_ok_mono: "caches_ok N db \<Longrightarrow> M \<le> N \<Longrightarrow> caches_ok M db"
  by (auto simp: caches_ok_def intro: opt_ok_mono)

lemma logs_ok_upd:
  assumes "logs_ok (Suc N) db" "vlog_inv (part_size (options db)) vl" "i < LOG_PARTITION"
    "unat (lba vl) \<le> unat (lba (vlogs db ! i)) + unat (part_size (options db))"
  shows "logs_ok N (db\<lparr>vlogs := (vlogs db)[i := vl], ios := n\<rparr>)"
proof -
  have "unat (lba vl) + (N + 1) * unat (part_size (options db)) < 2 ^ 63"
    using assms(1,3,4) by (force simp: logs_ok_def)
  moreover have "logs_ok N db" using logs_ok_mono [OF assms(1)] by simp
  ultimately show ?thesis
    using assms(2,3) by (auto simp: logs_ok_def nth_list_update)
qed

lemma index_ok_grow:
  assumes "index_ok index db" "\<And>k. grows (key_log db k) (key_log db' k)" "index (rdb db') = index (rdb db)"
  shows "index_ok index db'" "db_abs index db' = db_abs index db"
proof -
  have e: "placed m (key_log db k)" if "index (rdb db) k = Some m" for k m
    using assms(1) that by (simp add: index_ok_def)
  show "index_ok index db'"
    using e assms(2,3) placed_grows unfolding index_ok_def by metis
  show "db_abs index db' = db_abs index db"
  proof
    fix k
    show "db_abs index db' k = db_abs index db k"
      using entry_value_grows [OF e assms(2)] assms(3)
      by (cases "index (rdb db) k") (auto simp: db_abs_def)
  qed
qed

text \<open>Appending to the log of a key and recording the place in the index sets the value of the key.\<close>

lemma index_put_abs:
  assumes "index_ok index db"
    and "log_bytes (key_log db' k) = log_bytes (key_log db k) @ v @ pad"
    and grow: "\<And>j. grows (key_log db j) (key_log db' j)"
    and "unat a = length (log_bytes (key_log db k))" "length v \<le> 4096"
    and "index (rdb db') = (index (rdb db))(k \<mapsto> metaVal a (of_nat (length v)))"
  shows "index_ok index db'" "db_abs index db' = (db_abs index db)(k \<mapsto> v)"
proof -
  have sz: "unat (of_nat (length v) :: u32) = length v"
    using assms(5) by (intro unat_of_nat_small) simp
  note new = placed_new [OF assms(4) sz assms(5,2) grow]
  have e: "placed m (key_log db j)" if "index (rdb db) j = Some m" for j m
    using assms(1) that by (simp add: index_ok_def)
  show "index_ok index db'"
    unfolding index_ok_def
  proof (intro allI impI)
    fix j m assume m: "index (rdb db') j = Some m"
    show "placed m (key_log db' j)"
    proof (cases "j = k")
      case True
      then show ?thesis using m new(1) assms(6) by simp
    next
      case False
      then have "placed m (key_log db j)" using m e assms(6) by simp
      then show ?thesis using grow by (rule placed_grows)
    qed
  qed
  show "db_abs index db' = (db_abs index db)(k \<mapsto> v)"
  proof
    fix j
    show "db_abs index db' j = ((db_abs index db)(k \<mapsto> v)) j"
    proof (cases "j = k")
      case True
      then show ?thesis using new(2) assms(6) by (simp add: db_abs_def)
    next
      case False
      then show ?thesis
        using entry_value_grows [OF e grow] assms(6) by (cases "index (rdb db) j") (auto simp: db_abs_def)
    qed
  qed
qed

lemma Status_not_ok [simp]:
  "Status_IOError a b \<noteq> Status_OK" "Status_NotFound a b \<noteq> Status_OK"
  by (simp_all add: Status_IOError_def Status_NotFound_def Status_make_def Status_OK_def Let_def)

text \<open>The in-memory half of \<open>Put\<close>.\<close>

lemma put_memory:
  assumes ca: "caches_ok (Suc N) db"
  obtains h db1 db2 bh db3 db' where
    "on_cache (insert_cache k v) db = Inr (h, db1)" "on_cache (release_cache_entry h) db1 = Inr ((), db2)"
    "on_buffer (log_of k) (insert_buffer k v) db2 = Inr (bh, db3)"
    "on_buffer (log_of k) (release_buffer_entry bh) db3 = Inr ((), db')"
    "caches_ok N db'" "options db' = options db" "vlogs db' = vlogs db" "rdb db' = rdb db" "ios db' = ios db"
    "fill_rel k v (dc_holds db) (dc_holds db')" "fill_rel k v (wb_holds db) (wb_holds db')"
    "wb_holds db' k \<noteq> None" "data_cache db \<noteq> None \<longrightarrow> dc_holds db' k \<noteq> None"
    "dc_fits db k v \<longrightarrow> dc_holds db k \<noteq> None \<longrightarrow> dc_holds db' k = dc_holds db k"
proof -
  let ?i = "log_of k"
  have r0: "data_cache.ready (Suc N) (data_cache db)" using ca by (simp add: caches_ok_def)
  obtain h d1 c st1 where s1: "on_cache (insert_cache k v) db = Inr (h, d1)"
    "on_cache (release_cache_entry h) d1 = Inr ((), db\<lparr>data_cache := c, stats := st1\<rparr>)" "data_cache.ready N c"
    "fill_rel k v (data_cache.holds (data_cache db)) (data_cache.holds c)"
    "data_cache db \<noteq> None \<longrightarrow> data_cache.holds c k \<noteq> None"
    "opt_fits (sc_fits fits) (data_cache db) k v \<longrightarrow> data_cache.holds (data_cache db) k \<noteq> None \<longrightarrow>
       data_cache.holds c k = data_cache.holds (data_cache db) k"
    by (rule cache_fill [OF r0, of k v]) (rule that)
  let ?db1 = "db\<lparr>data_cache := c, stats := st1\<rparr>"
  have r1: "write_buf.ready (Suc N) (write_buffer ?db1 ! ?i)" "?i < length (write_buffer ?db1)"
    "write_buffer ?db1 ! ?i \<noteq> None"
    using ca by (simp_all add: caches_ok_def)
  obtain bh d3 w st2 where s2: "on_buffer ?i (insert_buffer k v) ?db1 = Inr (bh, d3)"
    "on_buffer ?i (release_buffer_entry bh) d3 = Inr ((), ?db1\<lparr>write_buffer := (write_buffer ?db1)[?i := w], stats := st2\<rparr>)"
    "write_buf.ready N w"
    "fill_rel k v (write_buf.holds (write_buffer ?db1 ! ?i)) (write_buf.holds w)"
    "write_buffer ?db1 ! ?i \<noteq> None \<longrightarrow> write_buf.holds w k \<noteq> None" "w = None \<longleftrightarrow> write_buffer ?db1 ! ?i = None"
    by (rule buffer_fill [OF r1(1,2), of k v]) (rule that)
  let ?db2 = "?db1\<lparr>write_buffer := (write_buffer ?db1)[?i := w], stats := st2\<rparr>"
  have wn: "w \<noteq> None" using s2(6) r1(3) by simp
  show thesis
  proof (rule that [OF s1(1,2) s2(1,2)])
    show "caches_ok N ?db2"
      using caches_ok_mono [OF ca, of N] s1(3) s2(3) wn by (auto simp: caches_ok_def nth_list_update)
    show "fill_rel k v (wb_holds db) (wb_holds ?db2)"
      using s2(4) r1(2) by (auto simp: fill_rel_def wb_holds_def nth_list_update)
    show "wb_holds ?db2 k \<noteq> None" using s2(5) r1(2,3) by (simp add: wb_holds_def)
  qed (use s1 s2 in \<open>simp_all add: dc_holds_def dc_fits_def\<close>)
qed

text \<open>Appending a value of at most a page to the log of a partition.\<close>

lemma wSize_small: "length v \<le> 4096 \<Longrightarrow> unat (wSize v) = length v"
proof -
  assume l: "length v \<le> 4096"
  have "sint (of_nat (length v) :: 32 word) = int (length v)"
    using l by (simp add: signed_of_nat signed_take_bit_int_eq_self)
  then have "wSize v = of_nat (length v)"
    unfolding wSize_def by (metis of_int_of_nat_eq of_int_sint)
  then show ?thesis
    using l unat_of_nat_small [of "length v", where 'a = 64] by simp
qed

lemma log_append:
  assumes lo: "logs_ok (Suc N) db" and io: "full_io E" and i: "i < LOG_PARTITION"
    and w: "unat w = length v" "length v \<le> 4096"
  obtains addr db' pad where "on_log i (append_value E (part_size (options db)) v w) db = Inr (addr, db')"
    "logs_ok N db'" "unat addr = length (log_bytes (vlogs db ! i))"
    "log_bytes (vlogs db' ! i) = log_bytes (vlogs db ! i) @ v @ pad" "grows (vlogs db ! i) (vlogs db' ! i)"
    "\<And>j. j \<noteq> i \<Longrightarrow> vlogs db' ! j = vlogs db ! j" "options db' = options db" "rdb db' = rdb db"
    "data_cache db' = data_cache db" "write_buffer db' = write_buffer db"
proof -
  note D = logs_okD [OF lo i]
  have fl: "sys E (ios db) = Full" using io by (simp add: full_io_def)
  have w': "unat w \<le> length v" "unat w \<le> 4096" using w by simp_all
  obtain addr n vl pad where a: "append_value E (part_size (options db)) v w (ios db) (vlogs db ! i) = Inr (addr, n, vl)"
    "vlog_inv (part_size (options db)) vl" "unat addr = length (log_bytes (vlogs db ! i))"
    "log_bytes vl = log_bytes (vlogs db ! i) @ take (unat w) v @ pad"
    "unat (lba vl) \<le> unat (lba (vlogs db ! i)) + unat (part_size (options db))"
    "log_file vl = log_file (vlogs db ! i) \<or> log_buf_offset vl = 0"
    by (rule append_value_ok [OF D(1,2) w' fl D(3)]) (rule that)
  have len: "i < length (vlogs db)" using lo i by (simp add: logs_ok_def)
  have run: "on_log i (append_value E (part_size (options db)) v w) db =
      Inr (addr, db\<lparr>vlogs := (vlogs db)[i := vl], ios := n\<rparr>)"
    using a(1) by (simp add: on_log_def)
  have "grows (vlogs db ! i) vl" using a(4,6) by (auto simp: grows_def log_bytes_def)
  then show thesis
    using a(4) w len by (intro that [OF run logs_ok_upd [OF lo a(2) i a(5)] a(3)]) simp_all
qed

subsection \<open>Flushing\<close>

text \<open>Partition \<open>i\<close> has its whole log in the file.\<close>

definition flushed :: "vlog \<Rightarrow> bool" where
  "flushed vl \<longleftrightarrow> log_buf_offset vl = 0"

lemma flushed_file: "flushed vl \<Longrightarrow> log_bytes vl = log_file vl"
  by (simp add: flushed_def log_bytes_def)

lemma flush_parts_ok:
  assumes "distinct is" "set is \<subseteq> {..<LOG_PARTITION}" "full_io E"
    "part_ok B" "B = part_size (options db)" "length (vlogs db) = LOG_PARTITION"
    "\<And>i. i < LOG_PARTITION \<Longrightarrow> vlog_inv B (vlogs db ! i)"
    "\<And>i. i \<in> set is \<Longrightarrow> unat (lba (vlogs db ! i)) + K i + unat B < 2 ^ 63"
  shows "\<exists>vls n. flush_parts E is db = Inr ((), db\<lparr>vlogs := vls, ios := n\<rparr>) \<and> length vls = LOG_PARTITION \<and>
    (\<forall>i < LOG_PARTITION. vlog_inv B (vls ! i) \<and> grows (vlogs db ! i) (vls ! i) \<and>
       (i \<notin> set is \<longrightarrow> vls ! i = vlogs db ! i) \<and>
       (i \<in> set is \<longrightarrow> flushed (vls ! i) \<and> unat (lba (vls ! i)) + K i < 2 ^ 63))"
  using assms
proof (induction "is" arbitrary: db)
  case Nil
  then show ?case by (intro exI [of _ "vlogs db"] exI [of _ "ios db"]) simp
next
  case (Cons i "is")
  have i: "i < LOG_PARTITION" "i \<notin> set is" "distinct is" "set is \<subseteq> {..<LOG_PARTITION}"
    using Cons.prems(1,2) by auto
  have room: "log_room B (vlogs db ! i)" using Cons.prems(8) [of i] by (simp add: log_room_def)
  have fl: "sys E (ios db) = Full" using Cons.prems(3) by (simp add: full_io_def)
  obtain n vl pad where f: "flush_part E (ios db) (vlogs db ! i) = Inr (n, vl)" "vlog_inv B vl"
    "log_bytes vl = log_bytes (vlogs db ! i) @ pad" "log_file vl = log_bytes vl" "log_buf_offset vl = 0"
    "unat (lba vl) \<le> unat (lba (vlogs db ! i)) + unat B"
    by (rule flush_part_ok [OF Cons.prems(4) Cons.prems(7) [OF i(1)] fl room]) (rule that)
  let ?db = "db\<lparr>vlogs := (vlogs db)[i := vl], ios := n\<rparr>"
  have run: "on_log i (\<lambda>n vl. rbind (flush_part E n vl) (\<lambda>(n', vl'). Inr ((), n', vl'))) db = Inr ((), ?db)"
    using f(1) by (simp add: on_log_def)
  have nth: "vlogs ?db ! j = (if j = i then vl else vlogs db ! j)" for j
    using i(1) Cons.prems(6) by simp
  have gr: "grows (vlogs db ! i) vl" using f(3,4) by (auto simp: grows_def)
  have ki: "unat (lba vl) + K i < 2 ^ 63" using f(6) Cons.prems(8) [of i] by simp
  have "\<exists>vls n. flush_parts E is ?db = Inr ((), ?db\<lparr>vlogs := vls, ios := n\<rparr>) \<and> length vls = LOG_PARTITION \<and>
    (\<forall>j < LOG_PARTITION. vlog_inv B (vls ! j) \<and> grows (vlogs ?db ! j) (vls ! j) \<and>
       (j \<notin> set is \<longrightarrow> vls ! j = vlogs ?db ! j) \<and>
       (j \<in> set is \<longrightarrow> flushed (vls ! j) \<and> unat (lba (vls ! j)) + K j < 2 ^ 63))"
  proof (rule Cons.IH [OF i(3,4) Cons.prems(3,4)])
    show "\<And>j. j \<in> set is \<Longrightarrow> unat (lba (vlogs ?db ! j)) + K j + unat B < 2 ^ 63"
      using Cons.prems(8) i(2) unfolding nth by auto
    show "\<And>j. j < LOG_PARTITION \<Longrightarrow> vlog_inv B (vlogs ?db ! j)"
      using Cons.prems(7) f(2) unfolding nth by auto
  qed (use Cons.prems(5,6) in simp_all)
  then obtain vls n' where r: "flush_parts E is ?db = Inr ((), ?db\<lparr>vlogs := vls, ios := n'\<rparr>)" "length vls = LOG_PARTITION"
    "\<And>j. j < LOG_PARTITION \<Longrightarrow> vlog_inv B (vls ! j) \<and> grows (vlogs ?db ! j) (vls ! j) \<and>
       (j \<notin> set is \<longrightarrow> vls ! j = vlogs ?db ! j) \<and>
       (j \<in> set is \<longrightarrow> flushed (vls ! j) \<and> unat (lba (vls ! j)) + K j < 2 ^ 63)"
    by blast
  have "flush_parts E (i # is) db = Inr ((), db\<lparr>vlogs := vls, ios := n'\<rparr>)"
    using run r(1) by simp
  moreover have "vlog_inv B (vls ! j) \<and> grows (vlogs db ! j) (vls ! j) \<and>
       (j \<notin> set (i # is) \<longrightarrow> vls ! j = vlogs db ! j) \<and>
       (j \<in> set (i # is) \<longrightarrow> flushed (vls ! j) \<and> unat (lba (vls ! j)) + K j < 2 ^ 63)" if "j < LOG_PARTITION" for j
    using r(3) [OF that] i(2) ki gr f(5) unfolding nth by (cases "j = i") (auto simp: flushed_def)
  ultimately show ?case using r(2) by blast
qed

lemma flushVLog_ok:
  assumes lo: "logs_ok (Suc N) db" and io: "full_io E"
  obtains vls n where "flushVLog E db = Inr ((), db\<lparr>vlogs := vls, ios := n\<rparr>)"
    "logs_ok N (db\<lparr>vlogs := vls, ios := n\<rparr>)" "\<And>i. i < LOG_PARTITION \<Longrightarrow> flushed (vls ! i)"
    "\<And>i. i < LOG_PARTITION \<Longrightarrow> grows (vlogs db ! i) (vls ! i)"
proof -
  let ?B = "part_size (options db)"
  have P: "part_ok ?B" "length (vlogs db) = LOG_PARTITION" "\<And>i. i < LOG_PARTITION \<Longrightarrow> vlog_inv ?B (vlogs db ! i)"
    "\<And>i. i < LOG_PARTITION \<Longrightarrow> unat (lba (vlogs db ! i)) + (N + 1) * unat ?B + unat ?B < 2 ^ 63"
    using lo by (auto simp: logs_ok_def algebra_simps)
  have "set [0..<LOG_PARTITION] \<subseteq> {..<LOG_PARTITION}" by auto
  from flush_parts_ok [OF distinct_upt this io P(1) refl P(2,3), of "\<lambda>_. (N + 1) * unat ?B"] P(4)
  obtain vls n where r: "flush_parts E [0..<LOG_PARTITION] db = Inr ((), db\<lparr>vlogs := vls, ios := n\<rparr>)" "length vls = LOG_PARTITION"
    "\<And>i. i < LOG_PARTITION \<Longrightarrow> vlog_inv ?B (vls ! i) \<and> grows (vlogs db ! i) (vls ! i) \<and>
       flushed (vls ! i) \<and> unat (lba (vls ! i)) + (N + 1) * unat ?B < 2 ^ 63"
    by auto
  show thesis
    by (rule that [where vls = vls and n = n]) (use r P(1) in \<open>auto simp: flushVLog_def logs_ok_def\<close>)
qed

subsection \<open>Reading the log\<close>

lemma read_retry_done: "rret \<noteq> Some 0 \<Longrightarrow> read_retry E m cnt rret buf n vl = Inr (Some buf, n, vl)"
  by (simp add: read_retry.simps)

lemma read_retry_empty:
  assumes "\<And>n. read_log E n (log_file vl) m buf = (Some 0, buf)"
  shows "\<exists>n'. read_retry E m cnt (Some 0) buf n vl = Inr (None, n', vl)"
proof (induction "3 - cnt" arbitrary: cnt n rule: less_induct)
  case less
  then show ?case
    using less [of "cnt + 1" "n + 1"] assms by (subst read_retry.simps) auto
qed

text \<open>
  A value in the file is read back, unless it is empty and nothing at all is read; a value that is only in
  the buffer is not found.
\<close>

lemma get_log_durable:
  assumes e: "entry_in m (length (log_file vl))" and io: "full_io E"
  obtains res n' where "get_log E m n vl = Inr (res, n', vl)" "valSize m \<noteq> 0 \<longrightarrow> res \<noteq> None"
    "\<forall>b. res = Some b \<longrightarrow> value_in_buf m b = Inr (entry_value m (log_file vl))"
proof -
  have fl: "sys E n = Full" for n using io by (simp add: full_io_def)
  obtain buf k buf' where r: "alloc_read_buf E m = Inr buf" "read_log E n (log_file vl) m buf = (Some k, buf')"
    "value_in_buf m buf' = Inr (entry_value m (log_file vl))" "valSize m \<noteq> 0 \<Longrightarrow> k \<noteq> 0"
    using read_back [OF e fl] by metis
  show thesis
  proof (cases "k = 0")
    case False
    then show thesis
      using r e that [of "Some buf'"] by (auto simp: get_log_def entry_in_def read_retry_done)
  next
    case True
    then have z: "chunk (unat (aligned_raddr m)) (unat (rSize m)) (log_file vl) = []" and b: "buf' = buf"
      using r(2) fl by (auto simp: read_log_def pread_def overwrite_def)
    then have "read_log E n (log_file vl) m buf = (Some 0, buf)" for n
      using fl by (simp add: read_log_def pread_def overwrite_def)
    then obtain n' where "read_retry E m 0 (Some 0) buf (n + 1) vl = Inr (None, n', vl)"
      using read_retry_empty by blast
    then show thesis
      using True r e b that [of None] by (auto simp: get_log_def entry_in_def)
  qed
qed

lemma get_log_unflushed:
  assumes e: "entry_in m (length (log_bytes vl))" and inv: "vlog_inv B vl" and io: "full_io E"
    and u: "length (log_file vl) \<le> unat (logOffset m)"
  shows "\<exists>n'. get_log E m n vl = Inr (None, n', vl)"
proof -
  have "unat (rSize m) \<le> 8192" using e rSize_ok(2) by (auto simp: entry_in_def)
  then have "alloc_read_buf E m = Inr (alloc E (unat (rSize m)))" by (simp add: alloc_read_buf_def)
  moreover have r: "read_log E n (log_file vl) m b = (Some 0, b)" for b n
    using inv u io by (intro read_unflushed) (auto simp: full_io_def vlog_inv_def)
  ultimately show ?thesis
    using read_retry_empty [OF r] e by (simp add: get_log_def entry_in_def)
qed

context rocksdb
begin

lemma put_retry_ok:
  assumes "rinv (rdb db)" "index (rdb db) = I(k \<mapsto> m) \<or> s \<noteq> ROk \<and> index (rdb db) = I"
  shows "\<exists>st r. put_retry R k m cnt s db = Inr (st, db\<lparr>rdb := r\<rparr>) \<and> rinv r \<and>
    (index r = I(k \<mapsto> m) \<or> st \<noteq> Status_OK \<and> index r = I) \<and>
    (st = Status_OK \<or> st = Status_IOError [] []) \<and> (s = ROk \<longrightarrow> st = Status_OK)"
  using assms
proof (induction "4 - cnt" arbitrary: cnt s db rule: less_induct)
  case less
  obtain s' r' where p: "rocks_Put R k m (rdb db) = (s', r')" by fastforce
  note law = put_law [OF less.prems(1) p]
  let ?db = "db\<lparr>rdb := r'\<rparr>"
  have run: "on_rdb (rocks_Put R k m) db = Inr (s', ?db)" using p by (rule run_rdb)
  have I: "index (rdb ?db) = I(k \<mapsto> m) \<or> s' \<noteq> ROk \<and> index (rdb ?db) = I"
    using law less.prems(2) by auto
  consider (ok) "s = ROk" | (give_up) "s \<noteq> ROk" "3 \<le> cnt" | (again) "s \<noteq> ROk" "cnt < 3" by linarith
  then show ?case
  proof cases
    case ok
    then show ?thesis
      using less.prems by (intro exI [of _ Status_OK] exI [of _ "rdb db"]) (simp add: put_retry.simps)
  next
    case give_up
    then show ?thesis
      using run law I by (intro exI [of _ "Status_IOError [] []"] exI [of _ r']) (auto simp: put_retry.simps)
  next
    case again
    then have "put_retry R k m cnt s db = put_retry R k m (cnt + 1) s' ?db"
      using run by (simp add: put_retry.simps [of R k m cnt])
    moreover have lt: "4 - (cnt + 1) < 4 - cnt" and rr: "rinv (rdb ?db)"
      using again law by simp_all
    moreover obtain st r where "put_retry R k m (cnt + 1) s' ?db = Inr (st, ?db\<lparr>rdb := r\<rparr>)" "rinv r"
      "index r = I(k \<mapsto> m) \<or> st \<noteq> Status_OK \<and> index r = I" "st = Status_OK \<or> st = Status_IOError [] []"
      using less.hyps [OF lt rr I] by blast
    ultimately show ?thesis
      using again by (intro exI [of _ st] exI [of _ r]) auto
  qed
qed


lemma Put_ok:
  assumes inv: "db_inv rinv index (Suc N) db" and v: "length v \<le> 4096" and io: "full_io E"
  obtains st db' where "DBImpl_Put R E k v db = Inr (st, db')" "db_inv rinv index N db'"
    "db_abs index db' = (db_abs index db)(k \<mapsto> v) \<or> st \<noteq> Status_OK \<and> db_abs index db' = db_abs index db"
    "st = Status_OK \<or> st = Status_IOError [] []"
    "fill_rel k v (dc_holds db) (dc_holds db')" "fill_rel k v (wb_holds db) (wb_holds db')"
    "wb_holds db' k \<noteq> None" "data_cache db \<noteq> None \<longrightarrow> dc_holds db' k \<noteq> None"
    "(\<forall>r k v. rinv r \<longrightarrow> fst (rocks_Put R k v r) = ROk) \<longrightarrow> st = Status_OK"
    "options db' = options db" "\<And>j. grows (key_log db j) (key_log db' j)"
    "\<And>j. j \<noteq> k \<Longrightarrow> index (rdb db') j = index (rdb db) j"
    "dc_fits db k v \<longrightarrow> dc_holds db k \<noteq> None \<longrightarrow> dc_holds db' k = dc_holds db k"
proof -
  have ca: "caches_ok (Suc N) db" and lo: "logs_ok (Suc N) db" and ri: "rinv (rdb db)" and ix: "index_ok index db"
    using inv by (simp_all add: db_inv_def)
  let ?db0 = "db\<lparr>stats := RecordTick REQ_PUT (stats db)\<rparr>"
  have ca0: "caches_ok (Suc N) ?db0" using ca by (simp add: caches_ok_def)
  obtain h d1 d2 bh d3 d4 where m: "on_cache (insert_cache k v) ?db0 = Inr (h, d1)"
    "on_cache (release_cache_entry h) d1 = Inr ((), d2)"
    "on_buffer (log_of k) (insert_buffer k v) d2 = Inr (bh, d3)"
    "on_buffer (log_of k) (release_buffer_entry bh) d3 = Inr ((), d4)"
    "caches_ok N d4" "options d4 = options ?db0" "vlogs d4 = vlogs ?db0" "rdb d4 = rdb ?db0" "ios d4 = ios ?db0"
    "fill_rel k v (dc_holds ?db0) (dc_holds d4)" "fill_rel k v (wb_holds ?db0) (wb_holds d4)"
    "wb_holds d4 k \<noteq> None" "data_cache ?db0 \<noteq> None \<longrightarrow> dc_holds d4 k \<noteq> None"
    "dc_fits ?db0 k v \<longrightarrow> dc_holds ?db0 k \<noteq> None \<longrightarrow> dc_holds d4 k = dc_holds ?db0 k"
    by (rule put_memory [OF ca0, of k v]) (rule that)
  have lo4: "logs_ok (Suc N) d4" using lo m(6,7) by (simp add: logs_ok_def)
  obtain addr d5 pad where a: "on_log (log_of k) (append_value E (part_size (options d4)) v (wSize v)) d4 = Inr (addr, d5)"
    "logs_ok N d5" "unat addr = length (log_bytes (vlogs d4 ! log_of k))"
    "log_bytes (vlogs d5 ! log_of k) = log_bytes (vlogs d4 ! log_of k) @ v @ pad"
    "grows (vlogs d4 ! log_of k) (vlogs d5 ! log_of k)"
    "\<And>j. j \<noteq> log_of k \<Longrightarrow> vlogs d5 ! j = vlogs d4 ! j" "options d5 = options d4" "rdb d5 = rdb d4"
    "data_cache d5 = data_cache d4" "write_buffer d5 = write_buffer d4"
    by (rule log_append [OF lo4 io log_of_part wSize_small [OF v] v, of k]) (rule that)
  let ?m = "metaVal addr (of_nat (length v))"
  obtain s r where p: "rocks_Put R k ?m (rdb d5) = (s, r)" by fastforce
  have law: "rinv r" "index r = (index (rdb d5))(k \<mapsto> ?m) \<or> s \<noteq> ROk \<and> index r = index (rdb d5)"
    using put_law [OF _ p] ri m(8) a(8) by auto
  let ?d6 = "d5\<lparr>rdb := r\<rparr>"
  obtain st r' where q: "put_retry R k ?m 0 s ?d6 = Inr (st, ?d6\<lparr>rdb := r'\<rparr>)" "rinv r'"
    "index r' = (index (rdb d5))(k \<mapsto> ?m) \<or> st \<noteq> Status_OK \<and> index r' = index (rdb d5)"
    "st = Status_OK \<or> st = Status_IOError [] []" "s = ROk \<longrightarrow> st = Status_OK"
    using put_retry_ok [of ?d6 "index (rdb d5)" k ?m s 0] law by auto
  let ?d = "d5\<lparr>rdb := r'\<rparr>"
  have run: "DBImpl_Put R E k v db = Inr (st, ?d)"
    using m(1-4) a(1) p q(1) by (simp add: DBImpl_Put_def Let_def run_rdb)
  have kl: "key_log ?d j = vlogs d5 ! log_of j" "key_log db j = vlogs d4 ! log_of j" for j
    using m(7) by (simp_all add: key_log_def)
  have rd: "rdb d5 = rdb db" using m(8) a(8) by simp
  have gr: "grows (key_log db j) (key_log ?d j)" for j
    using a(5) a(6) [of "log_of j"] kl by (cases "log_of j = log_of k") auto
  have abs: "index_ok index ?d \<and> (db_abs index ?d = (db_abs index db)(k \<mapsto> v) \<or>
      st \<noteq> Status_OK \<and> db_abs index ?d = db_abs index db)"
  proof (cases "index r' = (index (rdb d5))(k \<mapsto> ?m)")
    case True
    then show ?thesis
      using index_put_abs [OF ix _ gr, of k v pad addr] a(3,4) v kl rd by auto
  next
    case False
    then show ?thesis
      using index_ok_grow [OF ix gr] q(3) rd by auto
  qed
  have ca': "caches_ok N ?d" using m(5) a(9,10) by (simp add: caches_ok_def)
  have lo': "logs_ok N ?d" using a(2) by (simp add: logs_ok_def)
  have dc: "dc_holds ?d = dc_holds d4" "wb_holds ?d = wb_holds d4" "dc_holds ?db0 = dc_holds db" "wb_holds ?db0 = wb_holds db"
    using a(9,10) by (simp_all add: dc_holds_def wb_holds_def fun_eq_iff)
  have ok: "st = Status_OK" if "\<forall>r k v. rinv r \<longrightarrow> fst (rocks_Put R k v r) = ROk"
    using q(5) p that ri rd by (metis fst_conv)
  have ixj: "index r' j = index (rdb db) j" if "j \<noteq> k" for j
    using q(3) rd that by auto
  show thesis
    by (rule that [OF run]) (use abs ca' lo' q(2,4) m(6,10-14) a(7) ok gr ixj in \<open>simp_all add: db_inv_def dc dc_fits_def\<close>)
qed


lemma flush_ok:
  assumes inv: "db_inv rinv index (Suc N) db" and io: "full_io E"
  obtains db' where "flushVLog E db = Inr ((), db')" "db_inv rinv index N db'" "db_abs index db' = db_abs index db"
    "\<And>k. flushed (key_log db' k)" "dc_holds db' = dc_holds db" "wb_holds db' = wb_holds db" "rdb db' = rdb db"
    "options db' = options db"
proof -
  have ca: "caches_ok (Suc N) db" and lo: "logs_ok (Suc N) db" and ri: "rinv (rdb db)" and ix: "index_ok index db"
    using inv by (simp_all add: db_inv_def)
  obtain vls n where f: "flushVLog E db = Inr ((), db\<lparr>vlogs := vls, ios := n\<rparr>)"
    "logs_ok N (db\<lparr>vlogs := vls, ios := n\<rparr>)" "\<And>i. i < LOG_PARTITION \<Longrightarrow> flushed (vls ! i)"
    "\<And>i. i < LOG_PARTITION \<Longrightarrow> grows (vlogs db ! i) (vls ! i)"
    using flushVLog_ok [OF lo io] by metis
  let ?d = "db\<lparr>vlogs := vls, ios := n\<rparr>"
  have "grows (key_log db k) (key_log ?d k)" for k
    using f(4) [OF log_of_part, of k] by (simp add: key_log_def)
  note ab = index_ok_grow [OF ix this, simplified]
  have "caches_ok N ?d" using caches_ok_mono [OF ca, of N] by (simp add: caches_ok_def)
  then show thesis
    using ab f ri by (intro that [OF f(1)])
      (simp_all add: db_inv_def key_log_def dc_holds_def wb_holds_def fun_eq_iff)
qed

lemma Delete_ok:
  assumes inv: "db_inv rinv index N db"
  obtains db' where "DBImpl_Delete R e1 e2 k db = Inr (Status_OK, db')" "db_inv rinv index N db'"
    "db_abs index db' = (db_abs index db)(k := None) \<or> db_abs index db' = db_abs index db"
    "(\<forall>r k. rinv r \<longrightarrow> fst (rocks_Delete R k r) = ROk) \<longrightarrow> db_abs index db' = (db_abs index db)(k := None)"
    "dc_holds db' = (dc_holds db)(k := None)" "wb_holds db' = (wb_holds db)(k := None)"
    "vlogs db' = vlogs db" "options db' = options db" "\<And>j. j \<noteq> k \<Longrightarrow> index (rdb db') j = index (rdb db) j"
proof -
  have ca: "caches_ok N db" and lo: "logs_ok N db" and ri: "rinv (rdb db)" and ix: "index_ok index db"
    using inv by (simp_all add: db_inv_def)
  let ?i = "log_of k" and ?st = "RecordTick REQ_DEL (stats db)"
  have r: "data_cache.ready N (data_cache db)" "length (write_buffer db) = LOG_PARTITION"
    "write_buf.ready N (write_buffer db ! ?i)"
    using ca by (simp_all add: caches_ok_def)
  obtain c st1 where c: "erase_cache_entry e1 k (data_cache db, ?st) = Inr ((), (c, st1))" "data_cache.ready N c"
    "data_cache.holds c = (data_cache.holds (data_cache db))(k := None)"
    using data_cache.erase_ok [OF r(1)] unfolding cache_ops by metis
  obtain w st2 where w: "erase_buffer_entry e2 k (write_buffer db ! ?i, st1) = Inr ((), (w, st2))" "write_buf.ready N w"
    "write_buf.holds w = (write_buf.holds (write_buffer db ! ?i))(k := None)" "w = None \<longleftrightarrow> write_buffer db ! ?i = None"
    using write_buf.erase_ok [OF r(3)] unfolding buffer_ops by metis
  obtain s r' where p: "rocks_Delete R k (rdb db) = (s, r')" by fastforce
  have law: "rinv r'" "index r' = (index (rdb db))(k := None) \<or> s \<noteq> ROk \<and> index r' = index (rdb db)"
    using delete_law [OF ri p] by auto
  let ?d = "db\<lparr>data_cache := c, write_buffer := (write_buffer db)[?i := w], rdb := r', stats := st2\<rparr>"
  have run: "DBImpl_Delete R e1 e2 k db = Inr (Status_OK, ?d)"
    using c(1) w(1) p by (simp add: DBImpl_Delete_def Let_def sbind_def on_cache_def on_buffer_def on_rdb_def)
  have kl: "key_log ?d = key_log db" by (simp add: key_log_def fun_eq_iff)
  have sub: "index (rdb db) j = Some m" if "index r' j = Some m" for j m
    using law(2) that by (auto split: if_splits)
  have ix': "index_ok index ?d"
    using ix sub unfolding index_ok_def kl by simp
  have abs: "db_abs index ?d = (if index r' = (index (rdb db))(k := None)
      then (db_abs index db)(k := None) else db_abs index db)"
  proof (cases "index r' = (index (rdb db))(k := None)")
    case True
    then show ?thesis unfolding db_abs_def kl by (simp add: fun_eq_iff)
  next
    case False
    then show ?thesis using law(2) unfolding db_abs_def kl by simp
  qed
  have "write_buffer db ! ?i \<noteq> None" using ca by (simp add: caches_ok_def)
  then have wn: "w \<noteq> None" using w(4) by simp
  have ca': "caches_ok N ?d"
    using ca c(2) w(2) wn by (auto simp: caches_ok_def nth_list_update)
  have dc: "dc_holds ?d = (dc_holds db)(k := None)" using c(3) by (simp add: dc_holds_def)
  have wb: "wb_holds ?d = (wb_holds db)(k := None)"
    using w(3) r(2) by (auto simp: wb_holds_def fun_eq_iff nth_list_update)
  have lo': "logs_ok N ?d" using lo by (simp add: logs_ok_def)
  show thesis
  proof (rule that [OF run])
    show "(\<forall>r k. rinv r \<longrightarrow> fst (rocks_Delete R k r) = ROk) \<longrightarrow> db_abs index ?d = (db_abs index db)(k := None)"
      using abs law(2) p ri by (metis fst_conv)
    show "index (rdb ?d) j = index (rdb db) j" if "j \<noteq> k" for j
      using law(2) that by auto
  qed (use abs ix' ca' lo' law(1) dc wb in \<open>simp_all add: db_inv_def\<close>)
qed


lemma get_retry_ok:
  assumes "rinv (rdb db)" "s = ROk \<longrightarrow> index (rdb db) k = Some rv"
  shows "\<exists>res r. get_retry R k cnt s rv db = Inr (res, db\<lparr>rdb := r\<rparr>) \<and> rinv r \<and> index r = index (rdb db) \<and>
    (\<forall>m. res = Some m \<longrightarrow> index (rdb db) k = Some m) \<and> (s = ROk \<longrightarrow> res = Some rv)"
  using assms
proof (induction "4 - cnt" arbitrary: cnt s rv db rule: less_induct)
  case less
  obtain s' rv' r' where p: "rocks_Get R k (rdb db) = (s', rv', r')" by (cases "rocks_Get R k (rdb db)") auto
  note law = get_law [OF less.prems(1) p]
  let ?db = "db\<lparr>rdb := r'\<rparr>"
  have run: "on_rdb (\<lambda>r. case rocks_Get R k r of (s, v, r') \<Rightarrow> ((s, v), r')) db = Inr ((s', rv'), ?db)"
    using p by (simp add: on_rdb_def)
  consider (ok) "s = ROk" | (give_up) "s \<noteq> ROk" "3 \<le> cnt" | (again) "s \<noteq> ROk" "cnt < 3" by linarith
  then show ?case
  proof cases
    case ok
    then show ?thesis
      using less.prems by (intro exI [of _ "Some rv"] exI [of _ "rdb db"]) (simp add: get_retry.simps)
  next
    case give_up
    then show ?thesis
      using run law by (intro exI [of _ None] exI [of _ r']) (simp add: get_retry.simps)
  next
    case again
    then have e: "get_retry R k cnt s rv db = get_retry R k (cnt + 1) s' rv' ?db"
      using run by (simp add: get_retry.simps [of R k cnt])
    have lt: "4 - (cnt + 1) < 4 - cnt" and rr: "rinv (rdb ?db)" and ix: "s' = ROk \<longrightarrow> index (rdb ?db) k = Some rv'"
      using again law by simp_all
    obtain res r where "get_retry R k (cnt + 1) s' rv' ?db = Inr (res, ?db\<lparr>rdb := r\<rparr>)" "rinv r" "index r = index (rdb ?db)"
      "\<forall>m. res = Some m \<longrightarrow> index (rdb ?db) k = Some m"
      using less.hyps [OF lt rr ix] by blast
    then show ?thesis
      using again law e by (intro exI [of _ res] exI [of _ r]) simp
  qed
qed

end

text \<open>A key is visible when some copy of its value can be read: cached, buffered, or in the log file.\<close>

definition visible :: "('r \<Rightarrow> bytes \<Rightarrow> bytes option) \<Rightarrow> 'r db \<Rightarrow> bytes \<Rightarrow> bool" where
  "visible index db k \<longleftrightarrow> dc_holds db k \<noteq> None \<or> wb_holds db k \<noteq> None \<or>
     (\<exists>m. index (rdb db) k = Some m \<and> entry_in m (length (log_file (key_log db k))) \<and> valSize m \<noteq> 0)"

text \<open>The state after an operation that only touches caches, tickers and counters.\<close>

definition same_store :: "('r \<Rightarrow> bytes \<Rightarrow> bytes option) \<Rightarrow> 'r db \<Rightarrow> 'r db \<Rightarrow> bool" where
  "same_store index db db' \<longleftrightarrow> vlogs db' = vlogs db \<and> options db' = options db \<and> index (rdb db') = index (rdb db)"

lemma same_store_abs:
  assumes "same_store index db db'"
  shows "db_abs index db' = db_abs index db" "index_ok index db' = index_ok index db" "logs_ok N db' = logs_ok N db"
  using assms by (auto simp: same_store_def db_abs_def index_ok_def logs_ok_def key_log_def fun_eq_iff)

lemma same_store_trans: "same_store index a b \<Longrightarrow> same_store index b c \<Longrightarrow> same_store index a c"
  by (simp add: same_store_def)

text \<open>Reading a key through the data cache, and through the write buffer of its partition.\<close>

lemma cache_hit:
  assumes ca: "caches_ok N db" and h: "dc_holds db k = Some v"
  obtains hd mid db' where "on_cache (read_cache k out) db = Inr ((Some hd, out @ v), mid)"
    "on_cache (release_cache_entry (Some hd)) mid = Inr ((), db')" "caches_ok N db'" "same_store index db db'"
    "dc_holds db' = dc_holds db" "wb_holds db' = wb_holds db" "rdb db' = rdb db"
proof -
  have r: "data_cache.ready N (data_cache db)" "data_cache.holds (data_cache db) k = Some v"
    using ca h by (simp_all add: caches_ok_def dc_holds_def)
  let ?st = "RecordTick CACHE_HIT (stats db)"
  obtain hd c1 c2 where c: "read_cache k out (data_cache db, stats db) = Inr ((Some hd, out @ v), (c1, ?st))"
    "\<And>st'. release_cache_entry (Some hd) (c1, st') = Inr ((), (c2, st'))" "data_cache.ready N c2"
    "data_cache.holds c2 = data_cache.holds (data_cache db)"
    using data_cache.read_hit [OF r] unfolding cache_ops by metis
  let ?mid = "db\<lparr>data_cache := c1, stats := ?st\<rparr>" and ?db = "db\<lparr>data_cache := c2, stats := ?st\<rparr>"
  show thesis
    by (rule that [of hd ?mid ?db])
      (use c ca in \<open>simp_all add: on_cache_def caches_ok_def same_store_def dc_holds_def wb_holds_def fun_eq_iff\<close>)
qed

lemma cache_miss:
  assumes ca: "caches_ok N db" and h: "dc_holds db k = None"
  obtains db' where "on_cache (read_cache k out) db = Inr ((None, out), db')" "caches_ok N db'"
    "same_store index db db'" "dc_holds db' = dc_holds db" "wb_holds db' = wb_holds db" "rdb db' = rdb db"
proof -
  have r: "data_cache.ready N (data_cache db)" "data_cache.holds (data_cache db) k = None"
    using ca h by (simp_all add: caches_ok_def dc_holds_def)
  let ?st = "if data_cache db = None then stats db else RecordTick CACHE_MISS (stats db)"
  have "read_cache k out (data_cache db, stats db) = Inr ((None, out), (data_cache db, ?st))"
    unfolding read_cache_def by (rule data_cache.read_miss [OF r])
  then have "on_cache (read_cache k out) db = Inr ((None, out), db\<lparr>stats := ?st\<rparr>)"
    by (simp add: on_cache_def)
  then show thesis
    by (rule that) (use ca in \<open>simp_all add: caches_ok_def same_store_def dc_holds_def wb_holds_def fun_eq_iff\<close>)
qed

lemma buffer_hit:
  assumes ca: "caches_ok N db" and h: "wb_holds db k = Some v"
  obtains hd mid db' where "on_buffer (log_of k) (read_buffer k out) db = Inr ((Some hd, out @ v), mid)"
    "on_buffer (log_of k) (release_buffer_entry (Some hd)) mid = Inr ((), db')" "caches_ok N db'"
    "same_store index db db'" "dc_holds db' = dc_holds db" "wb_holds db' = wb_holds db" "rdb db' = rdb db"
proof -
  let ?i = "log_of k"
  have r: "write_buf.ready N (write_buffer db ! ?i)" "write_buf.holds (write_buffer db ! ?i) k = Some v"
    and len: "?i < length (write_buffer db)"
    using ca h by (simp_all add: caches_ok_def wb_holds_def)
  let ?st = "RecordTick WBUFFER_HIT (stats db)"
  obtain hd c1 c2 where c: "read_buffer k out (write_buffer db ! ?i, stats db) = Inr ((Some hd, out @ v), (c1, ?st))"
    "\<And>st'. release_buffer_entry (Some hd) (c1, st') = Inr ((), (c2, st'))" "write_buf.ready N c2"
    "write_buf.holds c2 = write_buf.holds (write_buffer db ! ?i)"
    using write_buf.read_hit [OF r] unfolding buffer_ops by metis
  have ne: "c2 \<noteq> None" using fun_cong [OF c(4), of k] r(2) by (cases c2) (simp_all add: opt_contents_def)
  let ?mid = "db\<lparr>write_buffer := (write_buffer db)[?i := c1], stats := ?st\<rparr>"
  let ?db = "db\<lparr>write_buffer := (write_buffer db)[?i := c2], stats := ?st\<rparr>"
  have "caches_ok N ?db" using ca c(3) ne by (auto simp: caches_ok_def nth_list_update)
  moreover have "wb_holds ?db = wb_holds db" using c(4) len by (auto simp: wb_holds_def fun_eq_iff nth_list_update)
  ultimately show thesis
    using c(1,2) len by (intro that [of hd ?mid ?db]) (simp_all add: on_buffer_def same_store_def dc_holds_def)
qed

lemma buffer_miss:
  assumes ca: "caches_ok N db" and h: "wb_holds db k = None"
  obtains db' where "on_buffer (log_of k) (read_buffer k out) db = Inr ((None, out), db')" "caches_ok N db'"
    "same_store index db db'" "dc_holds db' = dc_holds db" "wb_holds db' = wb_holds db" "rdb db' = rdb db"
proof -
  let ?i = "log_of k"
  have r: "write_buf.ready N (write_buffer db ! ?i)" "write_buf.holds (write_buffer db ! ?i) k = None"
    using ca h by (simp_all add: caches_ok_def wb_holds_def)
  let ?st = "if write_buffer db ! ?i = None then stats db else RecordTick WBUFFER_MISS (stats db)"
  have "read_buffer k out (write_buffer db ! ?i, stats db) = Inr ((None, out), (write_buffer db ! ?i, ?st))"
    unfolding read_buffer_def by (rule write_buf.read_miss [OF r])
  then have "on_buffer ?i (read_buffer k out) db = Inr ((None, out), db\<lparr>stats := ?st\<rparr>)"
    by (simp add: on_buffer_def)
  then show thesis
    by (rule that) (use ca in \<open>simp_all add: caches_ok_def same_store_def dc_holds_def wb_holds_def fun_eq_iff\<close>)
qed


lemma entry_value_file:
  "entry_in m (length (log_file vl)) \<Longrightarrow> entry_value m (log_file vl) = entry_value m (log_bytes vl)"
  by (simp add: log_bytes_def)

lemma get_from_log_ok:
  assumes ca: "caches_ok (Suc N) db" and lo: "logs_ok N db" and io: "full_io E"
    and m: "placed m (key_log db k)"
  obtains st out db' where "get_from_log E k m [] db = Inr ((st, out), db')" "caches_ok N db'"
    "same_store index db db'" "wb_holds db' = wb_holds db" "rdb db' = rdb db"
    "st = Status_OK \<and> out = entry_value m (log_bytes (key_log db k)) \<and> fill_rel k out (dc_holds db) (dc_holds db') \<or>
     st = Status_NotFound [] [] \<and> out = [] \<and> dc_holds db' = dc_holds db \<and>
       \<not> (entry_in m (length (log_file (key_log db k))) \<and> valSize m \<noteq> 0)"
proof -
  let ?i = "log_of k" and ?vl = "vlogs db ! log_of k"
  have vi: "vlog_inv (part_size (options db)) ?vl" using lo by (simp add: logs_ok_def)
  have kl: "key_log db k = ?vl" by (simp add: key_log_def)
  have id: "(vlogs db)[?i := ?vl] = vlogs db" by simp
  have run: "on_log ?i (get_log E m) db = Inr (res, db\<lparr>ios := n\<rparr>)" if "get_log E m (ios db) ?vl = Inr (res, n, ?vl)" for res n
    using that by (simp add: on_log_def)
  note result = that
  have none: thesis if g: "get_log E m (ios db) ?vl = Inr (None, n, ?vl)"
    and nv: "\<not> (entry_in m (length (log_file ?vl)) \<and> valSize m \<noteq> 0)" for n
  proof (rule result)
    show "get_from_log E k m [] db = Inr ((Status_NotFound [] [], []), db\<lparr>ios := n\<rparr>)"
      using run [OF g] by (simp add: get_from_log_def)
    show "caches_ok N (db\<lparr>ios := n\<rparr>)" using caches_ok_mono [OF ca, of N] by (simp add: caches_ok_def)
  qed (use nv kl in \<open>simp_all add: same_store_def wb_holds_def dc_holds_def fun_eq_iff\<close>)
  show thesis
  proof (cases "entry_in m (length (log_file ?vl))")
    case False
    then have "length (log_file ?vl) \<le> unat (logOffset m)" "entry_in m (length (log_bytes ?vl))"
      using m kl by (auto simp: placed_def)
    then show thesis
      using get_log_unflushed [OF _ vi io] none False by metis
  next
    case True
    obtain res n where g: "get_log E m (ios db) ?vl = Inr (res, n, ?vl)" "valSize m \<noteq> 0 \<longrightarrow> res \<noteq> None"
      "\<forall>b. res = Some b \<longrightarrow> value_in_buf m b = Inr (entry_value m (log_file ?vl))"
      by (rule get_log_durable [OF True io]) (rule that)
    show thesis
    proof (cases res)
      case None
      then show thesis using none g by simp
    next
      case (Some b)
      let ?v = "entry_value m (log_bytes ?vl)" and ?d = "db\<lparr>ios := n\<rparr>"
      have v: "value_in_buf m b = Inr ?v" using g(3) Some entry_value_file [OF True] by simp
      have ca1: "data_cache.ready (Suc N) (data_cache ?d)" using ca by (simp add: caches_ok_def)
      obtain h mid c st where f: "on_cache (insert_cache k ?v) ?d = Inr (h, mid)"
        "on_cache (release_cache_entry h) mid = Inr ((), ?d\<lparr>data_cache := c, stats := st\<rparr>)" "data_cache.ready N c"
        "fill_rel k ?v (data_cache.holds (data_cache ?d)) (data_cache.holds c)"
        by (rule cache_fill [OF ca1, of k ?v]) (rule that)
      show thesis
      proof (rule result)
        show "get_from_log E k m [] db = Inr ((Status_OK, ?v), ?d\<lparr>data_cache := c, stats := st\<rparr>)"
          using run [OF g(1)] Some v f(1,2) by (simp add: get_from_log_def)
        show "caches_ok N (?d\<lparr>data_cache := c, stats := st\<rparr>)"
          using caches_ok_mono [OF ca, of N] f(3) by (simp add: caches_ok_def)
      qed (use f(4) kl in \<open>simp_all add: same_store_def wb_holds_def dc_holds_def fun_eq_iff\<close>)
    qed
  qed
qed


text \<open>
  What \<open>Get\<close> gives for an empty output string: a success returns the first of the cached, the buffered
  and the stored value, a failure is \<open>NotFound\<close>; without RocksDB errors it means that the key has no value
  or that no copy of it is visible.
\<close>

definition get_source :: "('r \<Rightarrow> bytes \<Rightarrow> bytes option) \<Rightarrow> 'r db \<Rightarrow> bytes \<Rightarrow> bytes option" where
  "get_source index db k =
     (case dc_holds db k of
        Some v \<Rightarrow> Some v
      | None \<Rightarrow>
          (case db_abs index db k of
             None \<Rightarrow> None
           | Some v \<Rightarrow> (case wb_holds db k of Some w \<Rightarrow> Some w | None \<Rightarrow> Some v)))"

lemma get_source_coherent: "coherent index db \<Longrightarrow> get_source index db = db_abs index db"
  by (auto simp: get_source_def coherent_def fun_eq_iff split: option.splits)

definition get_spec :: "('r \<Rightarrow> bytes \<Rightarrow> bytes option) \<Rightarrow> 'r db \<Rightarrow> bytes \<Rightarrow> bool \<Rightarrow> Status \<Rightarrow> bytes \<Rightarrow> bool" where
  "get_spec index db k rocks_fine st out \<longleftrightarrow>
     (st = Status_OK \<and> get_source index db k = Some out) \<or>
     (st = Status_NotFound [] [] \<and> out = [] \<and>
      (rocks_fine \<longrightarrow> db_abs index db k = None \<or> \<not> visible index db k))"

context rocksdb
begin

definition get_fine :: bool where
  "get_fine \<longleftrightarrow> (\<forall>r k. rinv r \<longrightarrow> fst (rocks_Get R k r) \<noteq> RError)"

lemma Get_miss:
  assumes inv: "db_inv rinv index (Suc N) db" and io: "full_io E"
    and miss: "dc_holds db k = None"
  shows "\<exists>st out db'. DBImpl_Get R E k [] db = Inr ((st, out), db') \<and> caches_ok N db' \<and> rinv (rdb db') \<and>
    same_store index db db' \<and> wb_holds db' = wb_holds db \<and> get_spec index db k get_fine st out \<and>
    (dc_holds db' = dc_holds db \<or> (\<exists>v. db_abs index db k = Some v \<and> fill_rel k v (dc_holds db) (dc_holds db')))"
proof -
  have ca: "caches_ok (Suc N) db" and lo: "logs_ok (Suc N) db" and ri: "rinv (rdb db)" and ix: "index_ok index db"
    using inv by (simp_all add: db_inv_def)
  let ?db0 = "db\<lparr>stats := RecordTick REQ_GET (stats db)\<rparr>"
  have ca0: "caches_ok (Suc N) ?db0" "dc_holds ?db0 k = None" using ca miss by (simp_all add: caches_ok_def dc_holds_def)
  obtain d1 where d1: "on_cache (read_cache k []) ?db0 = Inr ((None, []), d1)" "caches_ok (Suc N) d1"
    "same_store index ?db0 d1" "dc_holds d1 = dc_holds ?db0" "wb_holds d1 = wb_holds ?db0" "rdb d1 = rdb ?db0"
    by (rule cache_miss [OF ca0, of "[]" index]) (rule that)
  have st1: "same_store index db d1" using d1(3) by (simp add: same_store_def)
  have h1: "dc_holds d1 = dc_holds db" "wb_holds d1 = wb_holds db" "rdb d1 = rdb db"
    using d1(4-6) by (simp_all add: dc_holds_def wb_holds_def fun_eq_iff)
  obtain s rv r where g: "rocks_Get R k (rdb db) = (s, rv, r)" by (cases "rocks_Get R k (rdb db)") auto
  note law = get_law [OF ri g]
  let ?d2 = "d1\<lparr>rdb := r\<rparr>"
  have st2: "same_store index db ?d2" using st1 law h1 by (simp add: same_store_def)
  have run2: "on_rdb (\<lambda>r. case rocks_Get R k r of (s, v, r') \<Rightarrow> ((s, v), r')) d1 = Inr ((s, rv), ?d2)"
    using g h1 by (simp add: on_rdb_def)
  have ca2: "caches_ok (Suc N) ?d2" using d1(2) by (simp add: caches_ok_def)
  show ?thesis
  proof (cases "s = RNotFound")
    case True
    let ?d = "?d2\<lparr>stats := RecordTick REQ_GET_NOEXIST (stats ?d2)\<rparr>"
    have "DBImpl_Get R E k [] db = Inr ((Status_NotFound [] [], []), ?d)"
      using d1(1) run2 True by (simp add: DBImpl_Get_def Let_def)
    moreover have "caches_ok N ?d" using caches_ok_mono [OF ca2, of N] by (simp add: caches_ok_def)
    moreover have "db_abs index db k = None" using law True by (simp add: db_abs_def)
    ultimately show ?thesis
      using st2 law h1 by (intro exI conjI)
        (assumption | simp add: same_store_def dc_holds_def wb_holds_def fun_eq_iff get_spec_def)+
  next
    case False
    have r2: "rinv (rdb ?d2)" "s = ROk \<longrightarrow> index (rdb ?d2) k = Some rv" using law by simp_all
    obtain res r3 where q: "get_retry R k 0 s rv ?d2 = Inr (res, ?d2\<lparr>rdb := r3\<rparr>)" "rinv r3" "index r3 = index (rdb ?d2)"
      "\<forall>m. res = Some m \<longrightarrow> index (rdb ?d2) k = Some m" "s = ROk \<longrightarrow> res = Some rv"
      using get_retry_ok [OF r2] by metis
    let ?d3 = "d1\<lparr>rdb := r3\<rparr>"
    have st3: "same_store index db ?d3" using st1 law h1 q(3) by (simp add: same_store_def)
    have ca3: "caches_ok (Suc N) ?d3" using d1(2) by (simp add: caches_ok_def)
    have h3: "dc_holds ?d3 = dc_holds db" "wb_holds ?d3 = wb_holds db"
      using h1 by (simp_all add: dc_holds_def wb_holds_def fun_eq_iff)
    show ?thesis
    proof (cases res)
      case None
      have "DBImpl_Get R E k [] db = Inr ((Status_NotFound [] [], []), ?d3)"
        using d1(1) run2 False q(1) None by (simp add: DBImpl_Get_def Let_def)
      moreover have "\<not> get_fine"
        using q(5) None False g ri unfolding get_fine_def by (metis fst_conv option.distinct(1) rstatus.exhaust)
      ultimately show ?thesis
        using caches_ok_mono [OF ca3, of N] st3 h3 q(2) by (intro exI conjI) (assumption | simp add: get_spec_def)+
    next
      case (Some m)
      have im: "index (rdb db) k = Some m" using q(4) Some law by simp
      have pm: "placed m (key_log db k)" using ix im by (simp add: index_ok_def)
      have av: "db_abs index db k = Some (entry_value m (log_bytes (key_log db k)))"
        using im by (simp add: db_abs_def)
      show ?thesis
      proof (cases "wb_holds db k")
        case (Some v)
        then have "wb_holds ?d3 k = Some v" by (simp add: h3)
        from buffer_hit [OF ca3 this, of "[]" index]
        obtain hd mid d5 where b: "on_buffer (log_of k) (read_buffer k []) ?d3 = Inr ((Some hd, [] @ v), mid)"
          "on_buffer (log_of k) (release_buffer_entry (Some hd)) mid = Inr ((), d5)" "caches_ok (Suc N) d5"
          "same_store index ?d3 d5" "dc_holds d5 = dc_holds ?d3" "wb_holds d5 = wb_holds ?d3" "rdb d5 = rdb ?d3"
          by metis
        have "DBImpl_Get R E k [] db = Inr ((Status_OK, v), d5)"
          using d1(1) run2 False q(1) \<open>res = Some m\<close> b(1,2) by (simp add: DBImpl_Get_def Let_def)
        moreover have "get_source index db k = Some v" using miss Some av by (simp add: get_source_def)
        ultimately show ?thesis
          using caches_ok_mono [OF b(3), of N] same_store_trans [OF st3 b(4)] b(5-7) h3 q(2)
          by (intro exI conjI) (assumption | simp add: get_spec_def)+
      next
        case None
        then have "wb_holds ?d3 k = None" by (simp add: h3)
        from buffer_miss [OF ca3 this, of "[]" index]
        obtain d4 where b: "on_buffer (log_of k) (read_buffer k []) ?d3 = Inr ((None, []), d4)" "caches_ok (Suc N) d4"
          "same_store index ?d3 d4" "dc_holds d4 = dc_holds ?d3" "wb_holds d4 = wb_holds ?d3" "rdb d4 = rdb ?d3"
          by metis
        have st4: "same_store index db d4" by (rule same_store_trans [OF st3 b(3)])
        have k4: "key_log d4 = key_log db" using st4 by (simp add: same_store_def key_log_def fun_eq_iff)
        have lo4: "logs_ok N d4" using same_store_abs(3) [OF st4] logs_ok_mono [OF lo, of N] by simp
        have pm4: "placed m (key_log d4 k)" using pm k4 by simp
        obtain st out d6 where f: "get_from_log E k m [] d4 = Inr ((st, out), d6)" "caches_ok N d6"
          "same_store index d4 d6" "wb_holds d6 = wb_holds d4" "rdb d6 = rdb d4"
          "st = Status_OK \<and> out = entry_value m (log_bytes (key_log d4 k)) \<and> fill_rel k out (dc_holds d4) (dc_holds d6) \<or>
           st = Status_NotFound [] [] \<and> out = [] \<and> dc_holds d6 = dc_holds d4 \<and>
             \<not> (entry_in m (length (log_file (key_log d4 k))) \<and> valSize m \<noteq> 0)"
          by (rule get_from_log_ok [OF b(2) lo4 io pm4, of index]) (rule that)
        have run: "DBImpl_Get R E k [] db = Inr ((st, out), d6)"
          using d1(1) run2 False q(1) \<open>res = Some m\<close> b(1) f(1) by (simp add: DBImpl_Get_def Let_def)
        have spec: "get_spec index db k get_fine st out"
          using f(6) av k4 miss None im by (auto simp: get_spec_def get_source_def visible_def)
        have dc: "dc_holds d6 = dc_holds db \<or> (\<exists>v. db_abs index db k = Some v \<and> fill_rel k v (dc_holds db) (dc_holds d6))"
          using f(6) av k4 b(4) h3(1) by auto
        show ?thesis
          using run f(2) same_store_trans [OF st4 f(3)] f(4,5) b(5,6) h3(2) q(2) spec dc
          by (intro exI conjI) (assumption | simp)+
      qed
    qed
  qed
qed


lemma Get_ok:
  assumes inv: "db_inv rinv index (Suc N) db" and io: "full_io E"
  obtains st out db' where "DBImpl_Get R E k [] db = Inr ((st, out), db')" "db_inv rinv index N db'"
    "same_store index db db'" "wb_holds db' = wb_holds db" "get_spec index db k get_fine st out"
    "dc_holds db' = dc_holds db \<or> (\<exists>v. db_abs index db k = Some v \<and> fill_rel k v (dc_holds db) (dc_holds db'))"
proof -
  have ca: "caches_ok (Suc N) db" and lo: "logs_ok (Suc N) db" and ri: "rinv (rdb db)" and ix: "index_ok index db"
    using inv by (simp_all add: db_inv_def)
  have keep: "db_inv rinv index N db'" if "caches_ok N db'" "rinv (rdb db')" "same_store index db db'" for db'
    using that ix logs_ok_mono [OF lo, of N] same_store_abs [OF that(3)] by (simp add: db_inv_def)
  show thesis
  proof (cases "dc_holds db k")
    case None
    then show thesis using Get_miss [OF inv io None] keep that by metis
  next
    case (Some v)
    let ?db0 = "db\<lparr>stats := RecordTick REQ_GET (stats db)\<rparr>"
    have c0: "caches_ok (Suc N) ?db0" "dc_holds ?db0 k = Some v" using ca Some by (simp_all add: caches_ok_def dc_holds_def)
    obtain hd mid d1 where h: "on_cache (read_cache k []) ?db0 = Inr ((Some hd, [] @ v), mid)"
      "on_cache (release_cache_entry (Some hd)) mid = Inr ((), d1)" "caches_ok (Suc N) d1" "same_store index ?db0 d1"
      "dc_holds d1 = dc_holds ?db0" "wb_holds d1 = wb_holds ?db0" "rdb d1 = rdb ?db0"
      by (rule cache_hit [OF c0, of "[]" index]) (rule that)
    have eq: "same_store index db d1" "dc_holds d1 = dc_holds db" "wb_holds d1 = wb_holds db" "rdb d1 = rdb db"
      using h(4-7) by (simp_all add: same_store_def dc_holds_def wb_holds_def fun_eq_iff)
    have run: "DBImpl_Get R E k [] db = Inr ((Status_OK, v), d1)"
      using h(1,2) by (simp add: DBImpl_Get_def)
    have sp: "get_spec index db k get_fine Status_OK v" using Some by (simp add: get_spec_def get_source_def)
    have d1: "db_inv rinv index N d1" using keep [of d1] caches_ok_mono [OF h(3), of N] ri eq by simp
    show thesis by (rule that [OF run d1 eq(1,3) sp]) (simp add: eq(2))
  qed
qed

lemma Get_coherent:
  assumes inv: "db_inv rinv index (Suc N) db" and co: "coherent index db" and io: "full_io E"
  obtains st out db' where "DBImpl_Get R E k [] db = Inr ((st, out), db')" "db_inv rinv index N db'"
    "same_store index db db'" "coherent index db'"
    "st = Status_OK \<and> db_abs index db k = Some out \<or>
     st = Status_NotFound [] [] \<and> out = [] \<and> (get_fine \<longrightarrow> db_abs index db k = None \<or> \<not> visible index db k)"
proof -
  obtain st out db' where g: "DBImpl_Get R E k [] db = Inr ((st, out), db')" "db_inv rinv index N db'"
    "same_store index db db'" "wb_holds db' = wb_holds db" "get_spec index db k get_fine st out"
    "dc_holds db' = dc_holds db \<or> (\<exists>v. db_abs index db k = Some v \<and> fill_rel k v (dc_holds db) (dc_holds db'))"
    by (rule Get_ok [OF inv io, of k]) (rule that)
  have "db_abs index db j = Some w" if "dc_holds db' j = Some w" for j w
  proof -
    have "dc_holds db j = Some w \<or> db_abs index db j = Some w"
      using g(6) that by (cases "j = k") (auto simp: fill_rel_def)
    then show ?thesis using coherentD [OF co] by blast
  qed
  then have "coherent index db'"
    using co g(4) same_store_abs(1) [OF g(3)] by (auto simp: coherent_def)
  then show thesis
    using g(5) by (intro that [OF g(1-3)]) (auto simp: get_spec_def get_source_coherent [OF co])
qed

end


text \<open>When writes keep the caches coherent: a \<open>Put\<close> of a key that no cache holds with another value.\<close>

lemma coherent_put:
  assumes co: "coherent index db" and abs: "db_abs index db' = (db_abs index db)(k \<mapsto> v)"
    and "fill_rel k v (dc_holds db) (dc_holds db')" "fill_rel k v (wb_holds db) (wb_holds db')"
    and fresh: "db_abs index db k = None \<or> db_abs index db k = Some v"
  shows "coherent index db'"
  unfolding coherent_def abs
proof (intro allI impI)
  fix j w assume h: "dc_holds db' j = Some w \<or> wb_holds db' j = Some w"
  show "((db_abs index db)(k \<mapsto> v)) j = Some w"
  proof (cases "j = k")
    case True
    have "dc_holds db k = Some w \<Longrightarrow> w = v" "wb_holds db k = Some w \<Longrightarrow> w = v"
      using co fresh by (auto simp: coherent_def)
    then show ?thesis using h True assms(3,4) by (auto simp: fill_rel_def)
  next
    case False
    then have "dc_holds db j = Some w \<or> wb_holds db j = Some w"
      using h assms(3,4) by (auto simp: fill_rel_def)
    then show ?thesis using coherentD [OF co, of j w] False by simp
  qed
qed

lemma coherent_erase:
  assumes "coherent index db" "dc_holds db' = (dc_holds db)(k := None)" "wb_holds db' = (wb_holds db)(k := None)"
    "db_abs index db' = (db_abs index db)(k := None) \<or> db_abs index db' = db_abs index db"
  shows "coherent index db'"
  using assms by (auto simp: coherent_def split: if_splits)


subsection \<open>Opening and closing\<close>

text \<open>The log file of a partition as \<open>Open\<close> finds it, and what the index says about it.\<close>

definition file_bytes :: "bytes option \<Rightarrow> bytes" where
  "file_bytes f = (case f of None \<Rightarrow> [] | Some d \<Rightarrow> d)"

definition files_ok :: "nat \<Rightarrow> Options \<Rightarrow> bytes option list \<Rightarrow> bool" where
  "files_ok N opts files \<longleftrightarrow> part_ok (part_size opts) \<and> length files = LOG_PARTITION \<and> N < 2 ^ 30 \<and>
     (\<forall>i < LOG_PARTITION. 4096 dvd length (file_bytes (files ! i)) \<and>
        length (file_bytes (files ! i)) + (N + 1) * unat (part_size opts) < 2 ^ 63)"

lemma open_log_inv:
  assumes "part_ok (part_size opts)" "4096 dvd length (file_bytes f)" "length (file_bytes f) < 2 ^ 63"
  shows "vlog_inv (part_size opts) (open_log E opts f)" "log_bytes (open_log E opts f) = file_bytes f"
    "log_file (open_log E opts f) = file_bytes f" "unat (lba (open_log E opts f)) = length (file_bytes f)"
proof -
  have "unat (of_nat (length (file_bytes f)) :: u64) = length (file_bytes f)"
    using assms(3) by (intro unat_of_nat_small) simp
  then show l: "unat (lba (open_log E opts f)) = length (file_bytes f)"
    by (cases f) (simp_all add: open_log_def file_bytes_def)
  have "logBufSize opts \<noteq> 0"
    using assms(1) by (auto simp: part_ok_def part_size_def)
  then have "logBufSize opts > 0" by (simp add: word_neq_0_conv)
  then show "vlog_inv (part_size opts) (open_log E opts f)"
    using l assms(1,2) by (simp add: vlog_inv_def) (auto simp: open_log_def alloc_def part_ok_def file_bytes_def)
  show "log_bytes (open_log E opts f) = file_bytes f" "log_file (open_log E opts f) = file_bytes f"
    by (simp_all add: open_log_def log_bytes_def file_bytes_def)
qed

lemma write_buffer_new_ok:
  assumes "N < 2 ^ 30"
  obtains wb where "write_buffer_new opts = Inr (Some wb)" "write_buf.ready N (Some wb)"
    "write_buf.holds (Some wb) = Map.empty"
proof -
  obtain s :: byte_cache where "NewFIFOCache (unat (logBufSize opts div of_nat LOG_PARTITION * 2 + 16384)) 2 = Inr (Some s)"
    "fifo_shard.sharded.rest s" "sc_load load s = 0" "cache_contents s = Map.empty"
    by (rule NewFIFOCache_ok [of 2 "unat (logBufSize opts div of_nat LOG_PARTITION * 2 + 16384)"]) (simp, rule that)
  then show thesis
    using assms that [of s] by (simp add: write_buffer_new_def opt_ok_def opt_contents_def fun_eq_iff handle_reads
        fifo_shard.sharded.rest_def fifo_shard.sharded.quiet_def write_buf.rest_def write_buf.quiet_def)
qed

lemma data_cache_new_ok:
  assumes "N < 2 ^ 30"
  obtains dc where "data_cache_new opts = Inr dc" "data_cache.ready N dc" "data_cache.holds dc = Map.empty"
    "dc \<noteq> None \<longleftrightarrow> dataCacheSize opts > 0"
proof (cases "dataCacheSize opts > 0")
  case False
  then show thesis
    using that [of None] by (simp add: data_cache_new_def opt_ok_def opt_contents_def fun_eq_iff)
next
  case True
  obtain s :: byte_cache where "NewLRUCache (unat (push_bit 20 (of_int (dataCacheSize opts) :: u64))) (-1) = Inr (Some s)"
    "lru_shard.sharded.rest s" "sc_load load s = 0" "cache_contents s = Map.empty"
    by (rule NewLRUCache_ok [of "-1" "unat (push_bit 20 (of_int (dataCacheSize opts) :: u64))"]) (simp, rule that)
  then show thesis
    using True assms that [of "Some s"] by (simp add: data_cache_new_def opt_ok_def opt_contents_def fun_eq_iff handle_reads
        lru_shard.sharded.rest_def lru_shard.sharded.quiet_def data_cache.rest_def data_cache.quiet_def)
qed

lemma DBImpl_new_ok:
  assumes f: "files_ok N opts files" and st: "statistics opts = Some ts" and r: "rinv r"
    and e: "\<And>k m. index r k = Some m \<Longrightarrow> entry_in m (length (file_bytes (files ! log_of k)))"
  obtains db where "DBImpl_new E opts files r = Inr db" "db_inv rinv index N db" "coherent index db"
    "db_abs index db = (\<lambda>k. map_option (\<lambda>m. entry_value m (file_bytes (files ! log_of k))) (index r k))"
    "options db = opts" "stats db = Some ts" "rdb db = r" "\<And>k. flushed (key_log db k)"
    "data_cache db \<noteq> None \<longleftrightarrow> dataCacheSize opts > 0"
proof -
  have N: "N < 2 ^ 30" using f by (simp add: files_ok_def)
  obtain wb where wb: "write_buffer_new opts = Inr (Some wb)" "write_buf.ready N (Some wb)"
    "write_buf.holds (Some wb) = Map.empty"
    by (rule write_buffer_new_ok [OF N]) (rule that)
  obtain dc where dc: "data_cache_new opts = Inr dc" "data_cache.ready N dc" "data_cache.holds dc = Map.empty"
    "dc \<noteq> None \<longleftrightarrow> dataCacheSize opts > 0"
    by (rule data_cache_new_ok [OF N]) (rule that)
  let ?db = "\<lparr>options = opts, rdb = r, vlogs = map (open_log E opts) files,
    write_buffer = replicate LOG_PARTITION (Some wb), data_cache = dc, stats = Some ts, ios = 0\<rparr>"
  have run: "DBImpl_new E opts files r = Inr ?db"
    using wb(1) dc(1) st by (simp add: DBImpl_new_def)
  have P: "part_ok (part_size opts)" "length files = LOG_PARTITION"
    using f by (simp_all add: files_ok_def)
  have F: "4096 dvd length (file_bytes (files ! i))"
    "length (file_bytes (files ! i)) + (N + 1) * unat (part_size opts) < 2 ^ 63" if "i < LOG_PARTITION" for i
    using f that by (auto simp: files_ok_def)
  have F': "length (file_bytes (files ! i)) < 2 ^ 63" if "i < LOG_PARTITION" for i
    using F(2) [OF that] by simp
  note ol = open_log_inv [OF P(1) F(1) F']
  have kl: "key_log ?db k = open_log E opts (files ! log_of k)" for k
    using P(2) by (simp add: key_log_def)
  have "logs_ok N ?db"
    unfolding logs_ok_def using P F ol by simp
  moreover have "caches_ok N ?db"
    using wb(2) dc(2) by (simp add: caches_ok_def)
  moreover have "index_ok index ?db"
    unfolding index_ok_def kl placed_def using e ol by simp
  ultimately have "db_inv rinv index N ?db"
    using r by (simp add: db_inv_def)
  moreover have "coherent index ?db"
    using wb(3) dc(3) by (simp add: coherent_def dc_holds_def wb_holds_def)
  moreover have "db_abs index ?db = (\<lambda>k. map_option (\<lambda>m. entry_value m (file_bytes (files ! log_of k))) (index r k))"
    unfolding db_abs_def kl using ol by simp
  moreover have "flushed (key_log ?db k)" for k
    unfolding kl by (simp add: flushed_def open_log_def)
  ultimately show thesis
    using that [OF run] dc(4) by simp
qed

text \<open>Closing the store and opening it again.\<close>

lemma db_inv_mono: "db_inv rinv index N db \<Longrightarrow> M \<le> N \<Longrightarrow> db_inv rinv index M db"
  by (auto simp: db_inv_def intro: caches_ok_mono logs_ok_mono)

lemma db_inv_files:
  assumes "db_inv rinv index N db"
  shows "files_ok N (options db) (map (\<lambda>vl. Some (log_file vl)) (vlogs db))"
proof -
  have "write_buf.ready N (write_buffer db ! 0)" "write_buffer db ! 0 \<noteq> None"
    using assms by (simp_all add: db_inv_def caches_ok_def LOG_PARTITION_def)
  then have "N < 2 ^ 30" by (auto simp: opt_ok_def)
  then show ?thesis
    using assms by (simp add: db_inv_def files_ok_def logs_ok_def vlog_inv_def file_bytes_def)
qed

context rocksdb
begin

lemma reopen_ok:
  assumes inv: "db_inv rinv index (Suc N) db" and io: "full_io E" and st: "statistics (options db) = Some ts"
  obtains files r db' where "DBImpl_delete E db = Inr (files, r)" "DBImpl_new E (options db) files r = Inr db'"
    "db_inv rinv index N db'" "coherent index db'" "db_abs index db' = db_abs index db"
    "\<And>k. flushed (key_log db' k)" "options db' = options db"
proof -
  obtain d where d: "flushVLog E db = Inr ((), d)" "db_inv rinv index N d" "db_abs index d = db_abs index db"
    "\<And>k. flushed (key_log d k)" "options d = options db"
    by (rule flush_ok [OF inv io]) (rule that)
  let ?fs = "map (\<lambda>vl. Some (log_file vl)) (vlogs d)"
  have close: "DBImpl_delete E db = Inr (?fs, rdb d)"
    using d(1) by (simp add: DBImpl_delete_def)
  have len: "log_of k < length (vlogs d)" for k
    using d(2) by (simp add: db_inv_def logs_ok_def)
  have fb: "file_bytes (?fs ! log_of k) = log_bytes (key_log d k)" for k
    using flushed_file [OF d(4), of k] len [of k] by (simp add: file_bytes_def key_log_def)
  have e: "entry_in m (length (file_bytes (?fs ! log_of k)))" if "index (rdb d) k = Some m" for k m
    using d(2) that unfolding fb by (simp add: db_inv_def index_ok_def placed_def)
  have f: "files_ok N (options db) ?fs" using db_inv_files [OF d(2)] d(5) by simp
  have ri: "rinv (rdb d)" using d(2) by (simp add: db_inv_def)
  obtain db' where n: "DBImpl_new E (options db) ?fs (rdb d) = Inr db'" "db_inv rinv index N db'" "coherent index db'"
    "db_abs index db' = (\<lambda>k. map_option (\<lambda>m. entry_value m (file_bytes (?fs ! log_of k))) (index (rdb d) k))"
    "options db' = options db" "\<And>k. flushed (key_log db' k)"
    by (rule DBImpl_new_ok [where E = E and rinv = rinv and index = index and r = "rdb d", OF f st ri e])
      (assumption, rule that)
  have "db_abs index db' = db_abs index db"
    unfolding n(4) fb d(3) [symmetric] by (simp add: db_abs_def fun_eq_iff)
  then show thesis using that [OF close n(1-3)] n(5,6) by simp
qed

end

end
