(* ===== verification/GC.thy ===== *)
theory GC
  imports DB
begin

text \<open>
  Value log garbage collection of src/db_impl.cc: \<open>vLogGCWorker\<close> and \<open>vLogGarbageCollect\<close>. The old logs
  are renamed and the live values are copied to new logs by worker threads, one partition at a
  time. A worker handles its range of the key list item by item; an item takes two steps that
  other workers see: copying the value into the shared log buffer under \<open>logM_\<close>, and writing the
  new index record. A schedule lists which worker makes the next step; when it is used up the
  workers that are not done finish one after the other, as \<open>join\<close> waits for them.
\<close>

record worker =
  todo :: "(bytes \<times> bytes) list"
  pend :: "(bytes \<times> bytes) option"

text \<open>Reading a value from the old log and appending it to the new one. The result of \<open>pread\<close> is not used.\<close>

definition gc_copy :: "env \<Rightarrow> u64 \<Rightarrow> bytes \<Rightarrow> bytes \<Rightarrow> nat \<Rightarrow> vlog \<Rightarrow> (u64 \<times> nat \<times> vlog) res" where
  "gc_copy E B old m n vl =
     (if length m < 12 then Inl Over_Read
      else rbind (alloc_read_buf E m) (\<lambda>buf.
        let (rret, buf') = read_log E n old m buf
        in rbind (value_in_buf m buf') (\<lambda>validVal.
             append_value E B validVal (ucast (valSize m)) (n + 1) vl)))"

text \<open>The body of the loop of \<open>vLogGCWorker\<close>, in two steps.\<close>

definition worker_step :: "'r rocks \<Rightarrow> env \<Rightarrow> nat \<Rightarrow> bytes \<Rightarrow> worker \<Rightarrow> ('r db, worker) op" where
  "worker_step R E p old w db =
     (case pend w of
        Some (ukey, m) \<Rightarrow> sbind (on_rdb (rocks_Put R ukey m)) (\<lambda>s. ret (w\<lparr>pend := None\<rparr>)) db
      | None \<Rightarrow>
          (case todo w of
             [] \<Rightarrow> ret w db
           | (ukey, m) # rest \<Rightarrow>
               sbind (on_log p (gc_copy E (part_size (options db)) old m)) (\<lambda>lba.
                 ret \<lparr>todo = rest, pend = Some (ukey, metaVal lba (valSize m))\<rparr>) db))"

definition vLogGCWorker :: "(bytes \<times> bytes) list \<Rightarrow> nat \<Rightarrow> nat \<Rightarrow> worker" where
  "vLogGCWorker items idx sz = \<lparr>todo = chunk idx sz items, pend = None\<rparr>"

primrec gc_sched :: "'r rocks \<Rightarrow> env \<Rightarrow> nat \<Rightarrow> bytes \<Rightarrow> nat list \<Rightarrow> worker list \<Rightarrow> ('r db, worker list) op" where
  "gc_sched R E p old [] ws = ret ws"
| "gc_sched R E p old (i # is) ws =
     (if i < length ws
      then sbind (worker_step R E p old (ws ! i)) (\<lambda>w. gc_sched R E p old is (ws[i := w]))
      else gc_sched R E p old is ws)"

definition steps_left :: "worker \<Rightarrow> nat" where
  "steps_left w = 2 * length (todo w) + (if pend w = None then 0 else 1)"

definition join_sched :: "worker list \<Rightarrow> nat list" where
  "join_sched ws = concat (map (\<lambda>i. replicate (steps_left (ws ! i)) i) [0..<length ws])"

text \<open>How the keys of a partition are split among the workers: start index and number of keys.\<close>

fun gc_jobs :: "nat \<Rightarrow> nat \<Rightarrow> nat \<Rightarrow> nat \<Rightarrow> (nat \<times> nat) list" where
  "gc_jobs job_size 0 remain start = []"
| "gc_jobs job_size (Suc i) remain start =
     (let jSize = (if i = 0 then remain else job_size)
      in (start, jSize) # gc_jobs job_size i (remain - jSize) (start + jSize))"

definition job_split :: "nat \<Rightarrow> nat \<Rightarrow> (nat \<times> nat) list" where
  "job_split workers n = gc_jobs (n div workers) workers n 0"

definition gc_partition :: "'r rocks \<Rightarrow> env \<Rightarrow> nat \<Rightarrow> nat \<Rightarrow> bytes \<Rightarrow> (bytes \<times> bytes) list \<Rightarrow> nat list \<Rightarrow>
    ('r db, unit) op" where
  "gc_partition R E workers p old items sched =
     sbind (gc_sched R E p old sched (map (\<lambda>(idx, sz). vLogGCWorker items idx sz)
         (job_split workers (length items)))) (\<lambda>ws.
     sbind (gc_sched R E p old (join_sched ws) ws) (\<lambda>_. ret ()))"

primrec gc_partitions :: "'r rocks \<Rightarrow> env \<Rightarrow> nat \<Rightarrow> bytes list \<Rightarrow> (bytes \<times> bytes) list \<Rightarrow> (nat \<Rightarrow> nat list) \<Rightarrow>
    nat list \<Rightarrow> ('r db, unit) op" where
  "gc_partitions R E workers olds es sched [] = ret ()"
| "gc_partitions R E workers olds es sched (p # ps) =
     sbind (gc_partition R E workers p (olds ! p) (filter (\<lambda>e. log_of (fst e) = p) es) (sched p))
       (\<lambda>_. gc_partitions R E workers olds es sched ps)"

definition new_logs :: "('r db, unit) op" where
  "new_logs db = Inr ((), db\<lparr>vlogs := map (\<lambda>vl. vl\<lparr>log_file := [], lba := 0\<rparr>) (vlogs db)\<rparr>)"

definition rebuild_caches :: "('r db, unit) op" where
  "rebuild_caches db =
     rbind (write_buffer_new (options db)) (\<lambda>wb.
     rbind (data_cache_new (options db)) (\<lambda>dc.
     Inr ((), db\<lparr>write_buffer := replicate LOG_PARTITION wb, data_cache := dc\<rparr>)))"

text \<open>
  With no worker the division by \<open>gc_worker_num\<close> traps; with a negative number the allocation of
  the thread array before it fails, which ends in the same fault here.
\<close>

definition vLogGarbageCollect :: "'r rocks \<Rightarrow> env \<Rightarrow> (nat \<Rightarrow> nat list) \<Rightarrow> ('r db, unit) op" where
  "vLogGarbageCollect R E sched =
     sbind (flushVLog E) (\<lambda>_ db.
       let olds = map log_file (vlogs db);
           es = rocks_entries R (rdb db)
       in sbind new_logs (\<lambda>_ db.
            if GCWorkerThreads (options db) \<le> 0 then Inl Div_By_Zero
            else sbind (gc_partitions R E (nat (GCWorkerThreads (options db))) olds es sched [0..<LOG_PARTITION]) (\<lambda>_.
                 sbind (flushVLog E) (\<lambda>_. rebuild_caches)) db) db)"

subsection \<open>The split of the work\<close>

text \<open>The ranges of the workers cover the key list exactly once, in order.\<close>

lemma gc_jobs_cover:
  assumes "w * js \<le> remain" "w > 0"
  shows "concat (map (\<lambda>(idx, sz). [idx..<idx + sz]) (gc_jobs js w remain start)) = [start..<start + remain]"
  using assms
proof (induction js w remain start rule: gc_jobs.induct)
  case (2 js i remain start)
  show ?case
  proof (cases "i = 0")
    case True
    then show ?thesis by simp
  next
    case False
    then have "js \<le> remain" "i * js \<le> remain - js" "i > 0" using 2(2) by auto
    moreover from this have "[start..<start + js] @ [start + js..<start + js + (remain - js)] = [start..<start + remain]"
      using upt_add_eq_append [of start "start + js" "remain - js"] by simp
    ultimately show ?thesis
      using 2(1) [OF refl] False by (simp add: Let_def)
  qed
qed simp

lemma job_split_cover:
  "w > 0 \<Longrightarrow> concat (map (\<lambda>(idx, sz). [idx..<idx + sz]) (job_split w n)) = [0..<n]"
  using gc_jobs_cover [of w "n div w" n 0] by (simp add: job_split_def)

lemma length_job_split: "length (job_split w n) = w"
proof -
  have "length (gc_jobs js w r st) = w" for js r st
    by (induction js w r st rule: gc_jobs.induct) (simp_all add: Let_def)
  then show ?thesis by (simp add: job_split_def)
qed

lemma job_split_items:
  assumes "w > 0"
  shows "concat (map (\<lambda>(idx, sz). chunk idx sz xs) (job_split w (length xs))) = xs"
proof -
  have sub: "chunk i s xs = map ((!) xs) [i..<i + s]" if "(i, s) \<in> set (job_split w (length xs))" for i s
  proof -
    have "set [i..<i + s] \<subseteq> set (concat (map (\<lambda>(idx, sz). [idx..<idx + sz]) (job_split w (length xs))))"
      using that by (force simp del: set_upt)
    then have "set [i..<i + s] \<subseteq> {0..<length xs}" using job_split_cover [OF assms] by (simp del: set_upt) auto
    then have "s = 0 \<or> i + s \<le> length xs"
      by (cases s) (auto simp: subset_iff)
    then show ?thesis
      by (auto simp: chunk_def intro!: nth_equalityI)
  qed
  let ?J = "job_split w (length xs)"
  have "map (\<lambda>(idx, sz). chunk idx sz xs) ?J = map (map ((!) xs)) (map (\<lambda>(idx, sz). [idx..<idx + sz]) ?J)"
    unfolding map_map using sub by (intro map_cong) auto
  then have "concat (map (\<lambda>(idx, sz). chunk idx sz xs) ?J) = map ((!) xs) (concat (map (\<lambda>(idx, sz). [idx..<idx + sz]) ?J))"
    by (simp only: map_concat)
  then show ?thesis
    using job_split_cover [OF assms] by (simp add: map_nth)
qed

subsection \<open>The invariant of the workers\<close>

text \<open>The keys a worker still has to do: those of its list and the one whose index record is not written.\<close>

definition open_keys :: "worker \<Rightarrow> bytes list" where
  "open_keys w = (case pend w of None \<Rightarrow> [] | Some (k, m) \<Rightarrow> [k]) @ map fst (todo w)"

abbreviation all_open :: "worker list \<Rightarrow> bytes list" where
  "all_open ws \<equiv> concat (map open_keys ws)"

abbreviation all_todo :: "worker list \<Rightarrow> (bytes \<times> bytes) list" where
  "all_todo ws \<equiv> concat (map todo ws)"

text \<open>A record of the new log that stands for the value \<open>v\<close>.\<close>

definition moved :: "vlog \<Rightarrow> bytes \<Rightarrow> bytes \<Rightarrow> bool" where
  "moved vl m v \<longleftrightarrow> placed m vl \<and> entry_value m (log_bytes vl) = v"

lemma moved_grows: "moved vl m v \<Longrightarrow> grows vl vl' \<Longrightarrow> moved vl' m v"
  unfolding moved_def using placed_grows [of m vl vl'] entry_value_grows [of m vl vl'] by simp

text \<open>
  While the workers of partition \<open>p\<close> run: \<open>K\<close> are the keys of the partition, \<open>V\<close> their values, \<open>I\<close>
  the index at the start, and \<open>N\<close> writes are left when all is done.
\<close>

definition gc_inv :: "('r \<Rightarrow> bool) \<Rightarrow> ('r \<Rightarrow> bytes \<Rightarrow> bytes option) \<Rightarrow> nat \<Rightarrow> bytes \<Rightarrow> (bytes \<Rightarrow> bytes) \<Rightarrow> bytes set \<Rightarrow>
    (bytes \<Rightarrow> bytes option) \<Rightarrow> nat \<Rightarrow> worker list \<Rightarrow> 'r db \<Rightarrow> bool" where
  "gc_inv rinv index p old V K I N ws db \<longleftrightarrow>
     logs_ok (N + length (all_todo ws)) db \<and> rinv (rdb db) \<and>
     distinct (all_open ws) \<and> set (all_open ws) \<subseteq> K \<and>
     (\<forall>w \<in> set ws. \<forall>(k, m) \<in> set (todo w). entry_in m (length old) \<and> entry_value m old = V k) \<and>
     (\<forall>w \<in> set ws. \<forall>k m. pend w = Some (k, m) \<longrightarrow> moved (vlogs db ! p) m (V k)) \<and>
     (\<forall>k \<in> K - set (all_open ws). \<exists>m. index (rdb db) k = Some m \<and> moved (vlogs db ! p) m (V k)) \<and>
     (\<forall>k. k \<notin> K \<longrightarrow> index (rdb db) k = I k)"

text \<open>What the workers of a partition do not change.\<close>

definition gc_frame :: "nat \<Rightarrow> 'r db \<Rightarrow> 'r db \<Rightarrow> bool" where
  "gc_frame p db db' \<longleftrightarrow> options db' = options db \<and> data_cache db' = data_cache db \<and>
     write_buffer db' = write_buffer db \<and> (\<forall>j. j \<noteq> p \<longrightarrow> vlogs db' ! j = vlogs db ! j)"

lemma gc_frame_refl [simp]: "gc_frame p db db"
  by (simp add: gc_frame_def)

lemma gc_frame_trans: "gc_frame p a b \<Longrightarrow> gc_frame p b c \<Longrightarrow> gc_frame p a c"
  by (simp add: gc_frame_def)

lemma gc_copy_append:
  assumes e: "entry_in m (length old)" and io: "full_io E"
  shows "gc_copy E B old m n vl = append_value E B (entry_value m old) (ucast (valSize m)) (n + 1) vl"
proof -
  have fl: "sys E n = Full" using io by (simp add: full_io_def)
  obtain buf k buf' where r: "alloc_read_buf E m = Inr buf" "read_log E n old m buf = (Some k, buf')"
    "value_in_buf m buf' = Inr (entry_value m old)"
    using read_back [OF e fl] by metis
  then show ?thesis using e by (simp add: gc_copy_def entry_in_def)
qed

lemma gc_copy_ok:
  assumes e: "entry_in m (length old)" and io: "full_io E" and lo: "logs_ok (Suc N) db" and p: "p < LOG_PARTITION"
  obtains addr db' where "on_log p (gc_copy E (part_size (options db)) old m) db = Inr (addr, db')"
    "logs_ok N db'" "moved (vlogs db' ! p) (metaVal addr (valSize m)) (entry_value m old)"
    "grows (vlogs db ! p) (vlogs db' ! p)" "gc_frame p db db'" "rdb db' = rdb db"
proof -
  let ?v = "entry_value m old" and ?w = "ucast (valSize m) :: u64" and ?db = "db\<lparr>ios := ios db + 1\<rparr>"
  have len: "unat (valSize m) = length ?v" "length ?v \<le> 4096"
    using e by (simp_all add: entry_in_def entry_value_def)
  have w: "unat ?w = length ?v"
    using len unsigned_less [of "valSize m", where 'a = nat] by (simp add: unsigned_ucast_eq take_bit_nat_eq_self)
  have lo': "logs_ok (Suc N) ?db" using lo by (simp add: logs_ok_def)
  obtain addr db' pad where a: "on_log p (append_value E (part_size (options ?db)) ?v ?w) ?db = Inr (addr, db')"
    "logs_ok N db'" "unat addr = length (log_bytes (vlogs ?db ! p))"
    "log_bytes (vlogs db' ! p) = log_bytes (vlogs ?db ! p) @ ?v @ pad" "grows (vlogs ?db ! p) (vlogs db' ! p)"
    "\<And>j. j \<noteq> p \<Longrightarrow> vlogs db' ! j = vlogs ?db ! j" "options db' = options ?db" "rdb db' = rdb ?db"
    "data_cache db' = data_cache ?db" "write_buffer db' = write_buffer ?db"
    by (rule log_append [OF lo' io p w len(2)]) (rule that)
  have run: "on_log p (gc_copy E (part_size (options db)) old m) db = Inr (addr, db')"
    using a(1) by (simp add: on_log_def gc_copy_append [OF e io])
  have "moved (vlogs db' ! p) (metaVal addr (valSize m)) ?v"
    using placed_new [OF a(3) len(1,2) a(4,5)] by (simp add: moved_def)
  then show thesis
    using a(2,5-10) by (intro that [OF run]) (simp_all add: gc_frame_def)
qed

lemma gc_invD:
  assumes "gc_inv rinv index p old V K I N ws db"
  shows "logs_ok (N + length (all_todo ws)) db" "rinv (rdb db)" "distinct (all_open ws)" "set (all_open ws) \<subseteq> K"
    "\<And>w k m. w \<in> set ws \<Longrightarrow> (k, m) \<in> set (todo w) \<Longrightarrow> entry_in m (length old) \<and> entry_value m old = V k"
    "\<And>w k m. w \<in> set ws \<Longrightarrow> pend w = Some (k, m) \<Longrightarrow> moved (vlogs db ! p) m (V k)"
    "\<And>k. k \<in> K \<Longrightarrow> k \<notin> set (all_open ws) \<Longrightarrow> \<exists>m. index (rdb db) k = Some m \<and> moved (vlogs db ! p) m (V k)"
    "\<And>k. k \<notin> K \<Longrightarrow> index (rdb db) k = I k"
  using assms unfolding gc_inv_def by (blast | fast)+

lemma gc_invI:
  assumes "logs_ok (N + length (all_todo ws)) db" "rinv (rdb db)" "distinct (all_open ws)" "set (all_open ws) \<subseteq> K"
    "\<And>w k m. w \<in> set ws \<Longrightarrow> (k, m) \<in> set (todo w) \<Longrightarrow> entry_in m (length old) \<and> entry_value m old = V k"
    "\<And>w k m. w \<in> set ws \<Longrightarrow> pend w = Some (k, m) \<Longrightarrow> moved (vlogs db ! p) m (V k)"
    "\<And>k. k \<in> K \<Longrightarrow> k \<notin> set (all_open ws) \<Longrightarrow> \<exists>m. index (rdb db) k = Some m \<and> moved (vlogs db ! p) m (V k)"
    "\<And>k. k \<notin> K \<Longrightarrow> index (rdb db) k = I k"
  shows "gc_inv rinv index p old V K I N ws db"
  unfolding gc_inv_def by (use assms in \<open>intro conjI; blast\<close>)

context rocksdb_ok
begin

lemma worker_put:
  assumes inv: "gc_inv rinv index p old V K I N (A @ w # C) db" and w: "pend w = Some (k, m)"
  obtains db' where "worker_step R E p old w db = Inr (w\<lparr>pend := None\<rparr>, db')"
    "gc_inv rinv index p old V K I N (A @ w\<lparr>pend := None\<rparr> # C) db'" "gc_frame p db db'"
proof -
  note D = gc_invD [OF inv]
  obtain r' where r: "rocks_Put R k m (rdb db) = (ROk, r')" "rinv r'" "index r' = (index (rdb db))(k \<mapsto> m)"
    using put_index [OF D(2)] by metis
  let ?db = "db\<lparr>rdb := r'\<rparr>" and ?w = "w\<lparr>pend := None\<rparr>"
  have run: "worker_step R E p old w db = Inr (?w, ?db)"
    using w r(1) by (simp add: worker_step_def on_rdb_def sbind_def ret_def)
  have o: "open_keys w = k # open_keys ?w" using w by (simp add: open_keys_def)
  have k: "k \<in> K" "k \<notin> set (all_open (A @ ?w # C))" "moved (vlogs db ! p) m (V k)"
    using D(3,4) D(6) [of w] w by (auto simp: o)
  have "gc_inv rinv index p old V K I N (A @ ?w # C) ?db"
  proof (rule gc_invI)
    fix j assume j: "j \<in> K" "j \<notin> set (all_open (A @ ?w # C))"
    show "\<exists>m. index (rdb ?db) j = Some m \<and> moved (vlogs ?db ! p) m (V j)"
    proof (cases "j = k")
      case False
      then have "j \<notin> set (all_open (A @ w # C))" using j by (simp add: o)
      then show ?thesis using D(7) [OF j(1)] False r(3) by simp
    qed (use k(3) r(3) in simp)
  next
    show "logs_ok (N + length (all_todo (A @ ?w # C))) ?db"
      using D(1) by (simp add: logs_ok_def)
    show "distinct (all_open (A @ ?w # C))" "set (all_open (A @ ?w # C)) \<subseteq> K"
      using D(3,4) by (simp_all add: o)
    show "index (rdb ?db) j = I j" if "j \<notin> K" for j
      using D(8) [OF that] k(1) r(3) that by auto
    show "moved (vlogs ?db ! p) n (V j)" if "w' \<in> set (A @ ?w # C)" "pend w' = Some (j, n)" for w' j n
      using D(6) [of w'] that by auto
    show "entry_in n (length old) \<and> entry_value n old = V j"
      if "w' \<in> set (A @ ?w # C)" "(j, n) \<in> set (todo w')" for w' j n
      using D(5) [of w'] D(5) [of w] that by auto
  qed (use r(2) in simp)
  then show thesis
    by (intro that [OF run]) (simp_all add: gc_frame_def)
qed

lemma worker_copy:
  assumes inv: "gc_inv rinv index p old V K I N (A @ w # C) db" and w: "pend w = None" "todo w = (k, m) # xs"
    and io: "full_io E" and p: "p < LOG_PARTITION"
  obtains w' db' where "worker_step R E p old w db = Inr (w', db')" "steps_left w' = steps_left w - 1"
    "gc_inv rinv index p old V K I N (A @ w' # C) db'" "gc_frame p db db'"
proof -
  note D = gc_invD [OF inv]
  let ?n = "N + length (all_todo A @ xs @ all_todo C)"
  have lo: "logs_ok (Suc ?n) db" and e: "entry_in m (length old)" "entry_value m old = V k"
    using D(1) D(5) [of w k m] w by simp_all
  obtain addr db' where c: "on_log p (gc_copy E (part_size (options db)) old m) db = Inr (addr, db')"
    "logs_ok ?n db'" "moved (vlogs db' ! p) (metaVal addr (valSize m)) (entry_value m old)"
    "grows (vlogs db ! p) (vlogs db' ! p)" "gc_frame p db db'" "rdb db' = rdb db"
    by (rule gc_copy_ok [OF e(1) io lo p]) (rule that)
  let ?w = "\<lparr>todo = xs, pend = Some (k, metaVal addr (valSize m))\<rparr>"
  have run: "worker_step R E p old w db = Inr (?w, db')"
    using w c(1) by (simp add: worker_step_def)
  have o: "open_keys ?w = open_keys w" using w by (simp add: open_keys_def)
  have "gc_inv rinv index p old V K I N (A @ ?w # C) db'"
  proof (rule gc_invI)
    show "moved (vlogs db' ! p) n (V j)" if "w' \<in> set (A @ ?w # C)" "pend w' = Some (j, n)" for w' j n
    proof (cases "w' = ?w")
      case False
      then have "w' \<in> set (A @ w # C)" using that by simp
      from moved_grows [OF D(6) [OF this that(2)] c(4)] show ?thesis .
    qed (use that c(3) e(2) in simp)
    show "\<exists>m. index (rdb db') j = Some m \<and> moved (vlogs db' ! p) m (V j)"
      if "j \<in> K" "j \<notin> set (all_open (A @ ?w # C))" for j
      using D(7) [of j] that c(6) moved_grows [OF _ c(4)] by (simp only: o map_append list.map) metis
    show "logs_ok (N + length (all_todo (A @ ?w # C))) db'"
      using c(2) by simp
    show "rinv (rdb db')" using D(2) c(6) by simp
    show "distinct (all_open (A @ ?w # C))" "set (all_open (A @ ?w # C)) \<subseteq> K"
      using D(3,4) by (simp_all only: o map_append list.map)
    show "index (rdb db') j = I j" if "j \<notin> K" for j
      using D(8) [OF that] c(6) by simp
    show "entry_in n (length old) \<and> entry_value n old = V j"
      if "w' \<in> set (A @ ?w # C)" "(j, n) \<in> set (todo w')" for w' j n
    proof (cases "w' = ?w")
      case True
      then show ?thesis using that(2) w(2) by (intro D(5) [of w]) simp_all
    next
      case False
      then show ?thesis using that by (intro D(5) [of w']) auto
    qed
  qed
  moreover have "steps_left ?w = steps_left w - 1" using w by (simp add: steps_left_def)
  ultimately show thesis
    using c(5) by (intro that [OF run]) simp_all
qed

lemma worker_ok:
  assumes inv: "gc_inv rinv index p old V K I N (A @ w # C) db" and io: "full_io E" and p: "p < LOG_PARTITION"
  obtains w' db' where "worker_step R E p old w db = Inr (w', db')" "steps_left w' = steps_left w - 1"
    "gc_inv rinv index p old V K I N (A @ w' # C) db'" "gc_frame p db db'"
proof (cases "pend w")
  case None
  show thesis
  proof (cases "todo w")
    case Nil
    then show thesis
      using None inv that [of w db] by (simp add: worker_step_def steps_left_def)
  next
    case (Cons x xs)
    then obtain k m where "todo w = (k, m) # xs" by (cases x) simp
    then show thesis by (rule worker_copy [OF inv None _ io p]) (rule that)
  qed
next
  case (Some x)
  then obtain k m where w: "pend w = Some (k, m)" by (cases x) simp
  show thesis
    by (rule worker_put [OF inv w, of E]) (rule that, assumption, simp_all add: steps_left_def w)
qed

text \<open>Any schedule keeps the invariant, and brings every worker as many steps nearer to its end as it names it.\<close>

lemma gc_sched_ok:
  assumes "gc_inv rinv index p old V K I N ws db" and io: "full_io E" and p: "p < LOG_PARTITION"
  shows "\<exists>ws' db'. gc_sched R E p old is ws db = Inr (ws', db') \<and> gc_inv rinv index p old V K I N ws' db' \<and>
    gc_frame p db db' \<and> length ws' = length ws \<and>
    (\<forall>j < length ws. steps_left (ws' ! j) = steps_left (ws ! j) - count_list is j)"
  using assms(1)
proof (induction "is" arbitrary: ws db)
  case Nil
  then show ?case by auto
next
  case (Cons i "is")
  show ?case
  proof (cases "i < length ws")
    case False
    then show ?thesis using Cons.IH [OF Cons.prems] by auto
  next
    case True
    note split = id_take_nth_drop [OF True]
    have inv: "gc_inv rinv index p old V K I N (take i ws @ ws ! i # drop (Suc i) ws) db"
      using Cons.prems split by simp
    obtain w db1 where w: "worker_step R E p old (ws ! i) db = Inr (w, db1)" "steps_left w = steps_left (ws ! i) - 1"
      "gc_inv rinv index p old V K I N (take i ws @ w # drop (Suc i) ws) db1" "gc_frame p db db1"
      by (rule worker_ok [OF inv io p]) (rule that)
    have inv1: "gc_inv rinv index p old V K I N (ws[i := w]) db1"
      using w(3) True by (simp add: upd_conv_take_nth_drop)
    obtain ws' db' where r: "gc_sched R E p old is (ws[i := w]) db1 = Inr (ws', db')"
      "gc_inv rinv index p old V K I N ws' db'" "gc_frame p db1 db'" "length ws' = length ws"
      "\<forall>j < length ws. steps_left (ws' ! j) = steps_left (ws[i := w] ! j) - count_list is j"
      using Cons.IH [OF inv1] by auto
    have "gc_sched R E p old (i # is) ws db = Inr (ws', db')"
      using True w(1) r(1) by simp
    moreover have "\<forall>j < length ws. steps_left (ws' ! j) = steps_left (ws ! j) - count_list (i # is) j"
      using r(5) w(2) True by (auto simp: nth_list_update)
    ultimately show ?thesis
      using r(2,4) gc_frame_trans [OF w(4) r(3)] by blast
  qed
qed

end

lemma count_join: "j < n \<Longrightarrow> count_list (concat (map (\<lambda>i. replicate (f i) i) [0..<n])) j = f j"
proof -
  have rep: "count_list (replicate m i) j = (if i = j then m else 0)" for m i
    by (induction m) auto
  have "count_list (concat (map (\<lambda>i. replicate (f i) i) [0..<n])) j = (if j < n then f j else 0)"
    by (induction n) (auto simp: rep count_list_append)
  then show "j < n \<Longrightarrow> ?thesis" by simp
qed

lemma workers_done:
  assumes "\<forall>j < length ws. steps_left (ws ! j) = 0"
  shows "all_open ws = []" "all_todo ws = []"
proof -
  have "pend w = None \<and> todo w = []" if "w \<in> set ws" for w
  proof -
    have "steps_left w = 0" using assms that by (auto simp: in_set_conv_nth)
    then show ?thesis by (simp add: steps_left_def split: if_splits)
  qed
  then show "all_open ws = []" "all_todo ws = []" by (simp_all add: open_keys_def)
qed

context rocksdb_ok
begin

lemma gc_partition_ok:
  assumes lo: "logs_ok (N + length items) db" and ri: "rinv (rdb db)" and io: "full_io E" and p: "p < LOG_PARTITION"
    and d: "distinct (map fst items)" and w: "workers > 0"
    and old: "\<And>k m. (k, m) \<in> set items \<Longrightarrow> entry_in m (length old) \<and> entry_value m old = V k"
  obtains db' where "gc_partition R E workers p old items sched db = Inr ((), db')" "logs_ok N db'" "rinv (rdb db')"
    "gc_frame p db db'" "\<And>k. k \<notin> fst ` set items \<Longrightarrow> index (rdb db') k = index (rdb db) k"
    "\<And>k. k \<in> fst ` set items \<Longrightarrow> \<exists>m. index (rdb db') k = Some m \<and> moved (vlogs db' ! p) m (V k)"
proof -
  let ?ws = "map (\<lambda>(idx, sz). vLogGCWorker items idx sz) (job_split workers (length items))"
  let ?K = "fst ` set items" and ?I = "index (rdb db)"
  have todos: "all_todo ?ws = items"
    using job_split_items [OF w, of items] by (simp add: vLogGCWorker_def case_prod_unfold comp_def)
  have np: "pend v = None" if "v \<in> set ?ws" for v using that by (auto simp: vLogGCWorker_def)
  then have "map open_keys ?ws = map (\<lambda>v. map fst (todo v)) ?ws"
    by (intro map_cong) (simp_all add: open_keys_def)
  then have "all_open ?ws = map fst (all_todo ?ws)" by (simp only: map_concat map_map comp_def)
  then have opens: "all_open ?ws = map fst items" by (simp only: todos)
  have start: "gc_inv rinv index p old V ?K ?I N ?ws db"
  proof (rule gc_invI)
    show "entry_in m (length old) \<and> entry_value m old = V k" if "v \<in> set ?ws" "(k, m) \<in> set (todo v)" for v k m
    proof (rule old)
      have "(k, m) \<in> set (all_todo ?ws)"
        unfolding set_concat using that by (intro UN_I [of "todo v"]) (auto simp only: list.set_map)
      then show "(k, m) \<in> set items" by (simp only: todos)
    qed
  qed (use lo ri d np in \<open>simp_all only: opens todos list.set_map, simp_all\<close>)
  obtain ws1 db1 where r1: "gc_sched R E p old sched ?ws db = Inr (ws1, db1)" "gc_inv rinv index p old V ?K ?I N ws1 db1"
    "gc_frame p db db1"
    using gc_sched_ok [OF start io p] by blast
  obtain ws2 db2 where r2: "gc_sched R E p old (join_sched ws1) ws1 db1 = Inr (ws2, db2)"
    "gc_inv rinv index p old V ?K ?I N ws2 db2" "gc_frame p db1 db2" "length ws2 = length ws1"
    "\<forall>j < length ws1. steps_left (ws2 ! j) = steps_left (ws1 ! j) - count_list (join_sched ws1) j"
    using gc_sched_ok [OF r1(2) io p] by blast
  have "\<forall>j < length ws2. steps_left (ws2 ! j) = 0"
    using r2(4,5) by (simp add: join_sched_def count_join)
  note fin = workers_done [OF this]
  note D = gc_invD [OF r2(2), unfolded fin]
  have run: "gc_partition R E workers p old items sched db = Inr ((), db2)"
    using r1(1) r2(1) by (simp add: gc_partition_def)
  show thesis
    by (rule that [OF run]) (use D gc_frame_trans [OF r1(3) r2(3)] in simp_all)
qed

end

subsection \<open>All partitions\<close>

text \<open>
  Which keys have their new record: those of the partitions in \<open>S\<close>. \<open>I\<close> is the index at the start and
  \<open>V\<close> gives the values.
\<close>

definition gc_done :: "('r \<Rightarrow> bytes \<Rightarrow> bytes option) \<Rightarrow> (bytes \<Rightarrow> bytes option) \<Rightarrow> (bytes \<Rightarrow> bytes) \<Rightarrow> nat set \<Rightarrow> 'r db \<Rightarrow> bool" where
  "gc_done index I V S db \<longleftrightarrow>
     (\<forall>k. if log_of k \<in> S \<and> I k \<noteq> None
          then \<exists>m. index (rdb db) k = Some m \<and> moved (key_log db k) m (V k)
          else index (rdb db) k = I k)"

definition part_items :: "(bytes \<times> bytes) list \<Rightarrow> nat \<Rightarrow> (bytes \<times> bytes) list" where
  "part_items es p = filter (\<lambda>e. log_of (fst e) = p) es"

lemma part_items_total: "(\<Sum>p\<leftarrow>[0..<LOG_PARTITION]. length (part_items es p)) = length es"
proof (induction es)
  case (Cons e es)
  have one: "(\<Sum>p\<leftarrow>[0..<n]. (if l = p then 1 else 0)) = (if l < n then 1 else (0 :: nat))" for l n :: nat
    by (induction n) auto
  have "(\<Sum>p\<leftarrow>[0..<LOG_PARTITION]. length (part_items (e # es) p)) =
      (\<Sum>p\<leftarrow>[0..<LOG_PARTITION]. (if log_of (fst e) = p then 1 else 0) + length (part_items es p))"
    by (intro arg_cong [where f = sum_list] map_cong) (simp_all add: part_items_def)
  then show ?case
    using Cons one [of "log_of (fst e)" LOG_PARTITION] by (simp add: sum_list_addf)
qed (simp add: part_items_def)

context rocksdb_ok
begin

lemma gc_partitions_ok:
  assumes "logs_ok (N + (\<Sum>p\<leftarrow>ps. length (part_items es p))) db" "rinv (rdb db)" and io: "full_io E"
    and "set ps \<subseteq> {..<LOG_PARTITION}" "distinct ps" and d: "distinct (map fst es)" and w: "workers > 0"
    and I: "map_of es = I"
    and old: "\<And>k m. I k = Some m \<Longrightarrow> entry_in m (length (olds ! log_of k)) \<and> entry_value m (olds ! log_of k) = V k"
    and "gc_done index I V S db" "S \<inter> set ps = {}"
  shows "\<exists>db'. gc_partitions R E workers olds es sched ps db = Inr ((), db') \<and> logs_ok N db' \<and> rinv (rdb db') \<and>
    gc_done index I V (S \<union> set ps) db' \<and> options db' = options db"
  using assms(1,2,4,5,10,11)
proof (induction ps arbitrary: db S)
  case Nil
  then show ?case by simp
next
  case (Cons p ps)
  let ?N = "N + (\<Sum>p\<leftarrow>ps. length (part_items es p))" and ?items = "part_items es p"
  have items: "(k, m) \<in> set ?items \<longleftrightarrow> log_of k = p \<and> I k = Some m" for k m
    using map_of_eq_Some_iff [OF d, of k m] unfolding I part_items_def by auto
  have keys: "k \<in> fst ` set ?items \<longleftrightarrow> log_of k = p \<and> I k \<noteq> None" for k
    using items by (simp add: image_iff Bex_def)
  have lo: "logs_ok (?N + length ?items) db" using Cons.prems(1) by (simp add: ac_simps)
  have dp: "distinct (map fst ?items)" using d by (simp add: part_items_def distinct_map_filter)
  have p: "p < LOG_PARTITION" "p \<notin> set ps" "p \<notin> S" using Cons.prems(3,4,6) by auto
  obtain db1 where r: "gc_partition R E workers p (olds ! p) ?items (sched p) db = Inr ((), db1)" "logs_ok ?N db1"
    "rinv (rdb db1)" "gc_frame p db db1" "\<And>k. k \<notin> fst ` set ?items \<Longrightarrow> index (rdb db1) k = index (rdb db) k"
    "\<And>k. k \<in> fst ` set ?items \<Longrightarrow> \<exists>m. index (rdb db1) k = Some m \<and> moved (vlogs db1 ! p) m (V k)"
  proof (rule gc_partition_ok [OF lo Cons.prems(2) io p(1) dp w])
    show "entry_in m (length (olds ! p)) \<and> entry_value m (olds ! p) = V k" if "(k, m) \<in> set ?items" for k m
      using old [of k m] that by (simp add: items)
  qed (rule that)
  have "gc_done index I V (insert p S) db1"
    unfolding gc_done_def
  proof
    fix k
    show "if log_of k \<in> insert p S \<and> I k \<noteq> None
        then \<exists>m. index (rdb db1) k = Some m \<and> moved (key_log db1 k) m (V k) else index (rdb db1) k = I k"
    proof (cases "log_of k = p")
      case True
      then show ?thesis
        using r(5,6) [of k] keys [of k] Cons.prems(5) p(3) by (auto simp: gc_done_def key_log_def)
    next
      case False
      then have "key_log db1 k = key_log db k" using r(4) by (simp add: gc_frame_def key_log_def)
      moreover have "index (rdb db1) k = index (rdb db) k" using False r(5) [of k] by (simp add: keys)
      moreover have "if log_of k \<in> S \<and> I k \<noteq> None
          then \<exists>m. index (rdb db) k = Some m \<and> moved (key_log db k) m (V k) else index (rdb db) k = I k"
        using Cons.prems(5) unfolding gc_done_def by blast
      ultimately show ?thesis using False by simp
    qed
  qed
  moreover have "insert p S \<inter> set ps = {}" using p(2) Cons.prems(6) by auto
  moreover have "set ps \<subseteq> {..<LOG_PARTITION}" "distinct ps" using Cons.prems(3,4) by auto
  ultimately obtain db' where "gc_partitions R E workers olds es sched ps db1 = Inr ((), db')" "logs_ok N db'"
    "rinv (rdb db')" "gc_done index I V (insert p S \<union> set ps) db'" "options db' = options db1"
    using Cons.IH [OF r(2,3), of "insert p S"] by blast
  then show ?case
    using r(1,4) by (intro exI [of _ db']) (simp add: part_items_def gc_frame_def)
qed

end

subsection \<open>The whole collection\<close>

lemma new_logs_ok:
  assumes lo: "logs_ok M db" and fl: "\<And>i. i < LOG_PARTITION \<Longrightarrow> flushed (vlogs db ! i)"
    and room: "(N + 1) * unat (part_size (options db)) < 2 ^ 63"
  shows "logs_ok N (db\<lparr>vlogs := map (\<lambda>vl. vl\<lparr>log_file := [], lba := 0\<rparr>) (vlogs db)\<rparr>)"
  using assms by (auto simp: logs_ok_def vlog_inv_def flushed_def part_ok_def)

lemma rebuild_caches_ok:
  assumes "N < 2 ^ 30"
  obtains db' where "rebuild_caches db = Inr ((), db')" "caches_ok N db'" "dc_holds db' = Map.empty"
    "wb_holds db' = Map.empty" "vlogs db' = vlogs db" "rdb db' = rdb db" "options db' = options db"
proof -
  obtain wb where wb: "write_buffer_new (options db) = Inr (Some wb)" "write_buf.ready N (Some wb)"
    "write_buf.holds (Some wb) = Map.empty"
    by (rule write_buffer_new_ok [OF assms]) (rule that)
  obtain dc where dc: "data_cache_new (options db) = Inr dc" "data_cache.ready N dc" "data_cache.holds dc = Map.empty"
    by (rule data_cache_new_ok [OF assms]) (rule that)
  show thesis
    by (rule that [of "db\<lparr>write_buffer := replicate LOG_PARTITION (Some wb), data_cache := dc\<rparr>"])
      (use wb dc in \<open>simp_all add: rebuild_caches_def caches_ok_def dc_holds_def wb_holds_def fun_eq_iff\<close>)
qed

lemma gc_done_store:
  assumes g: "gc_done index I V {..<LOG_PARTITION} db" and gr: "\<And>k. grows (key_log db k) (key_log db' k)"
    and r: "rdb db' = rdb db"
  shows "index_ok index db'" "db_abs index db' = (\<lambda>k. map_option (\<lambda>_. V k) (I k))"
proof -
  have c: "if I k \<noteq> None then \<exists>m. index (rdb db') k = Some m \<and> moved (key_log db' k) m (V k)
      else index (rdb db') k = None" for k
  proof -
    have "if log_of k \<in> {..<LOG_PARTITION} \<and> I k \<noteq> None
          then \<exists>m. index (rdb db) k = Some m \<and> moved (key_log db k) m (V k) else index (rdb db) k = I k"
      using g unfolding gc_done_def by blast
    then show ?thesis
      using moved_grows [OF _ gr, of k] r by (auto split: if_splits)
  qed
  show "index_ok index db'"
    unfolding index_ok_def
  proof (intro allI impI)
    fix k m assume "index (rdb db') k = Some m"
    then show "placed m (key_log db' k)" using c [of k] by (auto simp: moved_def split: if_splits)
  qed
  show "db_abs index db' = (\<lambda>k. map_option (\<lambda>_. V k) (I k))"
  proof
    fix k
    show "db_abs index db' k = map_option (\<lambda>_. V k) (I k)"
      using c [of k] by (auto simp: db_abs_def moved_def split: if_splits)
  qed
qed

context rocksdb_ok
begin

lemma GC_ok:
  assumes inv: "db_inv rinv index (Suc M) db" and io: "full_io E" and w: "GCWorkerThreads (options db) > 0"
    and N: "N < 2 ^ 30" "(N + length (rocks_entries R (rdb db)) + 2) * unat (part_size (options db)) < 2 ^ 63"
  obtains db' where "vLogGarbageCollect R E sched db = Inr ((), db')" "db_inv rinv index N db'"
    "db_abs index db' = db_abs index db" "dc_holds db' = Map.empty" "wb_holds db' = Map.empty"
    "\<And>k. flushed (key_log db' k)" "options db' = options db"
proof -
  have ri: "rinv (rdb db)" and lo: "logs_ok (Suc M) db" and ix: "index_ok index db"
    using inv by (simp_all add: db_inv_def)
  obtain vls n where f: "flushVLog E db = Inr ((), db\<lparr>vlogs := vls, ios := n\<rparr>)"
    "logs_ok M (db\<lparr>vlogs := vls, ios := n\<rparr>)" "\<And>i. i < LOG_PARTITION \<Longrightarrow> flushed (vls ! i)"
    "\<And>i. i < LOG_PARTITION \<Longrightarrow> grows (vlogs db ! i) (vls ! i)"
    using flushVLog_ok [OF lo io] by metis
  let ?db1 = "db\<lparr>vlogs := vls, ios := n\<rparr>"
  let ?es = "rocks_entries R (rdb db)" and ?I = "index (rdb db)" and ?olds = "map log_file vls"
  let ?V = "\<lambda>k. entry_value (the (?I k)) (?olds ! log_of k)"
  let ?db2 = "?db1\<lparr>vlogs := map (\<lambda>vl. vl\<lparr>log_file := [], lba := 0\<rparr>) (vlogs ?db1)\<rparr>"
  have len: "length vls = LOG_PARTITION" using f(2) by (simp add: logs_ok_def)
  have "grows (key_log db k) (key_log ?db1 k)" for k
    using f(4) [OF log_of_part, of k] by (simp add: key_log_def)
  note ab = index_ok_grow [OF ix this, simplified]
  have ofile: "?olds ! log_of k = log_bytes (key_log ?db1 k)" for k
    using flushed_file [OF f(3) [OF log_of_part], of k] len by (simp add: key_log_def)
  have old: "entry_in m (length (?olds ! log_of k)) \<and> entry_value m (?olds ! log_of k) = ?V k" if "?I k = Some m" for k m
    using ab(1) that unfolding ofile index_ok_def placed_def by simp
  have lo2: "logs_ok (Suc N + (\<Sum>p\<leftarrow>[0..<LOG_PARTITION]. length (part_items ?es p))) ?db2"
    using new_logs_ok [OF f(2), of "Suc N + length ?es"] f(3) N(2) by (simp add: part_items_total)
  have start: "gc_done index ?I ?V {} ?db2" by (simp add: gc_done_def)
  have w': "nat (GCWorkerThreads (options ?db2)) > 0" using w by simp
  obtain db3 where r: "gc_partitions R E (nat (GCWorkerThreads (options ?db2))) ?olds ?es sched [0..<LOG_PARTITION] ?db2 = Inr ((), db3)"
    "logs_ok (Suc N) db3" "rinv (rdb db3)" "gc_done index ?I ?V {..<LOG_PARTITION} db3" "options db3 = options ?db2"
    using gc_partitions_ok [OF lo2 _ io _ _ entries_distinct [OF ri] w' entries_map [OF ri] old start] ri
    by (auto simp: lessThan_atLeast0)
  obtain vls' n' where f': "flushVLog E db3 = Inr ((), db3\<lparr>vlogs := vls', ios := n'\<rparr>)"
    "logs_ok N (db3\<lparr>vlogs := vls', ios := n'\<rparr>)" "\<And>i. i < LOG_PARTITION \<Longrightarrow> flushed (vls' ! i)"
    "\<And>i. i < LOG_PARTITION \<Longrightarrow> grows (vlogs db3 ! i) (vls' ! i)"
    using flushVLog_ok [OF r(2) io] by metis
  let ?db4 = "db3\<lparr>vlogs := vls', ios := n'\<rparr>"
  obtain db' where c: "rebuild_caches ?db4 = Inr ((), db')" "caches_ok N db'" "dc_holds db' = Map.empty"
    "wb_holds db' = Map.empty" "vlogs db' = vlogs ?db4" "rdb db' = rdb ?db4" "options db' = options ?db4"
    by (rule rebuild_caches_ok [OF N(1), of ?db4]) (rule that)
  have kl: "key_log db' k = vls' ! log_of k" for k using c(5) by (simp add: key_log_def)
  have gr: "grows (key_log db3 k) (key_log db' k)" for k
    using f'(4) [OF log_of_part, of k] unfolding kl by (simp add: key_log_def)
  note st = gc_done_store [OF r(4) gr]
  have run: "vLogGarbageCollect R E sched db = Inr ((), db')"
    using f(1) r(1) w f'(1) c(1) by (simp add: vLogGarbageCollect_def new_logs_def Let_def)
  have "db_abs index db' = db_abs index db"
    using st(2) c(6) ab(2) by (simp add: db_abs_def fun_eq_iff ofile option.map_comp)
      (metis (no_types, lifting) map_option_cong option.sel)
  moreover have "db_inv rinv index N db'"
    using st(1) c f'(2) r(3) by (simp add: db_inv_def logs_ok_def)
  ultimately show thesis
    using c(3,4,7) r(5) f'(3) kl by (intro that [OF run]) simp_all
qed

end

end
