(* ===== verification/KV.thy ===== *)
theory KV
  imports GC
begin

text \<open>
  Whole runs of the store: sequences of client calls (\<open>Put\<close>, \<open>Get\<close>, \<open>Delete\<close>), flushes, garbage
  collections and restarts, as \<open>DBImpl\<close> executes them, against an abstract key-value store. The abstract
  store keeps, besides the map, the values written to each key since its caches were last emptied (a
  cached value may be an older one, since inserting an existing key does not replace it) and the keys
  written since the last flush (their value may be unreadable once both caches have evicted it).
\<close>

datatype kv_cmd =
    KPut bytes bytes
  | KGet bytes
  | KDelete bytes bool bool
  | KFlush
  | KGC "nat \<Rightarrow> nat list"
  | KReopen

datatype kv_reply = KStatus Status | KValue Status bytes | KDone

fun kv_step :: "'r rocks \<Rightarrow> env \<Rightarrow> kv_cmd \<Rightarrow> ('r db, kv_reply) op" where
  "kv_step R E (KPut k v) = sbind (DBImpl_Put R E k v) (\<lambda>st. ret (KStatus st))"
| "kv_step R E (KGet k) = sbind (DBImpl_Get R E k []) (\<lambda>(st, out). ret (KValue st out))"
| "kv_step R E (KDelete k e1 e2) = sbind (DBImpl_Delete R e1 e2 k) (\<lambda>st. ret (KStatus st))"
| "kv_step R E KFlush = sbind (flushVLog E) (\<lambda>_. ret KDone)"
| "kv_step R E (KGC sched) = sbind (vLogGarbageCollect R E sched) (\<lambda>_. ret KDone)"
| "kv_step R E KReopen = (\<lambda>db.
     rbind (DBImpl_delete E db) (\<lambda>(files, r).
     rbind (DB_Open E (options db) files r) (\<lambda>(st, db'). Inr (KStatus st, db'))))"

fun kv_run :: "'r rocks \<Rightarrow> env \<Rightarrow> kv_cmd list \<Rightarrow> ('r db, kv_reply list) op" where
  "kv_run R E [] = ret []"
| "kv_run R E (c # cs) = sbind (kv_step R E c) (\<lambda>r. sbind (kv_run R E cs) (\<lambda>rs. ret (r # rs)))"

section \<open>The abstract store\<close>

record kv =
  kv_map :: "bytes \<Rightarrow> bytes option"
  kv_seen :: "bytes \<Rightarrow> bytes set"
  kv_dirty :: "bytes set"

fun kv_next :: "kv_cmd \<Rightarrow> kv \<Rightarrow> kv" where
  "kv_next (KPut k v) s = s\<lparr>kv_map := (kv_map s)(k \<mapsto> v), kv_seen := (kv_seen s)(k := insert v (kv_seen s k)),
     kv_dirty := insert k (kv_dirty s)\<rparr>"
| "kv_next (KGet k) s = s"
| "kv_next (KDelete k e1 e2) s = s\<lparr>kv_map := (kv_map s)(k := None), kv_seen := (kv_seen s)(k := {}),
     kv_dirty := kv_dirty s - {k}\<rparr>"
| "kv_next KFlush s = s\<lparr>kv_dirty := {}\<rparr>"
| "kv_next (KGC sched) s = s\<lparr>kv_seen := (\<lambda>k. set_option (kv_map s k)), kv_dirty := {}\<rparr>"
| "kv_next KReopen s = s\<lparr>kv_seen := (\<lambda>k. set_option (kv_map s k)), kv_dirty := {}\<rparr>"

fun kv_answer :: "kv \<Rightarrow> kv_cmd \<Rightarrow> kv_reply \<Rightarrow> bool" where
  "kv_answer s (KGet k) r =
     (case r of
        KValue st out \<Rightarrow>
          st = Status_OK \<and> kv_map s k \<noteq> None \<and> out \<in> kv_seen s k \<or>
          st = Status_NotFound [] [] \<and> out = [] \<and> (kv_map s k = None \<or> kv_map s k = Some [] \<or> k \<in> kv_dirty s)
      | _ \<Rightarrow> False)"
| "kv_answer s (KPut k v) r = (r = KStatus Status_OK)"
| "kv_answer s (KDelete k e1 e2) r = (r = KStatus Status_OK)"
| "kv_answer s KReopen r = (r = KStatus Status_OK)"
| "kv_answer s _ r = (r = KDone)"

fun kv_admits :: "kv \<Rightarrow> kv_cmd list \<Rightarrow> kv_reply list \<Rightarrow> bool" where
  "kv_admits s [] rs = (rs = [])"
| "kv_admits s (c # cs) rs = (case rs of [] \<Rightarrow> False | r # rs' \<Rightarrow> kv_answer s c r \<and> kv_admits (kv_next c s) cs rs')"

fun kv_allowed :: "kv_cmd \<Rightarrow> bool" where
  "kv_allowed (KPut k v) \<longleftrightarrow> length v \<le> 4096"
| "kv_allowed _ \<longleftrightarrow> True"

section \<open>The simulation\<close>

text \<open>Everything cached was written since the caches were emptied; what is not dirty is in the log file.\<close>

definition kv_cached :: "kv \<Rightarrow> 'r db \<Rightarrow> bool" where
  "kv_cached s db \<longleftrightarrow> (\<forall>k v. dc_holds db k = Some v \<or> wb_holds db k = Some v \<longrightarrow> v \<in> kv_seen s k)"

definition kv_written :: "kv \<Rightarrow> bool" where
  "kv_written s \<longleftrightarrow> (\<forall>k. set_option (kv_map s k) \<subseteq> kv_seen s k \<and> (kv_map s k = None \<longrightarrow> kv_seen s k = {}))"

definition kv_durable :: "('r \<Rightarrow> bytes \<Rightarrow> bytes option) \<Rightarrow> bytes set \<Rightarrow> 'r db \<Rightarrow> bool" where
  "kv_durable index D db \<longleftrightarrow>
     (\<forall>k m. k \<notin> D \<longrightarrow> index (rdb db) k = Some m \<longrightarrow> entry_in m (length (log_file (key_log db k))))"

definition kv_budget :: "nat \<Rightarrow> kv \<Rightarrow> Options \<Rightarrow> bool" where
  "kv_budget N s opts \<longleftrightarrow> (N + card (dom (kv_map s)) + 2) * unat (part_size opts) < 2 ^ 63"

definition kv_opts :: "Options \<Rightarrow> bool" where
  "kv_opts opts \<longleftrightarrow> statistics opts \<noteq> None \<and> GCWorkerThreads opts > 0"

definition kv_rel :: "('r \<Rightarrow> bool) \<Rightarrow> ('r \<Rightarrow> bytes \<Rightarrow> bytes option) \<Rightarrow> nat \<Rightarrow> kv \<Rightarrow> 'r db \<Rightarrow> bool" where
  "kv_rel rinv index N s db \<longleftrightarrow> db_inv rinv index N db \<and> db_abs index db = kv_map s \<and> kv_written s \<and>
     kv_cached s db \<and> kv_durable index (kv_dirty s) db \<and> kv_budget N s (options db) \<and> kv_opts (options db)"

lemma dom_db_abs: "dom (db_abs index db) = dom (index (rdb db))"
  by (auto simp: db_abs_def)

lemma kv_budget_mono:
  assumes "kv_budget N s opts" "M + card (dom (kv_map s')) \<le> N + card (dom (kv_map s))"
  shows "kv_budget M s' opts"
proof -
  have "(M + card (dom (kv_map s')) + 2) * unat (part_size opts) \<le> (N + card (dom (kv_map s)) + 2) * unat (part_size opts)"
    using assms(2) by (intro mult_le_mono1) simp
  then show ?thesis using assms(1) unfolding kv_budget_def by (rule le_less_trans)
qed

lemma kv_durable_flushed:
  assumes "db_inv rinv index N db" "\<And>k. flushed (key_log db k)"
  shows "kv_durable index D db"
  using assms flushed_file [OF assms(2)] by (auto simp: kv_durable_def db_inv_def index_ok_def placed_def)

lemma kv_durable_grow:
  assumes "kv_durable index D db" "\<And>j. grows (key_log db j) (key_log db' j)"
    "\<And>j. j \<notin> D' \<Longrightarrow> j \<notin> D \<and> index (rdb db') j = index (rdb db) j"
  shows "kv_durable index D' db'"
  unfolding kv_durable_def
proof (intro allI impI)
  fix k m assume k: "k \<notin> D'" "index (rdb db') k = Some m"
  then have e: "entry_in m (length (log_file (key_log db k)))"
    using assms(1,3) [unfolded kv_durable_def] by metis
  have "length (log_file (key_log db k)) \<le> length (log_file (key_log db' k))"
    using assms(2) [of k] by (auto simp: grows_def log_bytes_def)
  then show "entry_in m (length (log_file (key_log db' k)))"
    using e by (auto simp: entry_in_def)
qed

lemma kv_emptied:
  assumes "kv_rel rinv index N s db" "db_inv rinv index M db'" "db_abs index db' = db_abs index db"
    "coherent index db'" "\<And>k. flushed (key_log db' k)" "options db' = options db" "M \<le> N"
  shows "kv_rel rinv index M (s\<lparr>kv_seen := (\<lambda>k. set_option (kv_map s k)), kv_dirty := {}\<rparr>) db'"
  unfolding kv_rel_def
proof (intro conjI)
  show "kv_durable index (kv_dirty (s\<lparr>kv_seen := (\<lambda>k. set_option (kv_map s k)), kv_dirty := {}\<rparr>)) db'"
    by (rule kv_durable_flushed [OF assms(2,5)])
  show "kv_budget M (s\<lparr>kv_seen := (\<lambda>k. set_option (kv_map s k)), kv_dirty := {}\<rparr>) (options db')"
    using assms(1,6,7) kv_budget_mono [of N s "options db"] by (simp add: kv_rel_def)
  show "kv_cached (s\<lparr>kv_seen := (\<lambda>k. set_option (kv_map s k)), kv_dirty := {}\<rparr>) db'"
    using assms(1,3,4) by (auto simp: kv_cached_def coherent_def kv_rel_def)
qed (use assms in \<open>simp_all add: kv_rel_def kv_written_def\<close>)

context rocksdb_ok
begin

lemma entries_card:
  assumes "rinv r"
  shows "length (rocks_entries R r) = card (dom (index r))" "finite (dom (index r))"
proof -
  have d: "dom (index r) = set (map fst (rocks_entries R r))"
    using entries_map [OF assms] by (metis dom_map_of_conv_image_fst list.set_map)
  show "length (rocks_entries R r) = card (dom (index r))"
    unfolding d using distinct_card [OF entries_distinct [OF assms]] by simp
  show "finite (dom (index r))" unfolding d by simp
qed

lemma kv_finite:
  assumes "kv_rel rinv index N s db"
  shows "finite (dom (kv_map s))" "length (rocks_entries R (rdb db)) = card (dom (kv_map s))"
proof -
  have ri: "rinv (rdb db)" and d: "dom (kv_map s) = dom (index (rdb db))"
    using assms dom_db_abs [of index db] by (simp_all add: kv_rel_def db_inv_def)
  show "finite (dom (kv_map s))" "length (rocks_entries R (rdb db)) = card (dom (kv_map s))"
    unfolding d using entries_card [OF ri] by simp_all
qed

lemma kv_put:
  assumes rel: "kv_rel rinv index (Suc N) s db" and v: "length v \<le> 4096" and io: "full_io E"
  shows "\<exists>db'. DBImpl_Put R E k v db = Inr (Status_OK, db') \<and> kv_rel rinv index N (kv_next (KPut k v) s) db'"
proof -
  have inv: "db_inv rinv index (Suc N) db" and du: "kv_durable index (kv_dirty s) db"
    using rel by (simp_all add: kv_rel_def)
  obtain st db' where p: "DBImpl_Put R E k v db = Inr (st, db')" "db_inv rinv index N db'"
    "db_abs index db' = (db_abs index db)(k \<mapsto> v) \<or> st \<noteq> Status_OK \<and> db_abs index db' = db_abs index db"
    "fill_rel k v (dc_holds db) (dc_holds db')" "fill_rel k v (wb_holds db) (wb_holds db')"
    "(\<forall>r k v. rinv r \<longrightarrow> fst (rocks_Put R k v r) = ROk) \<longrightarrow> st = Status_OK"
    "options db' = options db" "\<And>j. grows (key_log db j) (key_log db' j)"
    "\<And>j. j \<noteq> k \<Longrightarrow> index (rdb db') j = index (rdb db) j"
    by (rule Put_ok [OF inv v io, of k]) (rule that)
  have st: "st = Status_OK" using p(6) put_ok by blast
  let ?s = "kv_next (KPut k v) s"
  have "kv_cached ?s db'"
    unfolding kv_cached_def
  proof (intro allI impI)
    fix j w assume "dc_holds db' j = Some w \<or> wb_holds db' j = Some w"
    then have "j = k \<and> w = v \<or> dc_holds db j = Some w \<or> wb_holds db j = Some w"
      using p(4,5) by (cases "j = k") (auto simp: fill_rel_def)
    then show "w \<in> kv_seen ?s j" using rel by (auto simp: kv_rel_def kv_cached_def)
  qed
  moreover have wr: "kv_written ?s" using rel by (auto simp: kv_rel_def kv_written_def)
  moreover have "kv_durable index (kv_dirty ?s) db'"
    using kv_durable_grow [OF du p(8), of "kv_dirty ?s"] p(9) by simp
  moreover have "kv_budget N ?s (options db')"
    using rel kv_finite(1) [OF rel] p(7) kv_budget_mono [of "Suc N" s "options db" N ?s]
    by (simp add: kv_rel_def card_insert_if)
  ultimately show ?thesis
    using p(1-3,7) st rel wr by (intro exI [of _ db']) (simp add: kv_rel_def)
qed

lemma kv_delete:
  assumes rel: "kv_rel rinv index (Suc N) s db"
  shows "\<exists>db'. DBImpl_Delete R e1 e2 k db = Inr (Status_OK, db') \<and> kv_rel rinv index N (kv_next (KDelete k e1 e2) s) db'"
proof -
  have inv: "db_inv rinv index (Suc N) db" and du: "kv_durable index (kv_dirty s) db"
    using rel by (simp_all add: kv_rel_def)
  obtain db' where p: "DBImpl_Delete R e1 e2 k db = Inr (Status_OK, db')" "db_inv rinv index (Suc N) db'"
    "(\<forall>r k. rinv r \<longrightarrow> fst (rocks_Delete R k r) = ROk) \<longrightarrow> db_abs index db' = (db_abs index db)(k := None)"
    "dc_holds db' = (dc_holds db)(k := None)" "wb_holds db' = (wb_holds db)(k := None)"
    "vlogs db' = vlogs db" "options db' = options db" "\<And>j. j \<noteq> k \<Longrightarrow> index (rdb db') j = index (rdb db) j"
    by (rule Delete_ok [OF inv, of e1 e2 k]) (rule that)
  let ?s = "kv_next (KDelete k e1 e2) s"
  have abs: "db_abs index db' = (db_abs index db)(k := None)" using p(3) delete_ok by blast
  then have nk: "index (rdb db') k = None" by (auto simp: db_abs_def fun_eq_iff dest: spec [of _ k])
  have "kv_durable index (kv_dirty ?s) db'"
    unfolding kv_durable_def
  proof (intro allI impI)
    fix j m assume j: "j \<notin> kv_dirty ?s" "index (rdb db') j = Some m"
    then have "j \<noteq> k" using nk by auto
    then show "entry_in m (length (log_file (key_log db' j)))"
      using du j p(6) p(8) [of j] by (simp add: kv_durable_def key_log_def)
  qed
  moreover have "kv_budget N ?s (options db')"
    using rel kv_finite(1) [OF rel] p(7) kv_budget_mono [of "Suc N" s "options db" N ?s]
    by (simp add: kv_rel_def card_Diff1_le le_SucI)
  moreover have wr: "kv_written ?s" using rel by (auto simp: kv_rel_def kv_written_def)
  moreover have "kv_cached ?s db'" using rel p(4,5) by (auto simp: kv_rel_def kv_cached_def)
  ultimately show ?thesis
    using p(1,7) db_inv_mono [OF p(2), of N] abs rel wr by (intro exI [of _ db']) (simp add: kv_rel_def)
qed

lemma kv_get:
  assumes rel: "kv_rel rinv index (Suc N) s db" and io: "full_io E"
  shows "\<exists>st out db'. DBImpl_Get R E k [] db = Inr ((st, out), db') \<and> kv_answer s (KGet k) (KValue st out) \<and>
    kv_rel rinv index N s db'"
proof -
  have inv: "db_inv rinv index (Suc N) db" and ca: "kv_cached s db" and wr: "kv_written s"
    and du: "kv_durable index (kv_dirty s) db" and ab: "db_abs index db = kv_map s"
    using rel by (simp_all add: kv_rel_def)
  obtain st out db' where g: "DBImpl_Get R E k [] db = Inr ((st, out), db')" "db_inv rinv index N db'"
    "same_store index db db'" "wb_holds db' = wb_holds db" "get_spec index db k get_fine st out"
    "dc_holds db' = dc_holds db \<or> (\<exists>v. db_abs index db k = Some v \<and> fill_rel k v (dc_holds db) (dc_holds db'))"
    by (rule Get_ok [OF inv io, of k]) (rule that)
  have seen: "v \<in> kv_seen s j" if "kv_map s j = Some v" for j v
    using wr that unfolding kv_written_def by (metis option.set_intros subsetD)
  have known: "kv_map s j \<noteq> None" if "v \<in> kv_seen s j" for j v
    using wr that by (auto simp: kv_written_def)
  have fine: "get_fine" using get_ok by (simp add: get_fine_def)
  have "kv_answer s (KGet k) (KValue st out)"
  proof (cases "st = Status_OK")
    case True
    then have "get_source index db k = Some out" using g(5) by (simp add: get_spec_def Status_not_ok [symmetric])
    then have "out \<in> kv_seen s k"
      using ca seen [of k out] ab by (auto simp: get_source_def kv_cached_def split: option.splits)
    then show ?thesis using True known by simp
  next
    case False
    then have nf: "st = Status_NotFound [] []" "out = []" "kv_map s k = None \<or> \<not> visible index db k"
      using g(5) fine ab by (auto simp: get_spec_def)
    have "k \<in> kv_dirty s \<or> v = []" if v: "kv_map s k = Some v" and nv: "\<not> visible index db k" for v
    proof -
      obtain m where m: "index (rdb db) k = Some m" "v = entry_value m (log_bytes (key_log db k))"
        using v ab by (auto simp: db_abs_def dest!: fun_cong [of _ _ k])
      have "k \<in> kv_dirty s \<or> valSize m = 0"
        using m(1) nv du by (auto simp: visible_def kv_durable_def)
      then show ?thesis using m(2) by (auto simp: entry_value_def chunk_def)
    qed
    then show ?thesis using nf by (cases "kv_map s k") auto
  qed
  moreover have "kv_cached s db'"
    unfolding kv_cached_def
  proof (intro allI impI)
    fix j w assume h: "dc_holds db' j = Some w \<or> wb_holds db' j = Some w"
    have "dc_holds db j = Some w \<or> wb_holds db j = Some w \<or> kv_map s j = Some w"
      using h g(4,6) ab by (cases "j = k") (auto simp: fill_rel_def)
    then show "w \<in> kv_seen s j" using ca seen by (auto simp: kv_cached_def)
  qed
  moreover have "kv_durable index (kv_dirty s) db'"
    using du g(3) by (simp add: kv_durable_def same_store_def key_log_def)
  moreover have "kv_budget N s (options db')" "options db' = options db"
    using rel g(3) kv_budget_mono [of "Suc N" s "options db" N s] by (simp_all add: kv_rel_def same_store_def)
  ultimately show ?thesis
    using g(1,2) same_store_abs(1) [OF g(3)] rel by (intro exI [of _ st] exI [of _ out] exI [of _ db']) (simp add: kv_rel_def)
qed

lemma kv_flush:
  assumes rel: "kv_rel rinv index (Suc N) s db" and io: "full_io E"
  shows "\<exists>db'. flushVLog E db = Inr ((), db') \<and> kv_rel rinv index N (kv_next KFlush s) db'"
proof -
  have inv: "db_inv rinv index (Suc N) db" using rel by (simp add: kv_rel_def)
  obtain db' where f: "flushVLog E db = Inr ((), db')" "db_inv rinv index N db'" "db_abs index db' = db_abs index db"
    "\<And>k. flushed (key_log db' k)" "dc_holds db' = dc_holds db" "wb_holds db' = wb_holds db" "options db' = options db"
    by (rule flush_ok [OF inv io]) (rule that)
  have "kv_durable index {} db'" by (rule kv_durable_flushed [OF f(2,4)])
  moreover have "kv_budget N (kv_next KFlush s) (options db')"
    using rel f(7) kv_budget_mono [of "Suc N" s "options db" N "kv_next KFlush s"] by (simp add: kv_rel_def)
  ultimately show ?thesis
    using f rel by (intro exI [of _ db']) (simp add: kv_rel_def kv_written_def kv_cached_def)
qed

lemma kv_gc:
  assumes rel: "kv_rel rinv index (Suc N) s db" and io: "full_io E"
  shows "\<exists>db'. vLogGarbageCollect R E sched db = Inr ((), db') \<and> kv_rel rinv index N (kv_next (KGC sched) s) db'"
proof -
  have inv: "db_inv rinv index (Suc N) db" and w: "GCWorkerThreads (options db) > 0"
    using rel by (simp_all add: kv_rel_def kv_opts_def)
  have n: "N < 2 ^ 30"
    using db_inv_files [OF inv] by (simp add: files_ok_def)
  have b: "(N + length (rocks_entries R (rdb db)) + 2) * unat (part_size (options db)) < 2 ^ 63"
    using rel kv_budget_mono [of "Suc N" s "options db" N s] kv_finite(2) [OF rel]
    by (simp add: kv_rel_def kv_budget_def)
  obtain db' where g: "vLogGarbageCollect R E sched db = Inr ((), db')" "db_inv rinv index N db'"
    "db_abs index db' = db_abs index db" "dc_holds db' = Map.empty" "wb_holds db' = Map.empty"
    "\<And>k. flushed (key_log db' k)" "options db' = options db"
    by (rule GC_ok [OF inv io w n b]) (rule that)
  have "coherent index db'" using g(4,5) by (simp add: coherent_def)
  then show ?thesis using g(1) kv_emptied [OF rel g(2,3) _ g(6,7)] by simp
qed

lemma kv_reopen:
  assumes rel: "kv_rel rinv index (Suc N) s db" and io: "full_io E"
  shows "\<exists>db'. kv_step R E KReopen db = Inr (KStatus Status_OK, db') \<and> kv_rel rinv index N (kv_next KReopen s) db'"
proof -
  have inv: "db_inv rinv index (Suc N) db" using rel by (simp add: kv_rel_def)
  obtain ts where st: "statistics (options db) = Some ts" using rel by (auto simp: kv_rel_def kv_opts_def)
  obtain files r db' where o: "DBImpl_delete E db = Inr (files, r)" "DBImpl_new E (options db) files r = Inr db'"
    "db_inv rinv index N db'" "coherent index db'" "db_abs index db' = db_abs index db"
    "\<And>k. flushed (key_log db' k)" "options db' = options db"
    by (rule reopen_ok [OF inv io st]) (rule that)
  show ?thesis using o(1,2) kv_emptied [OF rel o(3,5,4,6,7)] by (simp add: DB_Open_def)
qed

lemma kv_step_ok:
  assumes rel: "kv_rel rinv index (Suc N) s db" and "kv_allowed c" and io: "full_io E"
  obtains r db' where "kv_step R E c db = Inr (r, db')" "kv_answer s c r" "kv_rel rinv index N (kv_next c s) db'"
proof (cases c)
  case (KPut k v)
  then show thesis using kv_put [OF rel _ io, of v k] assms(2) that [of "KStatus Status_OK"] by (auto simp: sbind_def ret_def)
next
  case (KGet k)
  obtain st out db' where "DBImpl_Get R E k [] db = Inr ((st, out), db')" "kv_answer s (KGet k) (KValue st out)"
    "kv_rel rinv index N s db'"
    using kv_get [OF rel io] by blast
  then show thesis using KGet that [of "KValue st out" db'] by (simp add: sbind_def ret_def)
next
  case (KDelete k e1 e2)
  then show thesis using kv_delete [OF rel, of e1 e2 k] that [of "KStatus Status_OK"] by (auto simp: sbind_def ret_def)
next
  case KFlush
  then show thesis using kv_flush [OF rel io] that [of KDone] by (auto simp: sbind_def ret_def)
next
  case (KGC sched)
  then show thesis using kv_gc [OF rel io, of sched] that [of KDone] by (auto simp: sbind_def ret_def)
next
  case KReopen
  then show thesis using kv_reopen [OF rel io] that [of "KStatus Status_OK"] by auto
qed

lemma kv_run_ok:
  assumes "kv_rel rinv index (length cs) s db" and "list_all kv_allowed cs" and io: "full_io E"
  shows "\<exists>rs db'. kv_run R E cs db = Inr (rs, db') \<and> kv_admits s cs rs \<and> kv_rel rinv index 0 (fold kv_next cs s) db'"
  using assms(1,2)
proof (induction cs arbitrary: s db)
  case Nil
  then show ?case by (simp add: ret_def)
next
  case (Cons c cs)
  have rel: "kv_rel rinv index (Suc (length cs)) s db" and al: "kv_allowed c" using Cons.prems by simp_all
  obtain r d where 1: "kv_step R E c db = Inr (r, d)" "kv_answer s c r" "kv_rel rinv index (length cs) (kv_next c s) d"
    by (rule kv_step_ok [OF rel al io]) (rule that)
  obtain rs db' where 2: "kv_run R E cs d = Inr (rs, db')" "kv_admits (kv_next c s) cs rs"
    "kv_rel rinv index 0 (fold kv_next cs (kv_next c s)) db'"
    using Cons.IH [OF 1(3)] Cons.prems(2) by auto
  show ?case
    using 1(1,2) 2 by (intro exI [of _ "r # rs"] exI [of _ db']) (simp add: sbind_def ret_def)
qed

end

end
