(* ===== verification/LFU_Cache.thy ===== *)
theory LFU_Cache
  imports LRU_Cache
begin

text \<open>
  \<open>LFUCacheShard\<close> of src/cache/wlfu_cache.cc. The frequency list headed by \<open>freqList_\<close> is a list of
  frequencies with the handles of that frequency, from \<open>freqList_.next\<close> on; \<open>dummy\<close> is the list of the head node
  itself, whose frequency is 0 and which a handle only reaches when its 32-bit frequency wraps around. The node a handle is in
  is its \<open>parent\<close>. The hash table is that of the LRU cache with other class names.

  The last section relates a shard to an LRU shard with the same handles, so that the lemmas on insertion, release and
  erasure carry over.
\<close>

record 'v lfu_shard =
  lcapacity :: nat
  freqs :: "(u32 \<times> addr list) list"
  dummy :: "addr list"
  ltbl :: table
  lusage :: nat
  lmem :: "('v, unit) heap"
  lbrk :: addr

text \<open>\<open>sizeof(LFUHandle)\<close> on x86-64: one pointer more than an \<open>LRUHandle\<close>.\<close>

definition sizeof_LFUHandle :: nat where
  "sizeof_LFUHandle = 80"

definition LFU_CalcTotalCharge :: "'v handle \<Rightarrow> nat" where
  "LFU_CalcTotalCharge h = charge h + sizeof_LFUHandle - 1 + length (key_data h)"

subsection \<open>The hash table\<close>

definition LFUHandleTable_Resize :: "('v, 'm) heap \<Rightarrow> table \<Rightarrow> table option" where
  "LFUHandleTable_Resize hp t =
     (let n0 = (if ht_length t = 0 then 16 else push_bit 1 (ht_length t))
      in case grow n0 (ht_elems t) of
           None \<Rightarrow> None
         | Some n \<Rightarrow>
             Some (t\<lparr>ht_list := foldl (rehash_one hp n) (replicate (unat n) []) (concat (ht_list t)), ht_length := n\<rparr>))"

definition LFUHandleTable_FindPointer :: "('v, 'm) heap \<Rightarrow> table \<Rightarrow> bytes \<Rightarrow> u32 \<Rightarrow> addr option" where
  "LFUHandleTable_FindPointer hp t key hs = find (matches hp key hs) (ht_list t ! hash_idx hs (ht_length t))"

definition LFUHandleTable_Lookup :: "('v, 'm) heap \<Rightarrow> table \<Rightarrow> bytes \<Rightarrow> u32 \<Rightarrow> addr option" where
  "LFUHandleTable_Lookup hp t key hs = LFUHandleTable_FindPointer hp t key hs"

definition LFUHandleTable_Insert :: "('v, 'm) heap \<Rightarrow> table \<Rightarrow> addr \<Rightarrow> ('v, 'm) handle_scheme \<Rightarrow> (addr \<times> table) option" where
  "LFUHandleTable_Insert hp t a h =
     (case LFUHandleTable_FindPointer hp t (key_data h) (hash h) of
        Some old \<Rightarrow> Some (old, t)
      | None \<Rightarrow>
          let i = hash_idx (hash h) (ht_length t);
              t1 = t\<lparr>ht_list := (ht_list t)[i := a # ht_list t ! i], ht_elems := ht_elems t + 1\<rparr>
          in if ht_elems t1 > ht_length t1 then map_option (Pair a) (LFUHandleTable_Resize hp t1)
             else Some (a, t1))"

definition LFUHandleTable_Remove :: "('v, 'm) heap \<Rightarrow> table \<Rightarrow> bytes \<Rightarrow> u32 \<Rightarrow> addr option \<times> table" where
  "LFUHandleTable_Remove hp t key hs =
     (let i = hash_idx hs (ht_length t)
      in case find (matches hp key hs) (ht_list t ! i) of
           None \<Rightarrow> (None, t)
         | Some a \<Rightarrow> (Some a, t\<lparr>ht_list := (ht_list t)[i := remove1 a (ht_list t ! i)]\<rparr>))"

definition LFUHandleTable_new :: "('v, 'm) heap \<Rightarrow> table option" where
  "LFUHandleTable_new hp = LFUHandleTable_Resize hp \<lparr>ht_list = [], ht_length = 0, ht_elems = 0\<rparr>"

subsection \<open>The frequency list\<close>

definition lfu_upd_handle :: "addr \<Rightarrow> ('v handle \<Rightarrow> 'v handle) \<Rightarrow> 'v lfu_shard \<Rightarrow> 'v lfu_shard" where
  "lfu_upd_handle a f s = s\<lparr>lmem := (lmem s)(a := map_option f (lmem s a))\<rparr>"

definition lfu_Free :: "addr \<Rightarrow> 'v lfu_shard \<Rightarrow> 'v lfu_shard" where
  "lfu_Free a s = s\<lparr>lmem := (lmem s)(a := None)\<rparr>"

definition LFU_Remove :: "addr \<Rightarrow> 'v lfu_shard \<Rightarrow> 'v lfu_shard" where
  "LFU_Remove h s = s\<lparr>freqs := map (\<lambda>(f, hs). (f, remove1 h hs)) (freqs s), dummy := remove1 h (dummy s)\<rparr>"

text \<open>Appending to the node of frequency 1 at the front, which is made when it is not there.\<close>

fun push_lowest :: "addr \<Rightarrow> (u32 \<times> addr list) list \<Rightarrow> (u32 \<times> addr list) list" where
  "push_lowest h [] = [(1, [h])]"
| "push_lowest h ((f, hs) # fs) = (if f \<noteq> 1 then (1, [h]) # (f, hs) # fs else (f, hs @ [h]) # fs)"

definition LFU_Insert :: "addr \<Rightarrow> 'v lfu_shard \<Rightarrow> 'v lfu_shard" where
  "LFU_Insert h s = s\<lparr>freqs := push_lowest h (freqs s)\<rparr>"

text \<open>
  Moving a handle to the next frequency. The node after the last one is the head node, of frequency 0; the
  flag says that the handle ends up there. A node that becomes empty is deleted.
\<close>

fun bump :: "addr \<Rightarrow> (u32 \<times> addr list) list \<Rightarrow> (u32 \<times> addr list) list \<times> bool" where
  "bump h [] = ([], False)"
| "bump h ((f, hs) # fs) =
     (if h \<in> set hs then
        let cur = (if remove1 h hs = [] then [] else [(f, remove1 h hs)])
        in case fs of
             [] \<Rightarrow> if 0 \<noteq> f + 1 then (cur @ [(f + 1, [h])], False) else (cur, True)
           | (g, gs) # fs' \<Rightarrow>
               if g \<noteq> f + 1 then (cur @ (f + 1, [h]) # fs, False) else (cur @ (g, gs @ [h]) # fs', False)
      else let (fs', b) = bump h fs in ((f, hs) # fs', b))"

text \<open>A handle of the head node: when it is the last one there, the head node itself, which is a member of the shard, is deleted.\<close>

definition LFU_Update :: "addr \<Rightarrow> 'v lfu_shard \<Rightarrow> 'v lfu_shard res" where
  "LFU_Update h s =
     (if h \<in> set (dummy s) then
        if remove1 h (dummy s) = [] then Inl Bad_Free
        else Inr (s\<lparr>freqs := push_lowest h (freqs s), dummy := remove1 h (dummy s)\<rparr>)
      else
        let (fs, b) = bump h (freqs s)
        in Inr (s\<lparr>freqs := fs, dummy := (if b then dummy s @ [h] else dummy s)\<rparr>))"

text \<open>
  \<open>EvictFromLFU\<close>: the inner loop takes handles from the front of a node until one is referenced or enough is free, the outer
  loop goes over the nodes. The lists that are left are returned with the evicted handles.
\<close>

fun evict_node :: "nat \<Rightarrow> addr list \<Rightarrow> 'v lfu_shard \<Rightarrow> 'v lfu_shard \<times> addr list \<times> addr list" where
  "evict_node c [] s = (s, [], [])"
| "evict_node c (h # hs) s =
     (case lmem s h of
        None \<Rightarrow> (s, h # hs, [])
      | Some he \<Rightarrow>
          if \<not> HasRefs he \<and> lusage s + c > lcapacity s then
            let s1 = s\<lparr>ltbl := snd (LFUHandleTable_Remove (lmem s) (ltbl s) (key_data he) (hash he)),
                       lusage := lusage s - LFU_CalcTotalCharge he\<rparr>;
                (s2, left, deleted) = evict_node c hs s1
            in (s2, left, h # deleted)
          else (s, h # hs, []))"

fun evict_freqs :: "nat \<Rightarrow> (u32 \<times> addr list) list \<Rightarrow> 'v lfu_shard \<Rightarrow> 'v lfu_shard \<times> (u32 \<times> addr list) list \<times> addr list" where
  "evict_freqs c [] s = (s, [], [])"
| "evict_freqs c ((f, hs) # fs) s =
     (if lusage s + c > lcapacity s then
        let (s1, left, del1) = evict_node c hs s;
            (s2, fs', del2) = evict_freqs c fs s1
        in (s2, (if left = [] then fs' else (f, left) # fs'), del1 @ del2)
      else (s, (f, hs) # fs, []))"

definition EvictFromLFU :: "nat \<Rightarrow> 'v lfu_shard \<Rightarrow> 'v lfu_shard \<times> addr list" where
  "EvictFromLFU c s = (let (s', fs, deleted) = evict_freqs c (freqs s) s in (s'\<lparr>freqs := fs\<rparr>, deleted))"

subsection \<open>Operations\<close>

definition LFUCacheShard_SetCapacity :: "nat \<Rightarrow> 'v lfu_shard \<Rightarrow> 'v lfu_shard" where
  "LFUCacheShard_SetCapacity c s = s\<lparr>lcapacity := c\<rparr>"

definition LFUCacheShard_new :: "nat \<Rightarrow> 'v lfu_shard option" where
  "LFUCacheShard_new c =
     map_option (\<lambda>t. LFUCacheShard_SetCapacity c
         \<lparr>lcapacity = 0, freqs = [], dummy = [], ltbl = t, lusage = 0, lmem = Map.empty, lbrk = 0\<rparr>)
       (LFUHandleTable_new (Map.empty :: ('v, unit) heap))"

definition LFUCacheShard_Insert :: "bytes \<Rightarrow> u32 \<Rightarrow> 'v \<Rightarrow> nat \<Rightarrow> 'v lfu_shard \<Rightarrow> (addr \<times> 'v lfu_shard) res" where
  "LFUCacheShard_Insert key hs v c s0 =
     (let h = lbrk s0;
          he = \<lparr>hvalue = v, key_data = key, charge = c, inCache = 0, hash = hs, refs = 0\<rparr>;
          total_charge = LFU_CalcTotalCharge he;
          s1 = s0\<lparr>lmem := (lmem s0)(h \<mapsto> he), lbrk := h + 1\<rparr>;
          (s2, lru_list) = (if total_charge + c > lcapacity s1 then EvictFromLFU total_charge s1 else (s1, []))
      in case LFUHandleTable_Insert (lmem s2) (ltbl s2) h he of
           None \<Rightarrow> Inl Hang
         | Some (old_h, t) \<Rightarrow>
             let s3 = s2\<lparr>ltbl := t\<rparr> in
             if old_h \<noteq> h then
               rbind (LFU_Update old_h s3) (\<lambda>s4.
                 Inr (old_h, fold lfu_Free (lru_list @ [h]) (lfu_upd_handle old_h Ref s4)))
             else
               let s4 = lfu_upd_handle h Ref (LFU_Insert h s3)
               in Inr (h, fold lfu_Free lru_list (s4\<lparr>lusage := lusage s4 + total_charge\<rparr>)))"

definition LFUCacheShard_Lookup :: "bytes \<Rightarrow> u32 \<Rightarrow> 'v lfu_shard \<Rightarrow> (addr option \<times> 'v lfu_shard) res" where
  "LFUCacheShard_Lookup key hs s =
     (case LFUHandleTable_Lookup (lmem s) (ltbl s) key hs of
        None \<Rightarrow> Inr (None, s)
      | Some h \<Rightarrow> rbind (LFU_Update h s) (\<lambda>s'. Inr (Some h, lfu_upd_handle h Ref s')))"

definition LFUCacheShard_Release :: "addr \<Rightarrow> 'v lfu_shard \<Rightarrow> 'v lfu_shard" where
  "LFUCacheShard_Release h s =
     (case lmem s h of
        None \<Rightarrow> s
      | Some he \<Rightarrow>
          let (last_reference, he') = Unref he;
              s1 = lfu_upd_handle h (\<lambda>_. he') s
          in if last_reference \<and> \<not> InCache he' then
               let s2 = LFU_Remove h s1
               in lfu_Free h (s2\<lparr>lusage := lusage s2 - LFU_CalcTotalCharge he'\<rparr>)
             else s1)"

definition LFUCacheShard_Erase :: "bytes \<Rightarrow> u32 \<Rightarrow> 'v lfu_shard \<Rightarrow> bool \<times> 'v lfu_shard" where
  "LFUCacheShard_Erase key hs s =
     (case LFUHandleTable_Remove (lmem s) (ltbl s) key hs of
        (None, t) \<Rightarrow> (False, s\<lparr>ltbl := t\<rparr>)
      | (Some h, t) \<Rightarrow>
          let s1 = lfu_upd_handle h (SetInCache False) (s\<lparr>ltbl := t\<rparr>)
          in case lmem s1 h of
               None \<Rightarrow> (True, s1)
             | Some he \<Rightarrow>
                 if \<not> HasRefs he then
                   let s2 = LFU_Remove h s1
                   in (True, lfu_Free h (s2\<lparr>lusage := lusage s2 - LFU_CalcTotalCharge he\<rparr>))
                 else (True, s1))"

definition LFUCacheShard_GetUsage :: "'v lfu_shard \<Rightarrow> nat" where
  "LFUCacheShard_GetUsage s = lusage s"

definition NewLFUCache :: "nat \<Rightarrow> int \<Rightarrow> 'v lfu_shard sharded option res" where
  "NewLFUCache cap bits = new_cache LFUCacheShard_new cap bits"

lemma LFUHandleTable_eqs:
  "LFUHandleTable_Resize = LRUHandleTable_Resize"
  "LFUHandleTable_FindPointer = LRUHandleTable_FindPointer"
  "LFUHandleTable_Lookup = LRUHandleTable_Lookup"
  "LFUHandleTable_Remove = LRUHandleTable_Remove"
  by (simp_all add: fun_eq_iff LFUHandleTable_Resize_def LRUHandleTable_Resize_def
      LFUHandleTable_FindPointer_def LRUHandleTable_FindPointer_def LFUHandleTable_Lookup_def
      LRUHandleTable_Lookup_def LFUHandleTable_Remove_def LRUHandleTable_Remove_def)

lemma LFUHandleTable_eqs2:
  "LFUHandleTable_Insert = LRUHandleTable_Insert" "LFUHandleTable_new = LRUHandleTable_new"
  by (unfold LFUHandleTable_eqs LFUHandleTable_Insert_def LRUHandleTable_Insert_def
      LFUHandleTable_new_def LRUHandleTable_new_def) (rule refl)+

subsection \<open>The frequencies\<close>

definition handles :: "(u32 \<times> addr list) list \<Rightarrow> addr list" where
  "handles fs = concat (map snd fs)"

lemma handles_simps [simp]: "handles [] = []" "handles ((f, hs) # fs) = hs @ handles fs" "handles (xs @ ys) = handles xs @ handles ys"
  by (simp_all add: handles_def)

text \<open>The frequency a handle is filed under.\<close>

fun freq_of :: "(u32 \<times> addr list) list \<Rightarrow> addr \<Rightarrow> u32 option" where
  "freq_of [] a = None"
| "freq_of ((f, hs) # fs) a = (if a \<in> set hs then Some f else freq_of fs a)"

text \<open>The frequencies ascend, start at 1 and can be incremented \<open>N\<close> times.\<close>

definition freqs_ok :: "nat \<Rightarrow> (u32 \<times> addr list) list \<Rightarrow> bool" where
  "freqs_ok N fs \<longleftrightarrow> sorted_wrt (<) (map fst fs) \<and> (\<forall>x \<in> set fs. 0 < unat (fst x) \<and> unat (fst x) + N < 2 ^ 32)"

lemma freqs_ok_Cons [simp]:
  "freqs_ok N ((f, hs) # fs) \<longleftrightarrow> 0 < unat f \<and> unat f + N < 2 ^ 32 \<and> (\<forall>x \<in> set fs. f < fst x) \<and> freqs_ok N fs"
  by (auto simp: freqs_ok_def)

lemma freqs_ok_Nil [simp]: "freqs_ok N []"
  by (simp add: freqs_ok_def)

lemma freqs_ok_mono: "freqs_ok N fs \<Longrightarrow> M \<le> N \<Longrightarrow> freqs_ok M fs"
  by (auto simp: freqs_ok_def)

lemma next_freq:
  assumes "unat (f :: u32) + Suc N < 2 ^ 32"
  shows "unat (f + 1) = unat f + 1" "f + 1 \<noteq> 0" "f < f + 1" "f < g \<Longrightarrow> g \<noteq> f + 1 \<Longrightarrow> f + 1 < g"
proof -
  show u: "unat (f + 1) = unat f + 1" using unat_add_small [of f 1] assms by simp
  then show "f + 1 \<noteq> 0" by (metis add_is_0 unat_0 one_neq_zero)
  show "f < f + 1" using u by (simp add: word_less_nat_alt)
  show "f < g \<Longrightarrow> g \<noteq> f + 1 \<Longrightarrow> f + 1 < g"
    using u by (simp add: word_less_nat_alt word_unat_eq_iff [of g])
qed

lemma freq_of_None: "freq_of fs a = None \<longleftrightarrow> a \<notin> set (handles fs)"
  by (induction fs a rule: freq_of.induct) auto

text \<open>Moving a handle up raises its frequency by one and keeps all others.\<close>

lemma bump_ok:
  assumes "freqs_ok (Suc N) fs" "distinct (handles fs)" "h \<in> set (handles fs)" "bump h fs = (r, b)"
  shows "\<not> b \<and> freqs_ok N r \<and> mset (handles r) = mset (handles fs) \<and> (\<forall>x \<in> set r. \<exists>y \<in> set fs. fst y \<le> fst x) \<and>
    freq_of r h = map_option (\<lambda>f. f + 1) (freq_of fs h) \<and> (\<forall>a. a \<noteq> h \<longrightarrow> freq_of r a = freq_of fs a)"
  using assms
proof (induction h fs arbitrary: r b rule: bump.induct)
  case (2 h f hs fs)
  have fl: "freqs_ok N fs" using 2(2) freqs_ok_mono [of "Suc N" fs N] by simp
  have lo: "\<And>x. x \<in> set fs \<Longrightarrow> f < fst x" and nx: "unat f + Suc N < 2 ^ 32" "0 < unat f" using 2(2) by auto
  note f1 = next_freq [OF nx(1)]
  show ?case
  proof (cases "h \<in> set hs")
    case False
    obtain r' b' where b: "bump h fs = (r', b')" by fastforce
    have r: "r = (f, hs) # r'" "b = b'" using 2(5) False b by auto
    have ih: "\<not> b' \<and> freqs_ok N r' \<and> mset (handles r') = mset (handles fs) \<and> (\<forall>x \<in> set r'. \<exists>y \<in> set fs. fst y \<le> fst x) \<and>
      freq_of r' h = map_option (\<lambda>f. f + 1) (freq_of fs h) \<and> (\<forall>a. a \<noteq> h \<longrightarrow> freq_of r' a = freq_of fs a)"
      using 2(1) [OF False _ _ _ b] 2(2,3,4) False by auto
    have "f < fst x" if "x \<in> set r'" for x using ih lo that by (meson order_less_le_trans)
    then show ?thesis using ih r nx False by auto
  next
    case True
    have hd: "h \<notin> set (handles fs)" "distinct hs" using 2(3) True by auto
    have mh: "mset hs = add_mset h (mset (remove1 h hs))" using True by simp
    let ?cur = "if remove1 h hs = [] then [] else [(f, remove1 h hs)]"
    have cur: "handles ?cur = remove1 h hs" "\<And>x. x \<in> set ?cur \<Longrightarrow> fst x = f" by (auto split: if_splits)
    have fo: "freq_of (?cur @ xs) a = (if a \<in> set (remove1 h hs) then Some f else freq_of xs a)" for xs a by simp
    have rem: "a \<in> set (remove1 h hs) \<longleftrightarrow> a \<in> set hs \<and> a \<noteq> h" for a using hd(2) by simp
    consider (last) "fs = []" | (new) g gs fs' where "fs = (g, gs) # fs'" "g \<noteq> f + 1"
      | (old) g gs fs' where "fs = (g, gs) # fs'" "g = f + 1"
      by (metis list.exhaust surj_pair)
    then show ?thesis
    proof cases
      case last
      then have r: "r = ?cur @ [(f + 1, [h])]" "\<not> b" using 2(5) True f1(2) by (auto simp: Let_def)
      show ?thesis
        unfolding r(1) fo using r(2) last True mh cur nx f1 by (auto simp: rem split: if_splits)
    next
      case new
      then have r: "r = ?cur @ (f + 1, [h]) # fs" "\<not> b" using 2(5) True by (auto simp: Let_def)
      have "f < g" using lo [of "(g, gs)"] new(1) by simp
      then have lt: "f + 1 < g" using f1(4) new(2) by blast
      have "f + 1 < fst x" if "x \<in> set fs" for x using that lt fl new(1) by (auto intro: less_trans)
      then show ?thesis
        unfolding r(1) fo using r(2) True mh cur nx f1 lo fl hd(1) freq_of_None [of fs h] by (auto simp: rem split: if_splits)
    next
      case old
      then have r: "r = ?cur @ (g, gs @ [h]) # fs'" "\<not> b" using 2(5) True by (auto simp: Let_def)
      show ?thesis
        unfolding r(1) fo using r(2) True mh cur nx f1 lo fl hd(1) old by (auto simp: rem split: if_splits)
    qed
  qed
qed simp

lemma push_lowest_ok:
  assumes "freqs_ok N fs" "N < 2 ^ 32 - 1" "h \<notin> set (handles fs)"
  shows "freqs_ok N (push_lowest h fs)" "mset (handles (push_lowest h fs)) = add_mset h (mset (handles fs))"
    "freq_of (push_lowest h fs) h = Some 1" "a \<noteq> h \<Longrightarrow> freq_of (push_lowest h fs) a = freq_of fs a"
proof -
  have "1 < f" if "0 < unat f" "f \<noteq> 1" for f :: u32
    using that by (simp add: word_less_nat_alt word_unat_eq_iff [of f])
  then have one: "\<forall>x \<in> set ((f, hs) # gs). 1 < fst x" if "freqs_ok N ((f, hs) # gs)" "f \<noteq> 1" for f hs gs
    using that by (auto intro: less_trans)
  have "freqs_ok N (push_lowest h fs) \<and> mset (handles (push_lowest h fs)) = add_mset h (mset (handles fs)) \<and>
    freq_of (push_lowest h fs) h = Some 1 \<and> (a \<noteq> h \<longrightarrow> freq_of (push_lowest h fs) a = freq_of fs a)"
  proof (cases fs)
    case (Cons x gs)
    obtain f hs where "x = (f, hs)" by (cases x)
    then show ?thesis using assms one [of f hs gs] Cons by auto
  qed (use assms in simp)
  then show "freqs_ok N (push_lowest h fs)" "mset (handles (push_lowest h fs)) = add_mset h (mset (handles fs))"
    "freq_of (push_lowest h fs) h = Some 1" "a \<noteq> h \<Longrightarrow> freq_of (push_lowest h fs) a = freq_of fs a"
    by blast+
qed

lemma handles_remove:
  assumes "distinct (handles fs)"
  shows "handles (map (\<lambda>(f, hs). (f, remove1 h hs)) fs) = remove1 h (handles fs)"
proof -
  have notin: "handles (map (\<lambda>(f, hs). (f, remove1 h hs)) fs) = handles fs" if "h \<notin> set (handles fs)" for fs
    using that by (induction fs) (auto simp: remove1_idem)
  show ?thesis
    using assms
  proof (induction fs)
    case (Cons x fs)
    obtain f hs where x: "x = (f, hs)" by (cases x)
    show ?case
    proof (cases "h \<in> set hs")
      case True
      then have "h \<notin> set (handles fs)" using Cons.prems by (auto simp: x)
      then show ?thesis using True notin [of fs] by (simp add: x remove1_append)
    next
      case False
      then show ?thesis using Cons by (simp add: x remove1_append remove1_idem)
    qed
  qed simp
qed

lemma freqs_ok_remove: "freqs_ok N (map (\<lambda>(f, hs). (f, remove1 h hs)) fs) = freqs_ok N fs"
proof -
  have "map fst (map (\<lambda>(f, hs). (f, remove1 h hs)) fs) = map fst fs" by (induction fs) auto
  moreover have "(\<forall>x \<in> set (map (\<lambda>(f, hs). (f, remove1 h hs)) fs). 0 < unat (fst x) \<and> unat (fst x) + N < 2 ^ 32) =
      (\<forall>x \<in> set fs. 0 < unat (fst x) \<and> unat (fst x) + N < 2 ^ 32)"
    by (induction fs) auto
  ultimately show ?thesis by (simp only: freqs_ok_def)
qed

subsection \<open>Seen as an LRU shard\<close>

definition lfu_list :: "'v lfu_shard \<Rightarrow> addr list" where
  "lfu_list s = handles (freqs s) @ dummy s"

definition lfu_abs :: "'v lfu_shard \<Rightarrow> 'v shard" where
  "lfu_abs s = \<lparr>capacity = lcapacity s, lru = lfu_list s, tbl = ltbl s, usage = charges (lmem s) (lfu_list s),
     hmem = lmem s, brk = lbrk s\<rparr>"

definition lcharge_at :: "('v, unit) heap \<Rightarrow> addr \<Rightarrow> nat" where
  "lcharge_at hp a = (case hp a of None \<Rightarrow> 0 | Some h \<Rightarrow> LFU_CalcTotalCharge h)"

definition lcharges :: "('v, unit) heap \<Rightarrow> addr list \<Rightarrow> nat" where
  "lcharges hp xs = sum_list (map (lcharge_at hp) xs)"

text \<open>The invariant; \<open>N\<close> more lookups fit the 32-bit frequencies.\<close>

definition lfu_inv :: "nat \<Rightarrow> 'v lfu_shard \<Rightarrow> bool" where
  "lfu_inv N s \<longleftrightarrow> shard_inv (lfu_abs s) \<and> dummy s = [] \<and> lusage s = lcharges (lmem s) (lfu_list s) \<and>
     freqs_ok N (freqs s) \<and> N < 2 ^ 32 - 1"

lemma lfu_abs_simps [simp]:
  "capacity (lfu_abs s) = lcapacity s" "lru (lfu_abs s) = lfu_list s" "tbl (lfu_abs s) = ltbl s"
  "usage (lfu_abs s) = charges (lmem s) (lfu_list s)" "hmem (lfu_abs s) = lmem s" "brk (lfu_abs s) = lbrk s"
  by (simp_all add: lfu_abs_def)

lemma lfu_invD:
  assumes "lfu_inv N s"
  shows "shard_inv (lfu_abs s)" "dummy s = []" "lusage s = lcharges (lmem s) (lfu_list s)" "freqs_ok N (freqs s)"
    "lfu_list s = handles (freqs s)" "distinct (handles (freqs s))" "N < 2 ^ 32 - 1"
  using assms core_parts(2) [of "lfu_abs s"] by (auto simp: lfu_inv_def lfu_list_def)

text \<open>Two LRU shards that differ at most in the order of their lists.\<close>

definition reordered :: "'v shard \<Rightarrow> 'v shard \<Rightarrow> bool" where
  "reordered t t' \<longleftrightarrow> (\<exists>xs. mset xs = mset (lru t) \<and> t' = t\<lparr>lru := xs\<rparr>)"

lemma reordered_refl [simp]: "reordered t t"
  unfolding reordered_def by (rule exI [of _ "lru t"]) simp

lemma reorderedD:
  assumes "reordered t t'"
  shows "shard_inv t \<Longrightarrow> shard_inv t'" "contents t' = contents t" "refs_at t' = refs_at t" "value_at t' = value_at t"
    "load t' = load t" "capacity t' = capacity t" "hmem t' = hmem t" "tbl t' = tbl t"
proof -
  obtain xs where x: "mset xs = mset (lru t)" "t' = t\<lparr>lru := xs\<rparr>" using assms by (auto simp: reordered_def)
  show "shard_inv t \<Longrightarrow> shard_inv t'" unfolding x(2) by (rule shard_inv_reorder [OF _ x(1)])
  show "contents t' = contents t" "refs_at t' = refs_at t" "value_at t' = value_at t"
    "load t' = load t" "capacity t' = capacity t" "hmem t' = hmem t" "tbl t' = tbl t"
    by (simp_all add: x(2) contents_def refs_at_def value_at_def load_def fun_eq_iff split: option.split)
qed

text \<open>The view of a shard is determined by its heap, table and list; its usage is their charge.\<close>

lemma lfu_abs_reordered:
  assumes "shard_inv t" "lmem s = hmem t" "mset (lfu_list s) = mset (lru t)" "ltbl s = tbl t" "lcapacity s = capacity t"
    "lbrk s = brk t"
  shows "reordered t (lfu_abs s)"
proof -
  have "usage t = charges (hmem t) (lru t)" using core_parts(5) [OF assms(1)] .
  then have "usage t = charges (lmem s) (lfu_list s)" using mset_charges [OF assms(3), of "hmem t"] assms(2) by simp
  then have "lfu_abs s = t\<lparr>lru := lfu_list s\<rparr>" using assms by (intro shard.equality) simp_all
  then show ?thesis using assms(3) by (auto simp: reordered_def)
qed

lemma lcharges_simps [simp]:
  "lcharges hp [] = 0" "lcharges hp (x # xs) = lcharge_at hp x + lcharges hp xs"
  "lcharges hp (xs @ ys) = lcharges hp xs + lcharges hp ys"
  by (simp_all add: lcharges_def)

lemma lcharges_cong: "(\<And>a. a \<in> set xs \<Longrightarrow> lcharge_at hp' a = lcharge_at hp a) \<Longrightarrow> lcharges hp' xs = lcharges hp xs"
  unfolding lcharges_def by (metis map_cong)

lemma lcharges_mset: "mset xs = mset ys \<Longrightarrow> lcharges hp xs = lcharges hp ys"
  unfolding lcharges_def by (metis mset_map sum_mset_sum_list)

lemma lcharges_remove1: "x \<in> set xs \<Longrightarrow> lcharges hp xs = lcharge_at hp x + lcharges hp (remove1 x xs)"
  by (induction xs) auto

lemma LFU_charge_simps [simp]:
  "LFU_CalcTotalCharge (Ref h) = LFU_CalcTotalCharge h" "LFU_CalcTotalCharge (SetInCache f h) = LFU_CalcTotalCharge h"
  "LFU_CalcTotalCharge (h\<lparr>refs := n\<rparr>) = LFU_CalcTotalCharge h"
  by (simp_all add: LFU_CalcTotalCharge_def Ref_def SetInCache_def)

lemma lcharges_upd:
  "(\<And>h. hp a = Some h \<Longrightarrow> LFU_CalcTotalCharge (f h) = LFU_CalcTotalCharge h) \<Longrightarrow>
    lcharges (hp(a := map_option f (hp a))) xs = lcharges hp xs"
  by (intro lcharges_cong) (auto simp: lcharge_at_def split: option.split)

subsection \<open>Lookup, release, erase\<close>

lemma LFU_Update_ok:
  assumes D: "dummy s = []" "freqs_ok (Suc N) (freqs s)" "distinct (handles (freqs s))" and h: "h \<in> set (handles (freqs s))"
  obtains fs where "LFU_Update h s = Inr (s\<lparr>freqs := fs\<rparr>)" "freqs_ok N fs" "mset (handles fs) = mset (handles (freqs s))"
    "freq_of fs h = map_option (\<lambda>f. f + 1) (freq_of (freqs s) h)" "\<And>a. a \<noteq> h \<Longrightarrow> freq_of fs a = freq_of (freqs s) a"
proof -
  obtain fs b where b: "bump h (freqs s) = (fs, b)" by fastforce
  note B = bump_ok [OF D(2,3) h b]
  have nb: "b = False" using B by blast
  have "LFU_Update h s = Inr (s\<lparr>freqs := fs\<rparr>)" using D(1) b nb by (simp add: LFU_Update_def)
  then show thesis using B by (intro that) blast+
qed

text \<open>
  \<open>Lookup\<close> does what the LRU cache does, but for the order of the handles: the frequency of the
  handle it returns goes up by one.
\<close>

lemma LFU_Lookup_ok:
  assumes inv: "lfu_inv (Suc N) s"
  obtains r s' where "LFUCacheShard_Lookup key hs s = Inr (r, s')" "lfu_inv N s'"
    "reordered (snd (LRUCacheShard_Lookup key hs (lfu_abs s))) (lfu_abs s')"
    "r = fst (LRUCacheShard_Lookup key hs (lfu_abs s))"
    "\<forall>a. freq_of (freqs s') a = (if r = Some a then map_option (\<lambda>f. f + 1) (freq_of (freqs s) a) else freq_of (freqs s) a)"
proof (cases "LRUHandleTable_FindPointer (lmem s) (ltbl s) key hs")
  case None
  have m: "lfu_inv N s" using inv freqs_ok_mono [of "Suc N" "freqs s" N] by (auto simp: lfu_inv_def)
  show thesis
    by (rule that [of None s]) (use None m in \<open>simp_all add: LFUCacheShard_Lookup_def LFUHandleTable_eqs
        LRUHandleTable_Lookup_def LRUCacheShard_Lookup_def\<close>)
next
  case (Some a)
  note D = lfu_invD [OF inv]
  let ?t = "lfu_abs s"
  have f: "LRUHandleTable_FindPointer (hmem ?t) (tbl ?t) key hs = Some a" using Some by simp
  obtain h where h: "a \<in> set (lru ?t)" "hmem ?t a = Some h" by (rule FindPointer_in_lru [OF D(1) f]) (rule that)
  have al: "a \<in> set (lfu_list s)" using h(1) by simp
  obtain fs where u: "LFU_Update a s = Inr (s\<lparr>freqs := fs\<rparr>)" "freqs_ok N fs" "mset (handles fs) = mset (handles (freqs s))"
    "freq_of fs a = map_option (\<lambda>f. f + 1) (freq_of (freqs s) a)" "\<And>b. b \<noteq> a \<Longrightarrow> freq_of fs b = freq_of (freqs s) b"
    by (rule LFU_Update_ok [OF D(2,4,6)]) (use al D(5) in simp, rule that)
  let ?s = "lfu_upd_handle a Ref (s\<lparr>freqs := fs\<rparr>)"
  have l: "LRUCacheShard_Lookup key hs ?t = (Some a, upd_handle a Ref (LRU_Insert a (LRU_Remove a ?t)))"
    using Some by (simp add: LRUCacheShard_Lookup_def LRUHandleTable_Lookup_def)
  note L = LRUCacheShard_Lookup_ok(1) [OF D(1) l]
  have ls: "mset (lfu_list ?s) = mset (lfu_list s)" using u(3) D(2) by (simp add: lfu_list_def lfu_upd_handle_def)
  have lr: "mset (lfu_list ?s) = mset (lru (upd_handle a Ref (LRU_Insert a (LRU_Remove a ?t))))"
    using ls al by simp
  have ro: "reordered (upd_handle a Ref (LRU_Insert a (LRU_Remove a ?t))) (lfu_abs ?s)"
    by (rule lfu_abs_reordered [OF L _ lr]) (simp_all add: lfu_upd_handle_def)
  have us: "lcharges (lmem ?s) (lfu_list ?s) = lcharges (lmem s) (lfu_list s)"
    using lcharges_mset [OF ls, of "lmem ?s"] lcharges_upd [of "lmem s" a Ref] by (simp add: lfu_upd_handle_def)
  show thesis
  proof (rule that [of "Some a" ?s])
    show "LFUCacheShard_Lookup key hs s = Inr (Some a, ?s)"
      using Some u(1) by (simp add: LFUCacheShard_Lookup_def LFUHandleTable_eqs LRUHandleTable_Lookup_def)
    show "lfu_inv N ?s"
      using reorderedD(1) [OF ro L] us D(2,3,7) u(2) by (simp add: lfu_inv_def) (simp add: lfu_upd_handle_def)
    show "reordered (snd (LRUCacheShard_Lookup key hs ?t)) (lfu_abs ?s)" using ro l by simp
    show "\<forall>b. freq_of (freqs ?s) b = (if Some a = Some b then map_option (\<lambda>f. f + 1) (freq_of (freqs s) b) else freq_of (freqs s) b)"
      using u(4,5) by (simp add: lfu_upd_handle_def)
  qed (simp add: l)
qed

text \<open>\<open>Release\<close> and \<open>Erase\<close> do what the LRU cache does.\<close>

lemma lfu_abs_eq:
  assumes "shard_inv t" "lmem s = hmem t" "lfu_list s = lru t" "ltbl s = tbl t" "lcapacity s = capacity t" "lbrk s = brk t"
  shows "lfu_abs s = t"
  using assms core_parts(5) [OF assms(1)] by (intro shard.equality) simp_all

lemma lfu_list_remove: "lfu_inv N s \<Longrightarrow> lfu_list (LFU_Remove h s) = remove1 h (lfu_list s)"
  using lfu_invD [of N s] by (simp add: lfu_list_def LFU_Remove_def handles_remove)

lemma lfu_drop_usage:
  assumes inv: "lfu_inv N s" and a: "lmem s a = Some h" "LFU_CalcTotalCharge h' = LFU_CalcTotalCharge h"
  shows "lusage s - LFU_CalcTotalCharge h' = lcharges ((lmem s)(a := None)) (remove1 a (lfu_list s))"
proof -
  note D = lfu_invD [OF inv]
  have al: "a \<in> set (lfu_list s)" using core_parts(3) [OF D(1)] a(1) by auto
  have "lcharges ((lmem s)(a := None)) (remove1 a (lfu_list s)) = lcharges (lmem s) (remove1 a (lfu_list s))"
    using D(5,6) by (intro lcharges_cong) (auto simp: lcharge_at_def)
  then show ?thesis
    using lcharges_remove1 [OF al, of "lmem s"] D(3) a by (simp add: lcharge_at_def)
qed

lemma LFU_Release_ok:
  assumes inv: "lfu_inv N s" and a: "lmem s a = Some h" and r: "refs h \<noteq> 0"
  shows "lfu_inv N (LFUCacheShard_Release a s)" "lfu_abs (LFUCacheShard_Release a s) = LRUCacheShard_Release a (lfu_abs s)"
proof -
  note D = lfu_invD [OF inv]
  let ?t = "lfu_abs s" and ?s' = "LFUCacheShard_Release a s" and ?h = "h\<lparr>refs := refs h - 1\<rparr>"
  have a': "hmem ?t a = Some h" using a by simp
  note R = LRUCacheShard_Release_ok(1) [OF D(1) a' r]
  have fields: "lmem ?s' = hmem (LRUCacheShard_Release a ?t)" "lfu_list ?s' = lru (LRUCacheShard_Release a ?t)"
    "ltbl ?s' = tbl (LRUCacheShard_Release a ?t)" "lcapacity ?s' = capacity (LRUCacheShard_Release a ?t)"
    "lbrk ?s' = brk (LRUCacheShard_Release a ?t)"
    using a lfu_list_remove [OF inv, of a] by (auto simp: LFUCacheShard_Release_def LRUCacheShard_Release_def Unref_def Let_def
        LFU_Remove_def lfu_Free_def lfu_upd_handle_def lfu_list_def)
  show ab: "lfu_abs ?s' = LRUCacheShard_Release a ?t" by (rule lfu_abs_eq [OF R fields])
  have "lusage ?s' = lcharges (lmem ?s') (lfu_list ?s')"
  proof (cases "refs h - 1 = 0 \<and> \<not> InCache ?h")
    case True
    have "lmem ?s' = (lmem s)(a := None)" "lfu_list ?s' = remove1 a (lfu_list s)" "lusage ?s' = lusage s - LFU_CalcTotalCharge ?h"
      using a True lfu_list_remove [OF inv, of a] by (auto simp: LFUCacheShard_Release_def Unref_def Let_def
          LFU_Remove_def lfu_Free_def lfu_upd_handle_def lfu_list_def)
    then show ?thesis using lfu_drop_usage [OF inv a, of ?h] by simp
  next
    case False
    then have "?s' = lfu_upd_handle a (\<lambda>_. ?h) s" using a by (auto simp: LFUCacheShard_Release_def Unref_def Let_def)
    then show ?thesis using a D(3) lcharges_upd [of "lmem s" a "\<lambda>_. ?h" "lfu_list s"] by (simp add: lfu_upd_handle_def lfu_list_def)
  qed
  moreover have "dummy ?s' = []" "freqs_ok N (freqs ?s')"
    using a D(2,4) by (auto simp: LFUCacheShard_Release_def Unref_def Let_def LFU_Remove_def lfu_Free_def lfu_upd_handle_def freqs_ok_remove)
  ultimately show "lfu_inv N ?s'" using R ab D(7) by (simp add: lfu_inv_def)
qed

lemma LFU_Erase_ok:
  assumes inv: "lfu_inv N s"
  shows "lfu_inv N (snd (LFUCacheShard_Erase key hs s))"
    "fst (LFUCacheShard_Erase key hs s) = fst (LRUCacheShard_Erase key hs (lfu_abs s))"
    "lfu_abs (snd (LFUCacheShard_Erase key hs s)) = snd (LRUCacheShard_Erase key hs (lfu_abs s))"
proof -
  note D = lfu_invD [OF inv]
  let ?t = "lfu_abs s" and ?s' = "snd (LFUCacheShard_Erase key hs s)" and ?t' = "snd (LRUCacheShard_Erase key hs (lfu_abs s))"
  have E: "shard_inv ?t'" using LRUCacheShard_Erase_ok(1) [OF D(1) prod.collapse [symmetric]] .
  have fields: "lmem ?s' = hmem ?t'" "lfu_list ?s' = lru ?t'" "ltbl ?s' = tbl ?t'" "lcapacity ?s' = capacity ?t'" "lbrk ?s' = brk ?t'"
    using lfu_list_remove [OF inv] by (auto simp: LFUCacheShard_Erase_def LRUCacheShard_Erase_def Let_def LFUHandleTable_eqs
        LFU_Remove_def lfu_Free_def lfu_upd_handle_def lfu_list_def split: prod.splits option.splits)
  show ab: "lfu_abs ?s' = ?t'" by (rule lfu_abs_eq [OF E fields])
  show "fst (LFUCacheShard_Erase key hs s) = fst (LRUCacheShard_Erase key hs ?t)"
    by (auto simp: LFUCacheShard_Erase_def LRUCacheShard_Erase_def Let_def LFUHandleTable_eqs lfu_upd_handle_def split: prod.splits option.splits)
  have "lusage ?s' = lcharges (lmem ?s') (lfu_list ?s')"
  proof (cases "LRUHandleTable_FindPointer (lmem s) (ltbl s) key hs")
    case None
    then show ?thesis
      using LRUHandleTable_Remove_None [of "lmem s" "ltbl s" key hs] D(3)
      by (simp add: LFUCacheShard_Erase_def LFUHandleTable_eqs lfu_list_def)
  next
    case (Some a)
    have f: "LRUHandleTable_FindPointer (hmem ?t) (tbl ?t) key hs = Some a" using Some by simp
    obtain h where h: "a \<in> set (lru ?t)" "hmem ?t a = Some h" by (rule FindPointer_in_lru [OF D(1) f]) (rule that)
    obtain t where t: "LRUHandleTable_Remove (lmem s) (ltbl s) key hs = (Some a, t)"
      using LRUHandleTable_Remove_Some [OF core_parts(1) [OF D(1)] f] by auto
    show ?thesis
    proof (cases "HasRefs h")
      case True
      then have "?s' = lfu_upd_handle a (SetInCache False) (s\<lparr>ltbl := t\<rparr>)"
        using h t by (simp add: LFUCacheShard_Erase_def LFUHandleTable_eqs lfu_upd_handle_def Let_def)
      then show ?thesis using D(3) lcharges_upd [of "lmem s" a "SetInCache False" "lfu_list s"]
        by (simp add: lfu_upd_handle_def lfu_list_def)
    next
      case False
      have "lmem ?s' = (lmem s)(a := None)" "lfu_list ?s' = remove1 a (lfu_list s)"
        "lusage ?s' = lusage s - LFU_CalcTotalCharge (SetInCache False h)"
        using h t False lfu_list_remove [OF inv, of a] by (auto simp: LFUCacheShard_Erase_def LFUHandleTable_eqs Let_def
            LFU_Remove_def lfu_Free_def lfu_upd_handle_def lfu_list_def)
      then show ?thesis using lfu_drop_usage [OF inv, of a h "SetInCache False h"] h(2) by simp
    qed
  qed
  moreover have "dummy ?s' = []" "freqs_ok N (freqs ?s')"
    using D(2,4) by (auto simp: LFUCacheShard_Erase_def Let_def LFU_Remove_def lfu_Free_def lfu_upd_handle_def freqs_ok_remove
        split: prod.splits option.splits)
  ultimately show "lfu_inv N ?s'" using E ab D(7) by (simp add: lfu_inv_def)
qed

subsection \<open>Eviction\<close>

text \<open>Taking the entries of a list of handles out of the table.\<close>

definition rm_all :: "('v, unit) heap \<Rightarrow> addr list \<Rightarrow> table \<Rightarrow> table" where
  "rm_all hp = fold (\<lambda>a t. case hp a of None \<Rightarrow> t | Some h \<Rightarrow> snd (LRUHandleTable_Remove hp t (key_data h) (hash h)))"

lemma evict_all_core:
  assumes "core_inv t" "distinct del" "set del \<subseteq> set (lru t)" "\<And>d. d \<in> set del \<Longrightarrow> \<not> pinned t d"
  defines "t' \<equiv> t\<lparr>tbl := rm_all (hmem t) del (tbl t), lru := filter (\<lambda>a. a \<notin> set del) (lru t),
      usage := charges (hmem t) (filter (\<lambda>a. a \<notin> set del) (lru t))\<rparr>"
  shows "core_inv t' \<and> entries (tbl t') = entries (tbl t) - set del \<and> ht_elems (tbl t') = ht_elems (tbl t)"
  using assms(1-4) unfolding t'_def
proof (induction del arbitrary: t)
  case Nil
  have "t\<lparr>usage := charges (hmem t) (lru t)\<rparr> = t" using core_invD(5) [OF Nil(1)] by simp
  then show ?case using Nil(1) by (simp add: rm_all_def)
next
  case (Cons d del)
  obtain h where h: "hmem t d = Some h" using Cons.prems(1,3) core_invD(3) by fastforce
  have d: "d \<in> set (lru t)" "\<not> HasRefs h" using Cons.prems(3) Cons.prems(4) [of d] h by (auto simp: pinned_iff)
  let ?t = "evict_one d h t"
  note one = evict_one_ok [OF Cons.prems(1) d(1) h d(2)]
  have sub: "set del \<subseteq> set (lru ?t)"
    using Cons.prems(2,3) core_invD(2) [OF Cons.prems(1)] one(2) by auto
  have np: "\<not> pinned ?t x" if "x \<in> set del" for x
    using Cons.prems(4) [of x] that one(5) by (simp add: pinned_def)
  have "distinct del" using Cons.prems(2) by simp
  note ih = Cons.IH [OF one(1) this sub np]
  have fl: "filter (\<lambda>a. a \<notin> set del) (lru ?t) = filter (\<lambda>a. a \<notin> set (d # del)) (lru t)"
    using core_invD(2) [OF Cons.prems(1)] unfolding one(2)
    by (auto simp: distinct_remove1_removeAll removeAll_filter_not_eq intro!: filter_cong)
  have tb: "tbl ?t = snd (LRUHandleTable_Remove (hmem t) (tbl t) (key_data h) (hash h))"
    by (simp add: evict_one_def Let_def)
  have eq: "?t\<lparr>tbl := x, lru := y, usage := z\<rparr> = t\<lparr>tbl := x, lru := y, usage := z\<rparr>" for x y z
    using one(5-7) by (intro shard.equality) simp_all
  have "rm_all (hmem t) (d # del) (tbl t) = rm_all (hmem ?t) del (tbl ?t)"
    using h tb one(5) by (simp add: rm_all_def)
  then show ?case using ih one(3,8) unfolding fl one(5) eq by auto
qed

lemma evict_node_ok:
  assumes "evict_node c hs s = (s', left, del)" "set hs \<subseteq> dom (lmem s)"
  shows "hs = del @ left \<and> (\<forall>d \<in> set del. \<exists>h. lmem s d = Some h \<and> \<not> HasRefs h) \<and>
    s' = s\<lparr>ltbl := rm_all (lmem s) del (ltbl s), lusage := lusage s - lcharges (lmem s) del\<rparr>"
  using assms
proof (induction c hs s arbitrary: s' left del rule: evict_node.induct)
  case (1 c s)
  then show ?case by (simp add: rm_all_def)
next
  case (2 c h hs s)
  obtain he where he: "lmem s h = Some he" using 2(3) by auto
  show ?case
  proof (cases "\<not> HasRefs he \<and> lusage s + c > lcapacity s")
    case False
    then show ?thesis using 2(2) he by (auto simp: rm_all_def)
  next
    case True
    let ?s1 = "s\<lparr>ltbl := snd (LFUHandleTable_Remove (lmem s) (ltbl s) (key_data he) (hash he)), lusage := lusage s - LFU_CalcTotalCharge he\<rparr>"
    obtain s2 left' del' where r: "evict_node c hs ?s1 = (s2, left', del')" by (cases "evict_node c hs ?s1") auto
    have e: "s' = s2" "left = left'" "del = h # del'" using 2(2) he True r by (auto simp: Let_def)
    have ih: "hs = del' @ left' \<and> (\<forall>d \<in> set del'. \<exists>h. lmem ?s1 d = Some h \<and> \<not> HasRefs h) \<and>
      s2 = ?s1\<lparr>ltbl := rm_all (lmem ?s1) del' (ltbl ?s1), lusage := lusage ?s1 - lcharges (lmem ?s1) del'\<rparr>"
      using 2(1) [OF he True refl r] 2(3) by simp
    then show ?thesis
      using e he True by (auto simp: rm_all_def LFUHandleTable_eqs lcharge_at_def)
  qed
qed

lemma evict_freqs_ok:
  assumes "evict_freqs c fs s = (s', fs', del)" "set (handles fs) \<subseteq> dom (lmem s)" "distinct (handles fs)" "freqs_ok N fs"
  shows "handles fs' = filter (\<lambda>a. a \<notin> set del) (handles fs) \<and> set del \<subseteq> set (handles fs) \<and> distinct del \<and>
    (\<forall>d \<in> set del. \<exists>h. lmem s d = Some h \<and> \<not> HasRefs h) \<and> freqs_ok N fs' \<and> (\<forall>x \<in> set fs'. \<exists>y \<in> set fs. fst y = fst x) \<and>
    s' = s\<lparr>ltbl := rm_all (lmem s) del (ltbl s), lusage := lusage s - lcharges (lmem s) del\<rparr>"
  using assms
proof (induction c fs s arbitrary: s' fs' del rule: evict_freqs.induct)
  case (1 c s)
  then show ?case by (simp add: rm_all_def)
next
  case (2 c f hs fs s)
  show ?case
  proof (cases "lusage s + c > lcapacity s")
    case False
    then show ?thesis using 2(2,5) by (auto simp: rm_all_def)
  next
    case True
    obtain s1 left del1 where n: "evict_node c hs s = (s1, left, del1)" by (cases "evict_node c hs s") auto
    obtain s2 fs2 del2 where r: "evict_freqs c fs s1 = (s2, fs2, del2)" by (cases "evict_freqs c fs s1") auto
    have e: "s' = s2" "fs' = (if left = [] then fs2 else (f, left) # fs2)" "del = del1 @ del2"
      using 2(2) True n r by (auto simp: Let_def split: if_splits)
    have N: "hs = del1 @ left" "\<forall>d \<in> set del1. \<exists>h. lmem s d = Some h \<and> \<not> HasRefs h"
      "s1 = s\<lparr>ltbl := rm_all (lmem s) del1 (ltbl s), lusage := lusage s - lcharges (lmem s) del1\<rparr>"
      using evict_node_ok [OF n] 2(3) by auto
    have ih: "handles fs2 = filter (\<lambda>a. a \<notin> set del2) (handles fs) \<and> set del2 \<subseteq> set (handles fs) \<and> distinct del2 \<and>
      (\<forall>d \<in> set del2. \<exists>h. lmem s1 d = Some h \<and> \<not> HasRefs h) \<and> freqs_ok N fs2 \<and> (\<forall>x \<in> set fs2. \<exists>y \<in> set fs. fst y = fst x) \<and>
      s2 = s1\<lparr>ltbl := rm_all (lmem s1) del2 (ltbl s1), lusage := lusage s1 - lcharges (lmem s1) del2\<rparr>"
      using 2(1) [OF True n [symmetric] refl refl r] 2(3-5) N(3) by simp
    have dis: "distinct hs" "set hs \<inter> set (handles fs) = {}" using 2(4) by simp_all
    have d2: "set del2 \<inter> set hs = {}" using ih dis(2) by blast
    have left: "left = filter (\<lambda>a. a \<notin> set del) hs"
      using dis(1) d2 unfolding e(3) N(1) by (auto simp: filter_empty_conv intro!: filter_True [symmetric])
    have d1: "set del1 \<inter> set (handles fs) = {}" using dis(2) N(1) by auto
    have fl: "filter (\<lambda>a. a \<notin> set del2) (handles fs) = filter (\<lambda>a. a \<notin> set del) (handles fs)"
      using d1 unfolding e(3) by (intro filter_cong) auto
    have "handles fs' = left @ handles fs2" unfolding e(2) by simp
    then have h: "handles fs' = filter (\<lambda>a. a \<notin> set del) (handles ((f, hs) # fs))" using left ih fl by simp
    have fr: "f < fst x" if "x \<in> set fs2" for x using ih that 2(5) by (metis freqs_ok_Cons)
    have ok: "freqs_ok N fs'" using ih 2(5) fr unfolding e(2) by auto
    have sub: "set del \<subseteq> set (handles ((f, hs) # fs))" using ih N(1) e(3) by auto
    have dd: "distinct del" using ih dis(1) d2 N(1) unfolding e(3) by auto
    have st: "s' = s\<lparr>ltbl := rm_all (lmem s) del (ltbl s), lusage := lusage s - lcharges (lmem s) del\<rparr>"
      using ih N(3) e by (simp add: rm_all_def)
    show ?thesis using h ok sub dd st ih N e(2,3) by auto
  qed
qed

lemma fold_lfu_Free: "fold lfu_Free xs s = s\<lparr>lmem := lmem s |` (- set xs)\<rparr>"
proof (induction xs arbitrary: s)
  case (Cons x xs)
  have "lmem (lfu_Free x s) |` (- set xs) = lmem s |` (- set (x # xs))"
    by (auto simp: restrict_map_def lfu_Free_def)
  moreover have "(lfu_Free x s)\<lparr>lmem := m\<rparr> = s\<lparr>lmem := m\<rparr>" for m by (simp add: lfu_Free_def)
  ultimately show ?case using Cons.IH [of "lfu_Free x s"] by (simp only: fold_simps)
qed (simp add: restrict_map_def)

subsection \<open>Insertion\<close>

definition lfu_entry_charge :: "bytes \<Rightarrow> nat \<Rightarrow> nat" where
  "lfu_entry_charge key c = c + sizeof_LFUHandle - 1 + length key"

text \<open>The state after the evictions of an insertion, with the new handle allocated but not linked.\<close>

definition lfu_room :: "bytes \<Rightarrow> u32 \<Rightarrow> 'v \<Rightarrow> nat \<Rightarrow> 'v lfu_shard \<Rightarrow> 'v lfu_shard \<times> addr list" where
  "lfu_room key hs v c s =
     (let s1 = s\<lparr>lmem := (lmem s)(lbrk s \<mapsto> new_handle key hs v c), lbrk := lbrk s + 1\<rparr>
      in if lfu_entry_charge key c + c > lcapacity s then EvictFromLFU (lfu_entry_charge key c) s1 else (s1, []))"

lemma lfu_new_charge: "LFU_CalcTotalCharge (new_handle key hs v c) = lfu_entry_charge key c"
  by (simp add: LFU_CalcTotalCharge_def new_handle_def lfu_entry_charge_def)

lemma LFU_Insert_room:
  "LFUCacheShard_Insert key hs v c s =
     (let (s2, del) = lfu_room key hs v c s; h = lbrk s
      in case LRUHandleTable_Insert (lmem s2) (ltbl s2) h (new_handle key hs v c) of
           None \<Rightarrow> Inl Hang
         | Some (old_h, t) \<Rightarrow>
             if old_h \<noteq> h then
               rbind (LFU_Update old_h (s2\<lparr>ltbl := t\<rparr>)) (\<lambda>s4.
                 Inr (old_h, fold lfu_Free (del @ [h]) (lfu_upd_handle old_h Ref s4)))
             else
               let s4 = lfu_upd_handle h Ref (LFU_Insert h (s2\<lparr>ltbl := t\<rparr>))
               in Inr (h, fold lfu_Free del (s4\<lparr>lusage := lusage s4 + lfu_entry_charge key c\<rparr>)))"
  unfolding LFUCacheShard_Insert_def lfu_room_def Let_def new_handle_def [symmetric] lfu_new_charge LFUHandleTable_eqs2
  by simp

lemma lfu_room_ok:
  assumes inv: "lfu_inv N s" and mr: "lfu_room key hs v c s = (s2, del)"
  shows "made_room key hs v c (lfu_abs s) (lfu_abs s2) del" "dummy s2 = []" "freqs_ok N (freqs s2)"
    "lfu_list s2 = filter (\<lambda>a. a \<notin> set del) (lfu_list s)" "lusage s2 = lcharges (lmem s2) (lfu_list s2)"
    "lfu_entry_charge key c + c \<le> lcapacity s \<Longrightarrow> del = []"
proof -
  note D = lfu_invD [OF inv] and fresh = brk_fresh [OF lfu_invD(1) [OF inv]]
  let ?s1 = "s\<lparr>lmem := (lmem s)(lbrk s \<mapsto> new_handle key hs v c), lbrk := lbrk s + 1\<rparr>"
  let ?t = "(lfu_abs s)\<lparr>hmem := (lmem s)(lbrk s \<mapsto> new_handle key hs v c), brk := lbrk s + 1\<rparr>"
  have core: "core_inv ?t" using core_inv_alloc [OF D(1), of "new_handle key hs v c"] by simp
  have nb: "lbrk s \<notin> set (lfu_list s)" using fresh(2) by simp
  have dom: "set (lfu_list s) = dom (lmem s)" using core_parts(3) [OF D(1)] by simp
  have "charges (lmem ?s1) (lfu_list s) = charges (lmem s) (lfu_list s)"
    using nb by (intro charges_cong) (auto simp: charge_at_def)
  then have t: "lfu_abs ?s1 = ?t" by (intro shard.equality) (simp_all add: lfu_list_def)
  have us1: "lcharges (lmem ?s1) (lfu_list s) = lusage s"
    unfolding D(3) using nb by (intro lcharges_cong) (auto simp: lcharge_at_def)
  have "made_room key hs v c (lfu_abs s) (lfu_abs s2) del \<and> dummy s2 = [] \<and> freqs_ok N (freqs s2) \<and>
    lfu_list s2 = filter (\<lambda>a. a \<notin> set del) (lfu_list s) \<and> lusage s2 = lcharges (lmem s2) (lfu_list s2) \<and>
    (lfu_entry_charge key c + c \<le> lcapacity s \<longrightarrow> del = [])"
  proof (cases "lfu_entry_charge key c + c > lcapacity s")
    case False
    then have e: "s2 = ?s1" "del = []" using mr by (auto simp: lfu_room_def Let_def)
    have "made_room key hs v c (lfu_abs s) (lfu_abs ?s1) []" unfolding t made_room_def using core by simp
    then show ?thesis using D us1 unfolding e by (simp add: lfu_list_def)
  next
    case True
    obtain s' fs where ev: "evict_freqs (lfu_entry_charge key c) (freqs ?s1) ?s1 = (s', fs, del)" "s2 = s'\<lparr>freqs := fs\<rparr>"
      using mr True by (auto simp: lfu_room_def EvictFromLFU_def Let_def split: prod.splits)
    have pre: "set (handles (freqs ?s1)) \<subseteq> dom (lmem ?s1)" "distinct (handles (freqs ?s1))" "freqs_ok N (freqs ?s1)"
      using D dom by auto
    note E = evict_freqs_ok [OF ev(1) pre]
    have E1: "handles fs = filter (\<lambda>a. a \<notin> set del) (lfu_list s)" "set del \<subseteq> set (lfu_list s)" "distinct del" "freqs_ok N fs"
      "\<forall>d \<in> set del. \<exists>h. lmem ?s1 d = Some h \<and> \<not> HasRefs h"
      "s' = ?s1\<lparr>ltbl := rm_all (lmem ?s1) del (ltbl ?s1), lusage := lusage ?s1 - lcharges (lmem ?s1) del\<rparr>"
      using E D(5) by auto
    have ls: "lfu_list s2 = filter (\<lambda>a. a \<notin> set del) (lfu_list s)"
      using E1(1,6) ev(2) D(2) by (simp add: lfu_list_def)
    have np1: "\<not> pinned ?t d" if "d \<in> set del" for d using E1(5) that by (auto simp: pinned_def)
    have np: "\<not> pinned (lfu_abs s) d" if "d \<in> set del" for d
      using E1(5) that nb E1(2) by (auto simp: pinned_def split: if_splits)
    have sub: "set del \<subseteq> set (lru ?t)" using E1(2) by simp
    note A = evict_all_core [OF core E1(3) sub np1]
    have ab: "lfu_abs s2 = ?t\<lparr>tbl := rm_all (hmem ?t) del (tbl ?t), lru := filter (\<lambda>a. a \<notin> set del) (lru ?t),
        usage := charges (hmem ?t) (filter (\<lambda>a. a \<notin> set del) (lru ?t))\<rparr>"
      using E1(6) ev(2) ls by (intro shard.equality) simp_all
    have mr': "made_room key hs v c (lfu_abs s) (lfu_abs s2) del"
      unfolding made_room_def ab using A sub np by auto
    have "mset (lfu_list s) = mset (filter (\<lambda>a. a \<notin> set del) (lfu_list s)) + mset (filter (\<lambda>a. a \<in> set del) (lfu_list s))"
      by (metis mset_filter multiset_partition add.commute)
    moreover have "mset (filter (\<lambda>a. a \<in> set del) (lfu_list s)) = mset del"
      using E1(2,3) D(5,6) by (intro set_eq_iff_mset_eq_distinct [THEN iffD1]) auto
    ultimately have "mset (lfu_list s) = mset (filter (\<lambda>a. a \<notin> set del) (lfu_list s) @ del)" by (simp only: mset_append)
    from lcharges_mset [OF this, of "lmem ?s1"] have "lusage s2 = lcharges (lmem s2) (lfu_list s2)"
      using E1(6) ev(2) us1 ls by simp
    then show ?thesis using mr' ls E1(4,6) ev(2) D(2) True by simp
  qed
  then show "made_room key hs v c (lfu_abs s) (lfu_abs s2) del" "dummy s2 = []" "freqs_ok N (freqs s2)"
    "lfu_list s2 = filter (\<lambda>a. a \<notin> set del) (lfu_list s)" "lusage s2 = lcharges (lmem s2) (lfu_list s2)"
    "lfu_entry_charge key c + c \<le> lcapacity s \<Longrightarrow> del = []"
    by blast+
qed

text \<open>
  \<open>Insert\<close> has the effect of an insertion into the LRU shard, with other victims and another order; with room for twice the
  charge of the entry it evicts nothing, whatever the usage.
\<close>

lemma LFU_Insert_ok:
  assumes inv: "lfu_inv (Suc N) s" and few: "room (lfu_abs s)"
  obtains a s' del u t where "LFUCacheShard_Insert key hs v c s = Inr (a, s')" "lfu_inv N s'"
    "linked key hs v c del u (lfu_abs s) a t" "reordered t (lfu_abs s')"
    "lfu_entry_charge key c + c \<le> lcapacity s \<longrightarrow> del = []"
    "a = lbrk s \<longrightarrow> del = [] \<longrightarrow> lusage s' = lusage s + lfu_entry_charge key c"
proof -
  note D = lfu_invD [OF inv] and fresh = brk_fresh [OF lfu_invD(1) [OF inv]]
  obtain s2 del where mr: "lfu_room key hs v c s = (s2, del)" by fastforce
  note R = lfu_room_ok [OF inv mr]
  note M = made_roomD [OF R(1)]
  let ?h = "lbrk s" and ?he = "new_handle key hs v c" and ?t2 = "lfu_abs s2"
  obtain a t where link: "link_entry key hs v c (brk (lfu_abs s)) ?t2 del = Some (a, t)"
    "linked key hs v c del (usage ?t2) (lfu_abs s) a t"
    using link_entry_ok [OF D(1) few R(1)] by blast
  have ti: "shard_inv t" using link(2) by (simp add: linked_def)
  obtain old tb where ins: "LRUHandleTable_Insert (lmem s2) (ltbl s2) ?h ?he = Some (old, tb)"
    using link(1) by (auto simp: link_entry_def split: option.splits prod.splits)
  have dl: "lfu_list s2 = handles (freqs s2)" "distinct (lfu_list s2)"
    using R(2,4) core_invD(2) [OF M(1)] by (simp_all add: lfu_list_def)
  have hn: "?h \<notin> set (lfu_list s2)" using R(4) fresh(2) by simp
  have hm2: "lmem s2 = (lmem s)(?h \<mapsto> ?he)" using M(2) by simp
  show thesis
  proof (cases "old = ?h")
    case False
    have t: "a = old" "t = fold Free (del @ [?h]) (upd_handle old Ref (?t2\<lparr>tbl := tb\<rparr>))"
      using link(1) ins False by (auto simp: link_entry_def)
    have fo: "found_old key hs del (usage ?t2) (lfu_abs s) a t"
      using link(2) t(1) False by (auto simp: linked_def)
    then have al: "a \<in> set (lfu_list s2)"
      using core_parts(4) [OF D(1)] R(4) by (auto simp: found_old_def)
    obtain fs where u: "LFU_Update old (s2\<lparr>ltbl := tb\<rparr>) = Inr (s2\<lparr>ltbl := tb, freqs := fs\<rparr>)" "freqs_ok N fs"
      "mset (handles fs) = mset (handles (freqs s2))"
      by (rule LFU_Update_ok [of "s2\<lparr>ltbl := tb\<rparr>" N old]) (use R(2,3) dl al t(1) in auto)
    let ?s' = "fold lfu_Free (del @ [?h]) (lfu_upd_handle old Ref (s2\<lparr>ltbl := tb, freqs := fs\<rparr>))"
    have run: "LFUCacheShard_Insert key hs v c s = Inr (a, ?s')"
      using mr ins False u(1) t(1) by (simp add: LFU_Insert_room)
    have ms: "mset (lfu_list ?s') = mset (lfu_list s2)"
      using u(3) R(2) by (simp add: lfu_list_def fold_lfu_Free lfu_Free_def lfu_upd_handle_def)
    have ro: "reordered t (lfu_abs ?s')"
    proof (rule lfu_abs_reordered [OF ti])
      show "mset (lfu_list ?s') = mset (lru t)" unfolding ms t(2) by (simp add: fold_Free Free_def)
    qed (simp_all add: t(2) fold_Free Free_def fold_lfu_Free lfu_Free_def lfu_upd_handle_def)
    have "lcharge_at (lmem ?s') b = lcharge_at (lmem s2) b" if "b \<in> set (lfu_list s2)" for b
      using that R(4) hn by (auto simp: fold_lfu_Free lfu_Free_def lfu_upd_handle_def lcharge_at_def restrict_map_def split: option.split)
    then have "lcharges (lmem ?s') (lfu_list ?s') = lusage s2"
      using lcharges_mset [OF ms, of "lmem ?s'"] lcharges_cong [of "lfu_list s2" "lmem ?s'" "lmem s2"] R(5) by simp
    then have "lfu_inv N ?s'"
      using reorderedD(1) [OF ro ti] u(2) R(2) D(7)
      by (simp add: lfu_inv_def) (simp add: fold_lfu_Free lfu_Free_def lfu_upd_handle_def)
    then show thesis
      using link(2) ro R(6) False t(1) by (intro that [OF run]) auto
  next
    case True
    have t: "a = ?h" "t = fold Free del ((upd_handle ?h Ref (LRU_Insert ?h (?t2\<lparr>tbl := tb\<rparr>)))
        \<lparr>usage := usage ?t2 + entry_charge key c\<rparr>)"
      using link(1) ins True by (auto simp: link_entry_def Let_def)
    let ?s4 = "lfu_upd_handle ?h Ref (LFU_Insert ?h (s2\<lparr>ltbl := tb\<rparr>))"
    let ?s' = "fold lfu_Free del (?s4\<lparr>lusage := lusage ?s4 + lfu_entry_charge key c\<rparr>)"
    have run: "LFUCacheShard_Insert key hs v c s = Inr (a, ?s')"
      using mr ins True t(1) by (simp add: LFU_Insert_room Let_def)
    have hn': "?h \<notin> set (handles (freqs s2))" using hn dl(1) by simp
    have fN: "freqs_ok N (freqs s2)" "N < 2 ^ 32 - 1" using freqs_ok_mono [OF R(3), of N] D(7) by simp_all
    note P = push_lowest_ok [OF fN hn']
    have ms: "mset (lfu_list ?s') = add_mset ?h (mset (lfu_list s2))"
      using P(2) R(2) by (simp add: lfu_list_def fold_lfu_Free lfu_Free_def lfu_upd_handle_def LFU_Insert_def)
    have hd: "?h \<notin> set del" using M(8) fresh(2) by auto
    have ro: "reordered t (lfu_abs ?s')"
    proof (rule lfu_abs_reordered [OF ti])
      show "mset (lfu_list ?s') = mset (lru t)" unfolding ms t(2) by (simp add: fold_Free Free_def)
    qed (simp_all add: t(2) fold_Free Free_def fold_lfu_Free lfu_Free_def lfu_upd_handle_def LFU_Insert_def)
    have ch: "lcharge_at (lmem ?s') b = lcharge_at (lmem s2) b" if "b \<in> set (lfu_list s2)" for b
      using that R(4) hn by (auto simp: fold_lfu_Free lfu_Free_def lfu_upd_handle_def LFU_Insert_def lcharge_at_def restrict_map_def split: option.split)
    have chh: "lcharge_at (lmem ?s') ?h = lfu_entry_charge key c"
      using hd hm2 by (simp add: fold_lfu_Free lfu_Free_def lfu_upd_handle_def LFU_Insert_def lcharge_at_def lfu_new_charge)
    have us': "lusage ?s' = lusage s2 + lfu_entry_charge key c"
      by (simp add: fold_lfu_Free lfu_Free_def lfu_upd_handle_def LFU_Insert_def)
    have "mset (lfu_list ?s') = mset (?h # lfu_list s2)" using ms by simp
    from lcharges_mset [OF this, of "lmem ?s'"] have us: "lcharges (lmem ?s') (lfu_list ?s') = lusage ?s'"
      using lcharges_cong [of "lfu_list s2" "lmem ?s'" "lmem s2"] ch chh R(5) us' by simp
    have "lfu_inv N ?s'"
      using reorderedD(1) [OF ro ti] P(1) R(2) fN(2) us
      by (simp add: lfu_inv_def) (simp add: fold_lfu_Free lfu_Free_def lfu_upd_handle_def LFU_Insert_def)
    moreover have "lusage ?s' = lusage s + lfu_entry_charge key c" if "del = []"
    proof -
      have "lcharges (lmem s2) (lfu_list s) = lcharges (lmem s) (lfu_list s)"
        unfolding hm2 using fresh(2) by (intro lcharges_cong) (auto simp: lcharge_at_def)
      then show ?thesis using us' R(4,5) D(3) that by simp
    qed
    ultimately show thesis
      using link(2) ro R(6) by (intro that [OF run]) auto
  qed
qed

lemma LFUCacheShard_new_ok:
  assumes "N < 2 ^ 32 - 1"
  obtains s :: "'v lfu_shard" where "LFUCacheShard_new c = Some s" "lfu_inv N s" "contents (lfu_abs s) = (\<lambda>_ _. None)"
    "load (lfu_abs s) = 0" "lcapacity s = c" "lusage s = 0" "freqs s = []"
proof -
  obtain t :: "'v shard" where t: "LRUCacheShard_new c = Some t" "shard_inv t" "contents t = (\<lambda>_ _. None)"
    "load t = 0" "hmem t = Map.empty" "capacity t = c" "usage t = 0"
    by (rule LRUCacheShard_new_ok)
  obtain tb where tb: "LRUHandleTable_new (Map.empty :: ('v, unit) heap) = Some tb"
    "t = \<lparr>capacity = c, lru = [], tbl = tb, usage = 0, hmem = Map.empty, brk = 0\<rparr>"
    using t(1) by (auto simp: LRUCacheShard_new_def LRUCacheShard_SetCapacity_def)
  let ?s = "\<lparr>lcapacity = c, freqs = [], dummy = [], ltbl = tb, lusage = 0, lmem = (Map.empty :: ('v, unit) heap), lbrk = 0\<rparr>"
  have ab: "lfu_abs ?s = t" unfolding tb(2) by (simp add: lfu_abs_def lfu_list_def charges_def)
  have "LFUCacheShard_new c = Some ?s"
    using tb(1) by (simp add: LFUCacheShard_new_def LFUCacheShard_SetCapacity_def LFUHandleTable_eqs2)
  moreover have "lfu_inv N ?s" unfolding lfu_inv_def ab using t(2) assms by (simp add: lfu_list_def lcharges_def)
  ultimately show thesis using t(3,4) by (rule that [of ?s, unfolded ab]) simp_all
qed

subsection \<open>Properties\<close>

text \<open>
  C27: \<open>Lookup\<close> of the LFU cache returns on every well-formed shard, finds a handle with the value the cache holds exactly when
  it holds one, keeps what the cache holds, raises the use frequency of the handle it returns by one and leaves
  all other frequencies alone.
\<close>

theorem lfu_lookup_counts:
  assumes "lfu_inv (Suc N) s"
  shows "\<exists>r s'. LFUCacheShard_Lookup key hs s = Inr (r, s') \<and> lfu_inv N s' \<and>
    contents (lfu_abs s') = contents (lfu_abs s) \<and>
    (case r of None \<Rightarrow> contents (lfu_abs s) key hs = None
     | Some h \<Rightarrow> map_option hvalue (lmem s' h) = contents (lfu_abs s) key hs \<and> contents (lfu_abs s) key hs \<noteq> None) \<and>
    (\<forall>a. freq_of (freqs s') a = (if r = Some a then map_option (\<lambda>f. f + 1) (freq_of (freqs s) a) else freq_of (freqs s) a))"
proof -
  obtain r s' where r: "LFUCacheShard_Lookup key hs s = Inr (r, s')" "lfu_inv N s'"
    "reordered (snd (LRUCacheShard_Lookup key hs (lfu_abs s))) (lfu_abs s')" "r = fst (LRUCacheShard_Lookup key hs (lfu_abs s))"
    "\<forall>a. freq_of (freqs s') a = (if r = Some a then map_option (\<lambda>f. f + 1) (freq_of (freqs s) a) else freq_of (freqs s) a)"
    by (rule LFU_Lookup_ok [OF assms])
  let ?t = "snd (LRUCacheShard_Lookup key hs (lfu_abs s))"
  have lk: "case_prod LRUCacheShard_Lookup (key, hs) (lfu_abs s) = (r, ?t)" using r(4) by simp
  note inv = lfu_invD(1) [OF assms] and ro = reorderedD [OF r(3)]
  have ct: "contents (lfu_abs s') = contents (lfu_abs s)"
    using lru_shard.lookup_state [OF inv lk] ro(2) by (auto simp: fun_eq_iff)
  show ?thesis
  proof (cases r)
    case None
    then show ?thesis using r ct lru_shard.lookup_miss [OF inv, of "(key, hs)" ?t] lk by auto
  next
    case (Some h)
    have "map_option hvalue (lmem s' h) = value_at ?t h" unfolding ro(4) [symmetric] by (simp add: value_at_def)
    moreover have "value_at ?t h = contents (lfu_abs s) key hs" "contents (lfu_abs s) key hs \<noteq> None"
      using lru_shard.lookup_hit [OF inv, of "(key, hs)" h ?t] lk Some by auto
    ultimately show ?thesis using r(1,2,5) ct Some by (intro exI [of _ r] exI [of _ s']) simp
  qed
qed

text \<open>
  C28: \<open>Insert\<close> of the LFU cache returns a handle whose value is what the cache then holds for the key, which is the
  new value or the one it held before; every other key keeps its value or is evicted; handles that are referenced are not evicted
  and keep their value; and an entry whose charge fits the capacity twice evicts nothing.
\<close>

theorem lfu_insert_effect:
  assumes "lfu_inv (Suc N) s" and "room (lfu_abs s)"
  shows "\<exists>a s'. LFUCacheShard_Insert key hs v c s = Inr (a, s') \<and> lfu_inv N s' \<and>
    map_option hvalue (lmem s' a) = contents (lfu_abs s') key hs \<and>
    (contents (lfu_abs s') key hs = Some v \<or>
     contents (lfu_abs s') key hs = contents (lfu_abs s) key hs \<and> contents (lfu_abs s) key hs \<noteq> None) \<and>
    (\<forall>k h. (k, h) \<noteq> (key, hs) \<longrightarrow> contents (lfu_abs s') k h = None \<or> contents (lfu_abs s') k h = contents (lfu_abs s) k h) \<and>
    (\<forall>g h. lmem s g = Some h \<longrightarrow> HasRefs h \<longrightarrow> map_option hvalue (lmem s' g) = Some (hvalue h)) \<and>
    (lfu_entry_charge key c + c \<le> lcapacity s \<longrightarrow>
       (\<forall>k h. (k, h) \<noteq> (key, hs) \<longrightarrow> contents (lfu_abs s') k h = contents (lfu_abs s) k h))"
proof -
  obtain a s' del u t where i: "LFUCacheShard_Insert key hs v c s = Inr (a, s')" "lfu_inv N s'"
    "linked key hs v c del u (lfu_abs s) a t" "reordered t (lfu_abs s')"
    "lfu_entry_charge key c + c \<le> lcapacity s \<longrightarrow> del = []"
    by (rule LFU_Insert_ok [OF assms])
  note inv = lfu_invD(1) [OF assms(1)] and ro = reorderedD [OF i(4)]
  note L = linked_contents [OF inv i(3)] and R = linked_refs(4) [OF inv i(3)]
  have v: "map_option hvalue (lmem s' g) = value_at t g" for g
    unfolding ro(4) [symmetric] by (simp add: value_at_def)
  have p: "map_option hvalue (lmem s' g) = Some (hvalue h)" if "lmem s g = Some h" "HasRefs h" for g h
    using R [of g "refs h"] that by (simp add: v refs_at_def value_at_def HasRefs_iff)
  have o: "contents t k h = contents (lfu_abs s) k h"
    if "lfu_entry_charge key c + c \<le> lcapacity s" "(k, h) \<noteq> (key, hs)" for k h
    using L(3) [of k h] i(5) that by auto
  show ?thesis
    using i(1,2) L(1,2) p o by (intro exI [of _ a] exI [of _ s']) (auto simp: v ro(2))
qed


theorem lfu_lookup_counts_witness:
  "\<exists>s r s'. LFUCacheShard_new 1000 = Some (s :: nat lfu_shard) \<and> LFUCacheShard_Lookup [1] 5 s = Inr (r, s') \<and>
     contents (lfu_abs s') = contents (lfu_abs s)"
proof -
  obtain s :: "nat lfu_shard" where s: "LFUCacheShard_new 1000 = Some s" "lfu_inv (Suc 9) s"
    by (rule LFUCacheShard_new_ok [of "Suc 9"]) simp_all
  then show ?thesis using lfu_lookup_counts [OF s(2), of "[1]" 5] by blast
qed

theorem lfu_insert_effect_witness:
  "\<exists>s a s'. LFUCacheShard_new 1000 = Some (s :: nat lfu_shard) \<and> LFUCacheShard_Insert [1] 5 7 3 s = Inr (a, s') \<and>
     contents (lfu_abs s') [1] 5 = Some 7"
proof -
  obtain s :: "nat lfu_shard" where s: "LFUCacheShard_new 1000 = Some s" "lfu_inv (Suc 9) s"
    "contents (lfu_abs s) = (\<lambda>_ _. None)" "load (lfu_abs s) = 0"
    by (rule LFUCacheShard_new_ok [of "Suc 9"]) simp_all
  have "room (lfu_abs s)" using s(4) by (simp add: room_def load_def)
  then show ?thesis using lfu_insert_effect [OF s(2), of "[1]" 5 7 3] s(1,3) by fastforce
qed


end
