(* ===== verification/Memtable.thy ===== *)
theory Memtable
  imports Rocks
begin

text \<open>
  A reference database for the contract of theory \<open>Rocks\<close>: the list of all writes, ordered the way RocksDB orders internal
  keys (by key, then newest first), with reads at the last sequence number and a forward iterator. It
  is RocksDB as long as nothing leaves the memtable, with unbounded sequence numbers and without encodings; theory
  \<open>InternalKey\<close> has the encoded keys. The interpretation at the end shows that it keeps the contract.
\<close>

datatype mtype = MDeletion | MValue | MSingleDeletion

fun mtype_num :: "mtype \<Rightarrow> nat" where
  "mtype_num MDeletion = 0"
| "mtype_num MValue = 1"
| "mtype_num MSingleDeletion = 7"

definition MSeek :: mtype where
  "MSeek = MSingleDeletion"

record mkey =
  mk_key :: bytes
  mk_seq :: nat
  mk_type :: mtype

definition mkey_Compare :: "mkey \<Rightarrow> mkey \<Rightarrow> int" where
  "mkey_Compare a b =
     (let r = slice_compare (mk_key a) (mk_key b)
      in if r = 0 then
           if mk_seq a > mk_seq b then -1
           else if mk_seq a < mk_seq b then 1
           else if mtype_num (mk_type a) > mtype_num (mk_type b) then -1
           else if mtype_num (mk_type a) < mtype_num (mk_type b) then 1
           else r
         else r)"

type_synonym memtable = "(mkey \<times> bytes) list"

fun mem_Insert :: "mkey \<times> bytes \<Rightarrow> memtable \<Rightarrow> memtable" where
  "mem_Insert e [] = [e]"
| "mem_Insert e (x # xs) =
     (if mkey_Compare (fst x) (fst e) < 0 then x # mem_Insert e xs else e # x # xs)"

definition mem_Seek :: "mkey \<Rightarrow> memtable \<Rightarrow> memtable" where
  "mem_Seek k xs = dropWhile (\<lambda>e. mkey_Compare (fst e) k < 0) xs"

definition mem_Add :: "nat \<Rightarrow> mtype \<Rightarrow> bytes \<Rightarrow> bytes \<Rightarrow> memtable \<Rightarrow> memtable" where
  "mem_Add s t key v xs = mem_Insert (\<lparr>mk_key = key, mk_seq = s, mk_type = t\<rparr>, v) xs"

definition mkey_lookup :: "bytes \<Rightarrow> nat \<Rightarrow> mkey" where
  "mkey_lookup k s = \<lparr>mk_key = k, mk_seq = s, mk_type = MSeek\<rparr>"

definition mem_Get :: "bytes \<Rightarrow> nat \<Rightarrow> memtable \<Rightarrow> rstatus \<times> bytes" where
  "mem_Get key snapshot xs =
     (case mem_Seek (mkey_lookup key snapshot) xs of
        [] \<Rightarrow> (RNotFound, [])
      | e # _ \<Rightarrow>
          if slice_eq (mk_key (fst e)) key then
            (case mk_type (fst e) of
               MValue \<Rightarrow> (ROk, snd e)
             | MDeletion \<Rightarrow> (RNotFound, [])
             | MSingleDeletion \<Rightarrow> (RNotFound, []))
          else (RNotFound, []))"

record memdb =
  mem :: memtable
  last_sequence :: nat

definition write_one :: "mtype \<Rightarrow> bytes \<Rightarrow> bytes \<Rightarrow> memdb \<Rightarrow> rstatus \<times> memdb" where
  "write_one t key v r =
     (let s = last_sequence r + 1
      in (ROk, \<lparr>mem = mem_Add s t key v (mem r), last_sequence = s\<rparr>))"

definition mem_GetImpl :: "bytes \<Rightarrow> memdb \<Rightarrow> rstatus \<times> bytes \<times> memdb" where
  "mem_GetImpl key r = (let (s, v) = mem_Get key (last_sequence r) (mem r) in (s, v, r))"

text \<open>
  The user entries that an iterator yields from a position on. \<open>saved\<close> is the user key to skip:
  the last one yielded, or one whose deletion was seen.
\<close>

fun mem_NextEntry :: "nat \<Rightarrow> bytes option \<Rightarrow> memtable \<Rightarrow> (bytes \<times> bytes) list" where
  "mem_NextEntry snapshot saved [] = []"
| "mem_NextEntry snapshot saved ((ik, v) # xs) =
     (if mk_seq ik \<le> snapshot then
        if saved \<noteq> None \<and> slice_compare (mk_key ik) (the saved) \<le> 0 then mem_NextEntry snapshot saved xs
        else
          (case mk_type ik of
             MValue \<Rightarrow> (mk_key ik, v) # mem_NextEntry snapshot (Some (mk_key ik)) xs
           | MDeletion \<Rightarrow> mem_NextEntry snapshot (Some (mk_key ik)) xs
           | MSingleDeletion \<Rightarrow> mem_NextEntry snapshot (Some (mk_key ik)) xs)
      else mem_NextEntry snapshot saved xs)"

definition mem_entries :: "memdb \<Rightarrow> (bytes \<times> bytes) list" where
  "mem_entries r = mem_NextEntry (last_sequence r) None (mem r)"

definition memdb_ops :: "memdb rocks" where
  "memdb_ops = \<lparr>rocks_Put = write_one MValue, rocks_Delete = (\<lambda>k. write_one MDeletion k []),
     rocks_Get = mem_GetImpl, rocks_entries = mem_entries\<rparr>"

definition memdb_new :: memdb where
  "memdb_new = \<lparr>mem = [], last_sequence = 0\<rparr>"

subsection \<open>The order of internal keys\<close>

definition ik_less :: "mkey \<Rightarrow> mkey \<Rightarrow> bool" where
  "ik_less a b \<longleftrightarrow> lex_less (mk_key a) (mk_key b) \<or> mk_key a = mk_key b \<and> mk_seq a > mk_seq b"

definition memdb_inv :: "memdb \<Rightarrow> bool" where
  "memdb_inv r \<longleftrightarrow> sorted_wrt (\<lambda>a b. ik_less (fst a) (fst b)) (mem r) \<and>
     (\<forall>e \<in> set (mem r). mk_seq (fst e) \<le> last_sequence r)"

text \<open>The newest entry of a user key, and the value it stands for.\<close>

definition newest :: "bytes \<Rightarrow> memtable \<Rightarrow> bytes option" where
  "newest k xs =
     (case filter (\<lambda>e. mk_key (fst e) = k) xs of
        [] \<Rightarrow> None
      | e # _ \<Rightarrow> if mk_type (fst e) = MValue then Some (snd e) else None)"

definition memdb_index :: "memdb \<Rightarrow> bytes \<Rightarrow> bytes option" where
  "memdb_index r k = newest k (mem r)"


abbreviation mt_sorted :: "memtable \<Rightarrow> bool" where
  "mt_sorted \<equiv> sorted_wrt (\<lambda>a b. ik_less (fst a) (fst b))"

lemma ik_less_trans: "ik_less a b \<Longrightarrow> ik_less b c \<Longrightarrow> ik_less a c"
  by (auto simp: ik_less_def dest: lex_less_trans)

lemma Compare_less:
  "mk_seq a \<noteq> mk_seq b \<Longrightarrow> mkey_Compare a b < 0 \<longleftrightarrow> ik_less a b"
  by (auto simp: mkey_Compare_def ik_less_def Let_def slice_compare_signs)

lemma Compare_lookup:
  "mk_seq a \<le> s \<Longrightarrow> mkey_Compare a (mkey_lookup k s) < 0 \<longleftrightarrow> lex_less (mk_key a) k"
  by (cases "mk_type a") (auto simp: mkey_Compare_def Let_def slice_compare_signs
      mkey_lookup_def MSeek_def)

lemma ik_less_total: "mk_seq a \<noteq> mk_seq b \<Longrightarrow> ik_less a b \<or> ik_less b a"
  using lex_less_total [of "mk_key a" "mk_key b"]
  by (cases "mk_key a = mk_key b") (auto simp: ik_less_def)

lemma set_mem_Insert [simp]: "set (mem_Insert e xs) = insert e (set xs)"
  by (induction e xs rule: mem_Insert.induct) auto

lemma mem_Insert_sorted:
  assumes "mt_sorted xs" "\<And>x. x \<in> set xs \<Longrightarrow> mk_seq (fst x) < mk_seq (fst e)"
  shows "mt_sorted (mem_Insert e xs)"
  using assms
proof (induction e xs rule: mem_Insert.induct)
  case (2 e x xs)
  have ne: "mk_seq (fst x) \<noteq> mk_seq (fst e)" using 2(3) [of x] by simp
  show ?case
  proof (cases "ik_less (fst x) (fst e)")
    case True
    then show ?thesis using 2 ne by (simp add: Compare_less)
  next
    case False
    then have "ik_less (fst e) (fst x)" using ik_less_total [OF ne] by blast
    then show ?thesis using 2(2) False ne by (auto simp: Compare_less dest: ik_less_trans)
  qed
qed simp

lemma filter_mem_Insert:
  assumes "mt_sorted xs" "\<And>x. x \<in> set xs \<Longrightarrow> mk_seq (fst x) < mk_seq (fst e)"
  shows "filter (\<lambda>x. mk_key (fst x) = k) (mem_Insert e xs) =
    (if k = mk_key (fst e) then [e] else []) @ filter (\<lambda>x. mk_key (fst x) = k) xs"
  using assms
proof (induction e xs rule: mem_Insert.induct)
  case (2 e x xs)
  have "mk_seq (fst x) < mk_seq (fst e)" using 2(3) [of x] by simp
  then have "mkey_Compare (fst x) (fst e) < 0 \<longleftrightarrow> lex_less (mk_key (fst x)) (mk_key (fst e))"
    by (auto simp: Compare_less ik_less_def)
  then show ?case
    using 2 by auto
qed simp

lemma mem_Get_newest:
  assumes "mt_sorted xs" "\<And>e. e \<in> set xs \<Longrightarrow> mk_seq (fst e) \<le> s"
  shows "mem_Get k s xs = (case newest k xs of None \<Rightarrow> (RNotFound, []) | Some v \<Rightarrow> (ROk, v))"
  using assms
proof (induction xs)
  case Nil
  then show ?case by (simp add: mem_Get_def mem_Seek_def newest_def)
next
  case (Cons e xs)
  have c: "mkey_Compare (fst e) (mkey_lookup k s) < 0 \<longleftrightarrow> lex_less (mk_key (fst e)) k"
    using Cons.prems(2) [of e] by (simp add: Compare_lookup)
  consider (less) "lex_less (mk_key (fst e)) k" | (eq) "mk_key (fst e) = k" | (gt) "lex_less k (mk_key (fst e))"
    using lex_less_total by blast
  then show ?case
  proof cases
    case less
    then have "mk_key (fst e) \<noteq> k" by auto
    then show ?thesis
      using Cons less c by (simp add: mem_Get_def mem_Seek_def newest_def)
  next
    case eq
    then show ?thesis
      using c by (cases "mk_type (fst e)") (simp_all add: mem_Get_def mem_Seek_def newest_def)
  next
    case gt
    then have n: "\<not> lex_less (mk_key (fst e)) k" "mk_key (fst e) \<noteq> k"
      using lex_less_trans lex_less_irrefl by blast+
    have "mk_key (fst x) \<noteq> k" if "x \<in> set xs" for x
      using Cons.prems(1) that gt lex_less_trans lex_less_irrefl by (fastforce simp: ik_less_def)
    then have "filter (\<lambda>x. mk_key (fst x) = k) xs = []" by (simp add: filter_empty_conv)
    then show ?thesis
      using n c by (simp add: mem_Get_def mem_Seek_def newest_def)
  qed
qed

text \<open>The iterator yields the newest value of every user key after the saved one, in order.\<close>

definition behind :: "bytes option \<Rightarrow> bytes \<Rightarrow> bool" where
  "behind saved j \<longleftrightarrow> (case saved of None \<Rightarrow> False | Some s \<Rightarrow> j = s \<or> lex_less j s)"

lemma newest_Cons:
  "newest j ((ik, v) # xs) = (if mk_key ik = j then if mk_type ik = MValue then Some v else None else newest j xs)"
  by (simp add: newest_def)

lemma newest_before:
  assumes "mt_sorted ((ik, v) # xs)" "lex_less j (mk_key ik)"
  shows "newest j xs = None"
proof -
  have "mk_key (fst x) \<noteq> j" if "x \<in> set xs" for x
    using assms that lex_less_trans lex_less_irrefl by (fastforce simp: ik_less_def)
  then have "filter (\<lambda>x. mk_key (fst x) = j) xs = []" by (simp add: filter_empty_conv)
  then show ?thesis by (simp add: newest_def)
qed

lemma mem_NextEntry_map:
  assumes "mt_sorted xs" "\<And>e. e \<in> set xs \<Longrightarrow> mk_seq (fst e) \<le> s"
  shows "map_of (mem_NextEntry s saved xs) j = (if behind saved j then None else newest j xs)"
  using assms
proof (induction s saved xs rule: mem_NextEntry.induct)
  case (1 s saved)
  then show ?case by (simp add: newest_def)
next
  case (2 s saved ik v xs)
  have le: "mk_seq ik \<le> s" using "2.prems"(2) [of "(ik, v)"] by simp
  have sk: "saved \<noteq> None \<and> slice_compare (mk_key ik) (the saved) \<le> 0 \<longleftrightarrow> behind saved (mk_key ik)"
    by (cases saved) (auto simp: slice_compare_signs behind_def)
  have tail: "mt_sorted xs" "\<And>e. e \<in> set xs \<Longrightarrow> mk_seq (fst e) \<le> s" using "2.prems" by simp_all
  show ?case
  proof (cases "behind saved (mk_key ik)")
    case True
    then have "mem_NextEntry s saved ((ik, v) # xs) = mem_NextEntry s saved xs"
      using le sk by simp
    moreover have "map_of (mem_NextEntry s saved xs) j = (if behind saved j then None else newest j xs)"
      using "2.IH"(1) le sk True tail by blast
    ultimately show ?thesis using True by (auto simp: newest_Cons)
  next
    case False
    have ih: "map_of (mem_NextEntry s (Some (mk_key ik)) xs) j =
        (if j = mk_key ik \<or> lex_less j (mk_key ik) then None else newest j xs)"
      using "2.IH"(2-4) le sk False tail by (cases "mk_type ik") (auto simp: behind_def)
    have nb: "newest j xs = None" if "lex_less j (mk_key ik)"
      by (rule newest_before [OF "2.prems"(1) that])
    have bh: "lex_less j (mk_key ik)" if "behind saved j"
      using False that lex_less_total lex_less_trans by (fastforce simp: behind_def split: option.splits)
    show ?thesis
      using ih nb bh le sk False by (cases "mk_type ik") (auto simp: newest_Cons)
  qed
qed


lemma mem_NextEntry_sorted:
  assumes "\<And>e. e \<in> set xs \<Longrightarrow> mk_seq (fst e) \<le> s"
  shows "sorted_wrt lex_less (map fst (mem_NextEntry s saved xs)) \<and>
    (\<forall>k \<in> set (map fst (mem_NextEntry s saved xs)). \<not> behind saved k)"
  using assms
proof (induction s saved xs rule: mem_NextEntry.induct)
  case (2 s saved ik v xs)
  have le: "mk_seq ik \<le> s" using "2.prems" [of "(ik, v)"] by simp
  have sk: "saved \<noteq> None \<and> slice_compare (mk_key ik) (the saved) \<le> 0 \<longleftrightarrow> behind saved (mk_key ik)"
    by (cases saved) (auto simp: slice_compare_signs behind_def)
  have tail: "\<And>e. e \<in> set xs \<Longrightarrow> mk_seq (fst e) \<le> s" using "2.prems" by simp
  show ?case
  proof (cases "behind saved (mk_key ik)")
    case True
    then show ?thesis using "2.IH"(1) le sk tail by simp
  next
    case False
    let ?ys = "map fst (mem_NextEntry s (Some (mk_key ik)) xs)"
    have ih: "sorted_wrt lex_less ?ys \<and> (\<forall>k \<in> set ?ys. \<not> behind (Some (mk_key ik)) k)"
      using "2.IH"(2-4) le sk False tail by (cases "mk_type ik") auto
    have gt: "lex_less (mk_key ik) k" if "\<not> behind (Some (mk_key ik)) k" for k
      using that lex_less_total [of k "mk_key ik"] by (auto simp: behind_def)
    have nb: "\<not> behind saved k" if "\<not> behind (Some (mk_key ik)) k" for k
      using gt [OF that] False by (auto simp: behind_def split: option.splits dest: lex_less_trans)
    show ?thesis
      using ih gt nb le sk False by (cases "mk_type ik") auto
  qed
qed simp

lemma write_one_ok:
  assumes "memdb_inv r" "write_one t k v r = (st, r')"
  shows "st = ROk" "memdb_inv r'"
    "memdb_index r' = (memdb_index r)(k := if t = MValue then Some v else None)"
proof -
  let ?e = "(\<lparr>mk_key = k, mk_seq = last_sequence r + 1, mk_type = t\<rparr>, v)"
  have r': "st = ROk" "mem r' = mem_Insert ?e (mem r)" "last_sequence r' = last_sequence r + 1"
    using assms(2) by (auto simp: write_one_def mem_Add_def)
  have inv: "mt_sorted (mem r)" "\<And>x. x \<in> set (mem r) \<Longrightarrow> mk_seq (fst x) < mk_seq (fst ?e)"
    using assms(1) by (auto simp: memdb_inv_def less_Suc_eq_le)
  show "st = ROk" by (rule r')
  show "memdb_inv r'"
    using mem_Insert_sorted [OF inv] inv(2) r'(2,3) by (auto simp: memdb_inv_def less_imp_le)
  show "memdb_index r' = (memdb_index r)(k := if t = MValue then Some v else None)"
    using filter_mem_Insert [OF inv] by (auto simp: memdb_index_def newest_def r'(2))
qed

lemma mem_GetImpl_ok:
  assumes "memdb_inv r"
  shows "mem_GetImpl k r = (case memdb_index r k of None \<Rightarrow> (RNotFound, [], r) | Some v \<Rightarrow> (ROk, v, r))"
  using mem_Get_newest [of "mem r" "last_sequence r" k] assms
  by (auto simp: mem_GetImpl_def memdb_inv_def memdb_index_def split: option.splits)

interpretation memdb: rocksdb_ok memdb_ops memdb_inv memdb_index
proof (unfold_locales, goal_cases)
  case (1 r k v st r')
  then show ?case using write_one_ok [of r MValue k v st r'] by (simp add: memdb_ops_def)
next
  case (2 r k st r')
  then show ?case using write_one_ok [of r MDeletion k "[]" st r'] by (simp add: memdb_ops_def)
next
  case (3 r k st v r')
  then show ?case by (auto simp: memdb_ops_def mem_GetImpl_ok split: option.splits)
next
  case (4 r)
  then have "map_of (mem_entries r) j = memdb_index r j" for j
    unfolding mem_entries_def
    by (subst mem_NextEntry_map) (auto simp: memdb_inv_def memdb_index_def behind_def)
  then show ?case by (simp add: memdb_ops_def fun_eq_iff)
next
  case (5 r)
  then show ?case
    using mem_NextEntry_sorted [of "mem r" "last_sequence r" None]
    by (auto simp: memdb_ops_def mem_entries_def memdb_inv_def)
next
  case (6 r k v)
  then show ?case by (simp add: memdb_ops_def write_one_def Let_def)
next
  case (7 r k)
  then show ?case by (simp add: memdb_ops_def write_one_def Let_def)
next
  case (8 r k)
  then show ?case by (simp add: memdb_ops_def mem_GetImpl_ok split: option.splits)
qed

lemma memdb_new_ok [simp]: "memdb_inv memdb_new" "memdb_index memdb_new = Map.empty"
  by (simp_all add: memdb_inv_def memdb_new_def memdb_index_def newest_def fun_eq_iff)

end
