(* ===== verification/Compaction.thy ===== *)
theory Compaction
  imports Memtable
begin

text \<open>
  A compaction of the reference database of theory \<open>Memtable\<close>: the first entry of every key goes through the
  compaction filter, the later ones are hidden by it, and a deletion is dropped. It is the instance of the locale
  \<open>compacting\<close> on which the garbage collector of newdb runs.
\<close>

definition mem_filter :: "(bytes \<Rightarrow> bool) \<Rightarrow> mkey \<times> bytes \<Rightarrow> mkey \<times> bytes" where
  "mem_filter rm e =
     (if mk_type (fst e) = MValue \<and> rm (mk_key (fst e)) then ((fst e)\<lparr>mk_type := MDeletion\<rparr>, []) else e)"

fun mem_compact :: "(bytes \<Rightarrow> bool) \<Rightarrow> (bytes \<Rightarrow> bool) \<Rightarrow> bytes option \<Rightarrow> memtable \<Rightarrow> memtable" where
  "mem_compact rm KeyNotExistsBeyondOutputLevel current_user_key [] = []"
| "mem_compact rm KeyNotExistsBeyondOutputLevel current_user_key (e # xs) =
     (if current_user_key = Some (mk_key (fst e)) then mem_compact rm KeyNotExistsBeyondOutputLevel current_user_key xs
      else
        let e' = mem_filter rm e;
            out = mem_compact rm KeyNotExistsBeyondOutputLevel (Some (mk_key (fst e))) xs
        in if mk_type (fst e') = MDeletion \<and> KeyNotExistsBeyondOutputLevel (mk_key (fst e)) then out else e' # out)"

text \<open>A manual compaction of all entries of a database to its last level.\<close>

definition memdb_CompactFiles :: "string list \<Rightarrow> int \<Rightarrow> (bytes \<Rightarrow> bool) \<Rightarrow> memdb \<Rightarrow> memdb" where
  "memdb_CompactFiles fs l rm r = r\<lparr>mem := mem_compact rm (\<lambda>_. True) None (mem r)\<rparr>"

lemma mem_filter_simps [simp]:
  "mk_key (fst (mem_filter rm e)) = mk_key (fst e)" "mk_seq (fst (mem_filter rm e)) = mk_seq (fst e)"
  by (simp_all add: mem_filter_def)

lemma mem_compact_set:
  "x \<in> set (mem_compact rm bey cur xs) \<Longrightarrow> \<exists>e \<in> set xs. x = mem_filter rm e"
  by (induction rm bey cur xs rule: mem_compact.induct) (auto simp: Let_def split: if_splits)

lemma mem_compact_sorted:
  "mt_sorted xs \<Longrightarrow> mt_sorted (mem_compact rm bey cur xs)"
proof (induction rm bey cur xs rule: mem_compact.induct)
  case (2 rm bey cur e xs)
  have "ik_less (fst (mem_filter rm e)) (fst x)" if x: "x \<in> set (mem_compact rm bey cur' xs)" for x cur'
  proof -
    obtain y where "y \<in> set xs" "x = mem_filter rm y" using mem_compact_set [OF x] by blast
    then show ?thesis using 2(3) by (auto simp: ik_less_def)
  qed
  then show ?case using 2 by (auto simp: Let_def)
qed simp

text \<open>The index after a compaction: the filtered keys are gone, all others keep their value.\<close>

lemma mem_compact_newest:
  assumes "mt_sorted xs" "\<And>c e. cur = Some c \<Longrightarrow> e \<in> set xs \<Longrightarrow> c = mk_key (fst e) \<or> lex_less c (mk_key (fst e))"
  shows "newest k (mem_compact rm bey cur xs) = (if cur = Some k \<or> rm k then None else newest k xs)"
  using assms
proof (induction rm bey cur xs rule: mem_compact.induct)
  case (1 rm bey cur)
  then show ?case by (simp add: newest_def)
next
  case (2 rm bey cur e xs)
  obtain ik v where e: "e = (ik, v)" by (cases e)
  have tail: "mt_sorted xs" using 2(3) by simp
  have none: "newest k xs = None" if "lex_less k (mk_key ik)" using newest_before [of ik v xs k] 2(3) e that by simp
  show ?case
  proof (cases "cur = Some (mk_key ik)")
    case True
    then have "newest k (mem_compact rm bey cur xs) = (if cur = Some k \<or> rm k then None else newest k xs)"
      using 2(1,4) tail e by simp
    then show ?thesis using True e by (auto simp: newest_Cons)
  next
    case False
    have up: "mk_key ik = mk_key (fst x) \<or> lex_less (mk_key ik) (mk_key (fst x))" if "x \<in> set xs" for x
      using 2(3) e that by (auto simp: ik_less_def)
    have ih: "newest k (mem_compact rm bey (Some (mk_key ik)) xs) = (if mk_key ik = k \<or> rm k then None else newest k xs)"
    proof -
      have "newest k (mem_compact rm bey (Some (mk_key (fst e))) xs) =
          (if Some (mk_key (fst e)) = Some k \<or> rm k then None else newest k xs)"
        by (rule 2(2)) (use tail False e up in auto)
      then show ?thesis using e by simp
    qed
    have c: "newest k xs = None" if "cur = Some k" "mk_key ik \<noteq> k"
      using 2(4) [of k e] that e none by simp
    obtain ik' v' where fe: "mem_filter rm e = (ik', v')" by (cases "mem_filter rm e")
    then have u: "mk_key ik' = mk_key ik" using mem_filter_simps(1) [of rm e] e by simp
    have t: "mk_type ik' = MValue \<longleftrightarrow> mk_type ik = MValue \<and> \<not> rm (mk_key ik)" "mk_type ik' = MValue \<Longrightarrow> v' = v"
      using fe e by (auto simp: mem_filter_def split: if_splits)
    show ?thesis
    proof (cases "mk_key ik = k")
      case True
      then show ?thesis using False e fe u t ih by (auto simp: Let_def newest_Cons)
    next
      case ne: False
      then show ?thesis using False e fe u ih c by (cases "cur = Some k") (auto simp: Let_def newest_Cons)
    qed
  qed
qed

lemma memdb_compact_ok:
  assumes "memdb_inv r"
  shows "memdb_inv (memdb_CompactFiles fs l rm r)"
    "memdb_index (memdb_CompactFiles fs l rm r) k = (if rm k then None else memdb_index r k)"
proof -
  have s: "mt_sorted (mem r)" "\<And>e. e \<in> set (mem r) \<Longrightarrow> mk_seq (fst e) \<le> last_sequence r" using assms by (auto simp: memdb_inv_def)
  have "mk_seq (fst x) \<le> last_sequence r" if x: "x \<in> set (mem_compact rm (\<lambda>_. True) None (mem r))" for x
    using mem_compact_set [OF x] s(2) by auto
  then show "memdb_inv (memdb_CompactFiles fs l rm r)"
    using mem_compact_sorted [OF s(1)] by (auto simp: memdb_inv_def memdb_CompactFiles_def)
  show "memdb_index (memdb_CompactFiles fs l rm r) k = (if rm k then None else memdb_index r k)"
    using mem_compact_newest [OF s(1), of None k rm "\<lambda>_. True"] by (simp add: memdb_index_def memdb_CompactFiles_def)
qed

interpretation memdb_c: compacting memdb_ops memdb_inv memdb_index memdb_CompactFiles
  by unfold_locales (auto simp: memdb_compact_ok)

lemma write_inv: "memdb_inv r \<Longrightarrow> memdb_inv (snd (write_one t k v r))"
  by (rule write_one_ok(2) [OF _ prod.collapse [symmetric]])

end
