(* ===== verification/NewDB.thy ===== *)
theory NewDB
  imports Options Statuses Compaction "HOL-Library.Signed_Division" "HOL-Library.Sublist"
begin

text \<open>
  \<open>newdb::DBImpl\<close> of src/newdb/db_impl.h and src/newdb/db_impl.cc and the compaction filter of
  include/newdb/compaction_filter.h. The store keeps two RocksDB databases: \<open>keydb\<close> maps a key to a physical key, the
  8 bytes of a sequence number, and \<open>valuedb\<close>, ordered by \<open>Uint64Comparator\<close>, maps the physical key to a record of key and value.
  \<open>Put\<close> notes the physical key it replaces as garbage, and the garbage collector compacts files of
  \<open>valuedb\<close> with a filter that removes the noted keys.

  Both databases are parameters, with the contracts of theory \<open>Rocks\<close>; the metadata of the table files is an
  arbitrary argument. Printing and \<open>flushVLog\<close>, a private method without a caller, are left out.
\<close>

record ('k, 'v) newdb =
  nopts :: Options
  keydb :: 'k
  valuedb :: 'v
  nstats :: "tickers option"
  sequence :: u64
  phy_keys_for_gc :: "u64 list"

definition NewDB_new :: "Options \<Rightarrow> 'k \<Rightarrow> 'v \<Rightarrow> ('k, 'v) newdb" where
  "NewDB_new opts kr vr =
     \<lparr>nopts = opts, keydb = kr, valuedb = vr, nstats = statistics opts, sequence = 0, phy_keys_for_gc = []\<rparr>"

definition NewDB_Open :: "Options \<Rightarrow> 'k \<Rightarrow> 'v \<Rightarrow> Status \<times> ('k, 'v) newdb" where
  "NewDB_Open opts kr vr = (Status_OK, NewDB_new opts kr vr)"

text \<open>What the destructor leaves: the two databases.\<close>

definition NewDB_delete :: "('k, 'v) newdb \<Rightarrow> 'k \<times> 'v" where
  "NewDB_delete db = (keydb db, valuedb db)"

definition ntick :: "Tickers \<Rightarrow> ('k, 'v) newdb \<Rightarrow> ('k, 'v) newdb" where
  "ntick t db = db\<lparr>nstats := RecordTick t (nstats db)\<rparr>"

subsection \<open>Put\<close>

text \<open>The retry loops; \<open>s\<close> is the last status. The first one ends with the last result, the second with success or failure.\<close>

function gc_get_retry :: "'r rocks \<Rightarrow> bytes \<Rightarrow> nat \<Rightarrow> rstatus \<Rightarrow> bytes \<Rightarrow> 'r \<Rightarrow> rstatus \<times> bytes \<times> 'r" where
  "gc_get_retry R key cnt s v r =
     (if s = ROk then (s, v, r)
      else case rocks_Get R key r of (s', v', r') \<Rightarrow>
        if cnt \<ge> 3 then (s', v', r') else gc_get_retry R key (cnt + 1) s' v' r')"
  by pat_completeness auto
termination
  by (relation "measure (\<lambda>(R, key, cnt, s, v, r). 4 - cnt)") auto

declare gc_get_retry.simps [simp del]

function write_retry :: "'r rocks \<Rightarrow> bytes \<Rightarrow> bytes \<Rightarrow> nat \<Rightarrow> rstatus \<Rightarrow> 'r \<Rightarrow> bool \<times> 'r" where
  "write_retry R key m cnt s r =
     (if s = ROk then (True, r)
      else case rocks_Put R key m r of (s', r') \<Rightarrow>
        if cnt \<ge> 3 then (False, r') else write_retry R key m (cnt + 1) s' r')"
  by pat_completeness auto
termination
  by (relation "measure (\<lambda>(R, key, m, cnt, s, r). 4 - cnt)") auto

declare write_retry.simps [simp del]

definition write_kv :: "'r rocks \<Rightarrow> bytes \<Rightarrow> bytes \<Rightarrow> 'r \<Rightarrow> bool \<times> 'r" where
  "write_kv R key m r = (case rocks_Put R key m r of (s, r') \<Rightarrow> write_retry R key m 0 s r')"

definition get_new_seq :: "('k, 'v) newdb \<Rightarrow> u64 \<times> ('k, 'v) newdb" where
  "get_new_seq db = (sequence db, db\<lparr>sequence := sequence db + 1\<rparr>)"

text \<open>
  The physical value: one byte for the length of the key, the key, the value. Its size is an \<open>int\<close>: a
  negative one makes \<open>malloc\<close> return NULL, one that has wrapped around is too small for the copies.
\<close>

definition pval :: "bytes \<Rightarrow> bytes \<Rightarrow> bytes" where
  "pval key v = of_nat (length key) # key @ v"

definition make_pval :: "bytes \<Rightarrow> bytes \<Rightarrow> bytes res" where
  "make_pval key v =
     (let pval_size = (of_nat (1 + length key + length v) :: 32 word)
      in if 2 ^ 31 \<le> unat pval_size then Inl Null_Deref
         else if unat pval_size < 1 + length key + length v then Inl Heap_Overflow
         else Inr (pval key v))"

definition note_garbage :: "rstatus \<Rightarrow> bytes \<Rightarrow> u64 list \<Rightarrow> u64 list res" where
  "note_garbage s gc_pkey_str phy =
     (if s = ROk \<and> length gc_pkey_str \<noteq> 0 then
        if length gc_pkey_str < 8 then Inl Over_Read else Inr (phy @ [of_le (take 8 gc_pkey_str)])
      else Inr phy)"

definition NewDB_Put :: "'k rocks \<Rightarrow> 'v rocks \<Rightarrow> bytes \<Rightarrow> bytes \<Rightarrow> (('k, 'v) newdb, Status) op" where
  "NewDB_Put RK RV key v db0 =
     (let db = ntick REQ_PUT db0;
          (s, gc_pkey_str, kr) = (case rocks_Get RK key (keydb db) of (s, p, r) \<Rightarrow> gc_get_retry RK key 0 s p r)
      in rbind (note_garbage s gc_pkey_str (phy_keys_for_gc db)) (\<lambda>phy.
        let (seq, db1) = get_new_seq (db\<lparr>keydb := kr, phy_keys_for_gc := phy\<rparr>);
            pkey = to_le 8 seq;
            (ok, kr') = write_kv RK key pkey (keydb db1)
        in if \<not> ok then Inr (Status_IOError [] [], db1\<lparr>keydb := kr'\<rparr>)
           else rbind (make_pval key v) (\<lambda>pv.
             let (ok', vr) = write_kv RV pkey pv (valuedb db1)
             in Inr (if ok' then Status_OK else Status_IOError [] [], db1\<lparr>keydb := kr', valuedb := vr\<rparr>))))"

subsection \<open>Delete and Get\<close>

definition NewDB_Delete :: "'k rocks \<Rightarrow> bytes \<Rightarrow> (('k, 'v) newdb, Status) op" where
  "NewDB_Delete RK key db0 =
     (let db = ntick REQ_DEL db0; (s, kr) = rocks_Delete RK key (keydb db)
      in Inr (Status_OK, db\<lparr>keydb := kr\<rparr>))"

function lookup_retry :: "'r rocks \<Rightarrow> bytes \<Rightarrow> nat \<Rightarrow> rstatus \<Rightarrow> bytes \<Rightarrow> 'r \<Rightarrow> bytes option \<times> 'r" where
  "lookup_retry R key cnt s v r =
     (if s = ROk then (Some v, r)
      else case rocks_Get R key r of (s', v', r') \<Rightarrow>
        if cnt \<ge> 3 then (None, r') else lookup_retry R key (cnt + 1) s' v' r')"
  by pat_completeness auto
termination
  by (relation "measure (\<lambda>(R, key, cnt, s, v, r). 4 - cnt)") auto

declare lookup_retry.simps [simp del]

text \<open>\<open>value->append(ptr)\<close> takes a C string: it stops at the first 0 byte, at the latest at the terminator behind the data.\<close>

definition pval_value :: "bytes \<Rightarrow> bytes res" where
  "pval_value pv =
     (let key_len = (case pv of [] \<Rightarrow> 0 | b # _ \<Rightarrow> unat b)
      in if 1 + key_len > length pv then Inl Over_Read else Inr (takeWhile (\<lambda>b. b \<noteq> 0) (drop (1 + key_len) pv)))"

definition NewDB_Get :: "'k rocks \<Rightarrow> 'v rocks \<Rightarrow> bytes \<Rightarrow> bytes \<Rightarrow> (('k, 'v) newdb, Status \<times> bytes) op" where
  "NewDB_Get RK RV key out db0 =
     (let db = ntick REQ_GET db0;
          (s, p, kr) = rocks_Get RK key (keydb db)
      in if s = RNotFound then Inr ((Status_NotFound [] [], out), ntick REQ_GET_NOEXIST (db\<lparr>keydb := kr\<rparr>))
         else case lookup_retry RK key 0 s p kr of
           (None, kr') \<Rightarrow> Inr ((Status_NotFound [] [], out), db\<lparr>keydb := kr'\<rparr>)
         | (Some pkey, kr') \<Rightarrow>
             let db1 = db\<lparr>keydb := kr'\<rparr>;
                 (s2, pv, vr) = rocks_Get RV pkey (valuedb db1)
             in if s2 = RNotFound then Inr ((Status_NotFound [] [], out), ntick REQ_GET_NOEXIST (db1\<lparr>valuedb := vr\<rparr>))
                else case lookup_retry RV pkey 0 s2 pv vr of
                  (None, vr') \<Rightarrow> Inr ((Status_NotFound [] [], out), db1\<lparr>valuedb := vr'\<rparr>)
                | (Some pval_str, vr') \<Rightarrow>
                    rbind (pval_value pval_str) (\<lambda>v. Inr ((Status_OK, out @ v), db1\<lparr>valuedb := vr'\<rparr>)))"

subsection \<open>The compaction filter\<close>

text \<open>The decision of the filter: True for \<open>kRemove\<close>. None is the null pointer.\<close>

definition FilterV2 :: "u64 set option \<Rightarrow> bytes \<Rightarrow> bool" where
  "FilterV2 garbage_keys key = (case garbage_keys of None \<Rightarrow> False | Some g \<Rightarrow> of_le (take 8 key) \<in> g)"

definition CreateCompactionFilter :: "bool \<Rightarrow> u64 set option \<Rightarrow> bytes \<Rightarrow> bool" where
  "CreateCompactionFilter is_manual_compaction garbage_keys =
     (if is_manual_compaction then FilterV2 garbage_keys else FilterV2 None)"

subsection \<open>Garbage collection\<close>

record SstFileMetaData =
  sst_name :: string
  smallestkey :: bytes
  largestkey :: bytes
  being_compacted :: bool

text \<open>Iterators into the sorted garbage keys are indices.\<close>

record GCMetadata =
  sstmeta :: SstFileMetaData
  ready_for_gc :: bool
  level :: int
  smallest_itr :: nat
  largest_itr :: nat

definition key_num :: "bytes \<Rightarrow> u64" where
  "key_num b = of_le (take 8 b)"

definition lower_bound :: "u64 list \<Rightarrow> u64 \<Rightarrow> nat" where
  "lower_bound xs x = length (takeWhile (\<lambda>y. y < x) xs)"

definition upper_bound :: "u64 list \<Rightarrow> u64 \<Rightarrow> nat" where
  "upper_bound xs x = length (takeWhile (\<lambda>y. y \<le> x) xs)"

text \<open>
  The share of garbage of a file, in percent of the width of its key range, with the integer division of C. It is stored in a
  \<open>float\<close>, which does not change the comparison with 1.
\<close>

definition gc_metadata :: "u64 list \<Rightarrow> int \<times> SstFileMetaData \<Rightarrow> GCMetadata res" where
  "gc_metadata gc lf =
     (let (lvl, f) = lf;
          smallest_key = key_num (smallestkey f);
          largest_key = key_num (largestkey f);
          small_itr = lower_bound gc smallest_key;
          large_itr = upper_bound gc largest_key;
          no_of_keys = int large_itr - int small_itr;
          number_of_key_in_file = sint (ucast (largest_key - smallest_key) :: 32 word)
      in if length (smallestkey f) < 8 \<or> length (largestkey f) < 8 then Inl Over_Read
         else if number_of_key_in_file = 0 then Inl Div_By_Zero
         else Inr \<lparr>sstmeta = f,
                   ready_for_gc = (\<not> being_compacted f \<and> (no_of_keys * 100) sdiv number_of_key_in_file \<ge> 1),
                   level = lvl, smallest_itr = small_itr, largest_itr = large_itr\<rparr>)"

text \<open>
  The loop over the files. \<open>set_garbage_keys\<close> passes the address of the set, so the filter of the compaction that follows sees
  its current contents. \<open>std::sort\<close> leaves the order of files with the same smallest key open; the model keeps it.
\<close>

record 'v gc_run =
  deletion_keys :: "(nat \<times> nat) list"
  deletion_keys_tmp :: "(nat \<times> nat) list"
  compaction_files :: "string list"
  gc_keys_set :: "u64 set"
  next_lvl :: int
  run_db :: 'v

definition gc_file :: "(string list \<Rightarrow> int \<Rightarrow> (bytes \<Rightarrow> bool) \<Rightarrow> 'v \<Rightarrow> 'v) \<Rightarrow> u64 list \<Rightarrow> GCMetadata \<Rightarrow> 'v gc_run \<Rightarrow> 'v gc_run" where
  "gc_file CompactFiles gc m st =
     (if ready_for_gc m then
        st\<lparr>deletion_keys_tmp := deletion_keys_tmp st @ [(smallest_itr m, largest_itr m)],
           gc_keys_set := gc_keys_set st \<union> set (take (largest_itr m - smallest_itr m) (drop (smallest_itr m) gc)),
           compaction_files := compaction_files st @ [sst_name (sstmeta m)],
           next_lvl := max (next_lvl st) (level m + 1)\<rparr>
      else
        let st1 = (if length (compaction_files st) > 1 then
                     st\<lparr>deletion_keys := deletion_keys st @ deletion_keys_tmp st,
                        run_db := CompactFiles (compaction_files st) (next_lvl st)
                          (CreateCompactionFilter True (Some (gc_keys_set st))) (run_db st)\<rparr>
                   else st)
        in st1\<lparr>next_lvl := 0, compaction_files := [], gc_keys_set := {}, deletion_keys_tmp := []\<rparr>)"

definition gc_start :: "'v \<Rightarrow> 'v gc_run" where
  "gc_start vr = \<lparr>deletion_keys = [], deletion_keys_tmp = [], compaction_files = [], gc_keys_set = {}, next_lvl = 0, run_db = vr\<rparr>"

text \<open>\<open>phy_keys_for_gc.erase\<close>, from the last collected range to the first.\<close>

fun erase_ranges :: "(nat \<times> nat) list \<Rightarrow> u64 list \<Rightarrow> u64 list res" where
  "erase_ranges [] xs = Inr xs"
| "erase_ranges ((s, l) # rs) xs =
     (if s \<le> l \<and> l \<le> length xs then erase_ranges rs (take s xs @ drop l xs) else Inl Heap_Overflow)"

definition NewDB_vLogGCWorker :: "(string list \<Rightarrow> int \<Rightarrow> (bytes \<Rightarrow> bool) \<Rightarrow> 'v \<Rightarrow> 'v) \<Rightarrow> (int \<times> SstFileMetaData list) list \<Rightarrow>
    (('k, 'v) newdb, unit) op" where
  "NewDB_vLogGCWorker CompactFiles levels db =
     (let gc = sort (phy_keys_for_gc db)
      in rbind (mapr (gc_metadata gc) (concat (map (\<lambda>(l, fs). map (Pair l) fs) levels))) (\<lambda>input_files.
         let files = sort_key (\<lambda>m. key_num (smallestkey (sstmeta m))) input_files;
             st = fold (gc_file CompactFiles gc) files (gc_start (valuedb db))
         in rbind (erase_ranges (rev (deletion_keys st)) gc) (\<lambda>phy.
              Inr ((), db\<lparr>valuedb := run_db st, phy_keys_for_gc := phy\<rparr>))))"

definition NewDB_vLogGarbageCollect :: "(string list \<Rightarrow> int \<Rightarrow> (bytes \<Rightarrow> bool) \<Rightarrow> 'v \<Rightarrow> 'v) \<Rightarrow> (int \<times> SstFileMetaData list) list \<Rightarrow>
    (('k, 'v) newdb, unit) op" where
  "NewDB_vLogGarbageCollect CompactFiles levels db = NewDB_vLogGCWorker CompactFiles levels db"

subsection \<open>The abstract store\<close>

definition c_str :: "bytes \<Rightarrow> bytes" where
  "c_str v = takeWhile (\<lambda>b. b \<noteq> 0) v"

definition nd_value :: "bytes \<Rightarrow> bytes" where
  "nd_value pv = c_str (drop (1 + unat (hd pv)) pv)"

text \<open>A key has the value that the record of its physical key holds, as \<open>Get\<close> reads it.\<close>

definition nd_abs :: "('k \<Rightarrow> bytes \<Rightarrow> bytes option) \<Rightarrow> ('v \<Rightarrow> bytes \<Rightarrow> bytes option) \<Rightarrow> ('k, 'v) newdb \<Rightarrow> bytes \<Rightarrow> bytes option" where
  "nd_abs kidx vidx db k = (case kidx (keydb db) k of None \<Rightarrow> None | Some p \<Rightarrow> map_option nd_value (vidx (valuedb db) p))"

text \<open>
  Physical keys are sequence numbers already given out, of one key each, their record is that of the key, and no noted
  garbage key is in use.
\<close>

definition nd_index_ok :: "('k \<Rightarrow> bytes \<Rightarrow> bytes option) \<Rightarrow> ('v \<Rightarrow> bytes \<Rightarrow> bytes option) \<Rightarrow> ('k, 'v) newdb \<Rightarrow> bool" where
  "nd_index_ok kidx vidx db \<longleftrightarrow>
     (\<forall>k p. kidx (keydb db) k = Some p \<longrightarrow> length k < 256 \<and>
        (\<exists>(s :: u64) v. p = to_le 8 s \<and> unat s < unat (sequence db) \<and> vidx (valuedb db) p = Some (pval k v))) \<and>
     (\<forall>k k' p. kidx (keydb db) k = Some p \<longrightarrow> kidx (keydb db) k' = Some p \<longrightarrow> k = k') \<and>
     (\<forall>g \<in> set (phy_keys_for_gc db). unat g < unat (sequence db) \<and> (\<forall>k. kidx (keydb db) k \<noteq> Some (to_le 8 g)))"

definition nd_inv :: "('k \<Rightarrow> bool) \<Rightarrow> ('k \<Rightarrow> bytes \<Rightarrow> bytes option) \<Rightarrow> ('v \<Rightarrow> bool) \<Rightarrow> ('v \<Rightarrow> bytes \<Rightarrow> bytes option) \<Rightarrow> ('k, 'v) newdb \<Rightarrow> bool" where
  "nd_inv kinv kidx vinv vidx db \<longleftrightarrow> kinv (keydb db) \<and> vinv (valuedb db) \<and> nd_index_ok kidx vidx db"

lemma ntick_simps [simp]:
  "keydb (ntick t db) = keydb db" "valuedb (ntick t db) = valuedb db" "sequence (ntick t db) = sequence db"
  "phy_keys_for_gc (ntick t db) = phy_keys_for_gc db"
  by (simp_all add: ntick_def)

lemma nd_cong:
  assumes "kidx (keydb db') = kidx (keydb db)" "vidx (valuedb db') = vidx (valuedb db)"
  shows "nd_abs kidx vidx db' = nd_abs kidx vidx db"
    "sequence db' = sequence db \<Longrightarrow> phy_keys_for_gc db' = phy_keys_for_gc db \<Longrightarrow> nd_index_ok kidx vidx db' = nd_index_ok kidx vidx db"
  using assms by (auto simp: nd_abs_def nd_index_ok_def fun_eq_iff split: option.split)

lemma to_le_u64_inject [simp]: "to_le 8 (s :: u64) = to_le 8 t \<longleftrightarrow> s = t"
  by (metis of_le_to_le_u64)

lemma pval_value_ok:
  assumes "length k < 256"
  shows "nd_value (pval k v) = c_str v" "pval_value (pval k v) = Inr (nd_value (pval k v))"
proof -
  have "unat (of_nat (length k) :: byte) = length k" using assms by (intro unat_of_nat_small) simp
  then show "nd_value (pval k v) = c_str v" "pval_value (pval k v) = Inr (nd_value (pval k v))"
    by (simp_all add: nd_value_def pval_value_def pval_def c_str_def)
qed

lemma pval_value_nd: "pv \<noteq> [] \<Longrightarrow> 1 + unat (hd pv) \<le> length pv \<Longrightarrow> pval_value pv = Inr (nd_value pv)"
  by (cases pv) (simp_all add: pval_value_def nd_value_def c_str_def)

lemma make_pval_ok: "1 + length k + length v < 2 ^ 31 \<Longrightarrow> make_pval k v = Inr (pval k v)"
  by (simp add: make_pval_def unat_of_nat_small Let_def del: of_nat_add of_nat_Suc)

context rocks_map_ok
begin

lemma write_kv_ok:
  assumes "rinv r"
  obtains r' where "write_kv R k m r = (True, r')" "rinv r'" "index r' = (index r)(k \<mapsto> m)"
  by (rule put_index [OF assms, of k m]) (auto simp: write_kv_def write_retry.simps intro: that)

text \<open>A lookup with retries: a missing key stays missing in all rounds.\<close>

lemma gc_get_ok:
  assumes "rinv r"
  obtains s v r' where "(case rocks_Get R k r of (s, v, r) \<Rightarrow> gc_get_retry R k 0 s v r) = (s, v, r')" "rinv r'" "index r' = index r"
    "if index r k = None then s = RNotFound else s = ROk \<and> index r k = Some v"
proof -
  have miss: "\<exists>v r'. gc_get_retry R k c RNotFound v0 r = (RNotFound, v, r') \<and> rinv r' \<and> index r' = index r"
    if "rinv r" "index r k = None" for c v0 r
    using that
  proof (induction "4 - c" arbitrary: c v0 r)
    case 0
    then show ?case
      by (cases rule: get_index [OF 0(2), of k]) (auto simp: gc_get_retry.simps [of R k c])
  next
    case (Suc n)
    obtain v r' where g: "rocks_Get R k r = (RNotFound, v, r')" "rinv r'" "index r' = index r"
      using get_index [OF Suc(3), of k] Suc(4) by auto
    have "\<exists>w r''. gc_get_retry R k (c + 1) RNotFound v r' = (RNotFound, w, r'') \<and> rinv r'' \<and> index r'' = index r'"
      by (rule Suc(1)) (use Suc(2,4) g in auto)
    then show ?case using g by (auto simp: gc_get_retry.simps [of R k c])
  qed
  show thesis
  proof (cases rule: get_index [OF assms, of k])
    case (1 v r')
    then show thesis by (intro that [of ROk v r']) (simp_all add: gc_get_retry.simps)
  next
    case (2 v r')
    then have "index r' k = None" by simp
    from miss [OF 2(2) this, of 0 v] obtain w r'' where "gc_get_retry R k 0 RNotFound v r' = (RNotFound, w, r'')" "rinv r''" "index r'' = index r'"
      by blast
    then show thesis using 2 by (intro that [of RNotFound w r'']) simp_all
  qed
qed

end

subsection \<open>The garbage collector returns\<close>

text \<open>Table files with different, disjoint key ranges of more than one key.\<close>

definition file_ok :: "SstFileMetaData \<Rightarrow> bool" where
  "file_ok f \<longleftrightarrow> 8 \<le> length (smallestkey f) \<and> 8 \<le> length (largestkey f) \<and> key_num (smallestkey f) \<le> key_num (largestkey f) \<and>
     (ucast (key_num (largestkey f) - key_num (smallestkey f)) :: 32 word) \<noteq> 0"

definition level_files :: "(int \<times> SstFileMetaData list) list \<Rightarrow> (int \<times> SstFileMetaData) list" where
  "level_files levels = concat (map (\<lambda>(l, fs). map (Pair l) fs) levels)"

definition levels_ok :: "(int \<times> SstFileMetaData list) list \<Rightarrow> bool" where
  "levels_ok levels \<longleftrightarrow> (let fs = map snd (level_files levels) in distinct fs \<and> (\<forall>f \<in> set fs. file_ok f) \<and>
     (\<forall>f \<in> set fs. \<forall>g \<in> set fs. f \<noteq> g \<longrightarrow>
        key_num (largestkey f) < key_num (smallestkey g) \<or> key_num (largestkey g) < key_num (smallestkey f)))"

definition range_of :: "GCMetadata \<Rightarrow> nat \<times> nat" where
  "range_of m = (smallest_itr m, largest_itr m)"

lemma takeWhile_mono: "(\<And>x. P x \<Longrightarrow> Q x) \<Longrightarrow> length (takeWhile P xs) \<le> length (takeWhile Q xs)"
  by (induction xs) auto

lemma bounds_mono:
  "a \<le> b \<Longrightarrow> lower_bound gc a \<le> upper_bound gc b" "a < b \<Longrightarrow> upper_bound gc a \<le> lower_bound gc b" "upper_bound gc a \<le> length gc"
  unfolding lower_bound_def upper_bound_def by (auto intro!: takeWhile_mono length_takeWhile_le)

lemma gc_metadata_ok:
  assumes "file_ok (snd lf)"
  obtains m where "gc_metadata gc lf = Inr m" "sstmeta m = snd lf"
    "range_of m = (lower_bound gc (key_num (smallestkey (snd lf))), upper_bound gc (key_num (largestkey (snd lf))))"
proof -
  obtain l f where lf: "lf = (l, f)" by (cases lf)
  have "(ucast (key_num (largestkey f) - key_num (smallestkey f)) :: 32 word) \<noteq> 0"
    using assms lf by (simp add: file_ok_def)
  then have "sint (ucast (key_num (largestkey f) - key_num (smallestkey f)) :: 32 word) \<noteq> 0"
    by (simp only: signed_eq_0_iff not_False_eq_True)
  then show thesis using assms lf that by (auto simp: gc_metadata_def file_ok_def range_of_def Let_def)
qed

lemma fold_gc_file_ranges:
  "subseq (deletion_keys (fold (gc_file cf gc) ms st) @ deletion_keys_tmp (fold (gc_file cf gc) ms st))
     (deletion_keys st @ deletion_keys_tmp st @ map range_of ms)"
proof (induction ms arbitrary: st)
  case (Cons m ms)
  let ?st = "gc_file cf gc m st"
  have "subseq (deletion_keys ?st @ deletion_keys_tmp ?st) (deletion_keys st @ deletion_keys_tmp st @ [range_of m])"
    by (auto simp: gc_file_def Let_def range_of_def)
  then have "subseq ((deletion_keys ?st @ deletion_keys_tmp ?st) @ map range_of ms)
      ((deletion_keys st @ deletion_keys_tmp st @ [range_of m]) @ map range_of ms)"
    by (rule list_emb_append_mono) (rule subseq_order.order_refl)
  then show ?case using Cons.IH [of ?st] by (auto intro: subseq_order.order_trans)
qed simp

lemma sorted_wrt_subseq: "subseq ys xs \<Longrightarrow> sorted_wrt P xs \<Longrightarrow> sorted_wrt P ys"
  by (induction rule: list_emb.induct) (auto dest: list_emb_set)

lemma erase_ranges_ok:
  assumes "sorted_wrt (\<lambda>r r'. snd r \<le> fst r') rs" "\<And>r. r \<in> set rs \<Longrightarrow> fst r \<le> snd r \<and> snd r \<le> length xs"
  shows "\<exists>ys. erase_ranges (rev rs) xs = Inr ys"
  using assms
proof (induction rs arbitrary: xs rule: rev_induct)
  case (snoc r rs)
  obtain a b where r: "r = (a, b)" by (cases r)
  have ab: "a \<le> b" "b \<le> length xs" using snoc.prems(2) [of r] r by auto
  have "\<exists>ys. erase_ranges (rev rs) (take a xs @ drop b xs) = Inr ys"
  proof (rule snoc.IH)
    show "sorted_wrt (\<lambda>r r'. snd r \<le> fst r') rs" using snoc.prems(1) by (simp add: sorted_wrt_append)
    fix q
    assume q: "q \<in> set rs"
    then have "snd q \<le> a" using snoc.prems(1) r by (auto simp: sorted_wrt_append)
    then show "fst q \<le> snd q \<and> snd q \<le> length (take a xs @ drop b xs)" using snoc.prems(2) [of q] q ab by simp
  qed
  then show ?case using r ab by simp
qed simp

lemma sorted_wrt_distinct: "distinct xs \<Longrightarrow> (\<And>a b. a \<in> set xs \<Longrightarrow> b \<in> set xs \<Longrightarrow> a \<noteq> b \<Longrightarrow> P a b) \<Longrightarrow> sorted_wrt P xs"
  by (induction xs) auto

lemma NewDB_GC_returns:
  assumes ok: "levels_ok levels"
  shows "\<exists>db'. NewDB_vLogGarbageCollect CompactFiles levels db = Inr ((), db')"
proof -
  let ?gc = "sort (phy_keys_for_gc db)" and ?lfs = "level_files levels"
  define g where "g = (\<lambda>lf. SOME m. gc_metadata ?gc lf = Inr m)"
  have F: "distinct (map snd ?lfs)" "\<And>lf. lf \<in> set ?lfs \<Longrightarrow> file_ok (snd lf)"
    "\<And>f f'. f \<in> snd ` set ?lfs \<Longrightarrow> f' \<in> snd ` set ?lfs \<Longrightarrow> f \<noteq> f' \<Longrightarrow>
      key_num (largestkey f) < key_num (smallestkey f') \<or> key_num (largestkey f') < key_num (smallestkey f)"
    using ok by (auto simp: levels_ok_def Let_def)
  have g: "gc_metadata ?gc lf = Inr (g lf)" "sstmeta (g lf) = snd lf"
    "range_of (g lf) = (lower_bound ?gc (key_num (smallestkey (snd lf))), upper_bound ?gc (key_num (largestkey (snd lf))))"
    if lf: "lf \<in> set ?lfs" for lf
  proof -
    obtain m where m: "gc_metadata ?gc lf = Inr m" "sstmeta m = snd lf"
      "range_of m = (lower_bound ?gc (key_num (smallestkey (snd lf))), upper_bound ?gc (key_num (largestkey (snd lf))))"
      by (rule gc_metadata_ok [OF F(2) [OF lf]])
    moreover have "g lf = m" using m(1) by (simp add: g_def)
    ultimately show "gc_metadata ?gc lf = Inr (g lf)" "sstmeta (g lf) = snd lf"
      "range_of (g lf) = (lower_bound ?gc (key_num (smallestkey (snd lf))), upper_bound ?gc (key_num (largestkey (snd lf))))" by simp_all
  qed
  have mp: "mapr (gc_metadata ?gc) ?lfs = Inr (map g ?lfs)" by (rule mapr_ok) (simp add: g(1))
  let ?k = "\<lambda>m. key_num (smallestkey (sstmeta m))"
  let ?files = "sort_key ?k (map g ?lfs)"
  have ms: "\<exists>lf \<in> set ?lfs. m = g lf" if "m \<in> set ?files" for m using that by auto
  have d: "distinct ?files"
  proof -
    have "map sstmeta (map g ?lfs) = map snd ?lfs" using g(2) by simp
    then have "distinct (map sstmeta (map g ?lfs))" using F(1) by (simp only:)
    then show ?thesis by (metis distinct_map distinct_sort)
  qed
  have "sorted_wrt (\<lambda>a b. ?k a \<le> ?k b \<and> snd (range_of a) \<le> fst (range_of b)) ?files"
  proof -
    have disj: "snd (range_of a) \<le> fst (range_of b)" if ab: "a \<in> set ?files" "b \<in> set ?files" "a \<noteq> b" "?k a \<le> ?k b" for a b
    proof -
      obtain la lb where l: "la \<in> set ?lfs" "lb \<in> set ?lfs" "a = g la" "b = g lb" using ms ab(1,2) by blast
      have "snd la \<noteq> snd lb" using F(1) l ab(3) by (auto simp: distinct_map inj_on_def)
      moreover have "key_num (smallestkey (snd lb)) \<le> key_num (largestkey (snd lb))" using F(2) [OF l(2)] by (simp add: file_ok_def)
      ultimately have "key_num (largestkey (snd la)) < key_num (smallestkey (snd lb))"
        using F(3) [of "snd la" "snd lb"] l(1,2) ab(4) g(2) [OF l(1)] g(2) [OF l(2)] l(3,4) by fastforce
      then show ?thesis using bounds_mono(2) g(3) [OF l(1)] g(3) [OF l(2)] l(3,4) by simp
    qed
    have "sorted_wrt (\<lambda>a b. a \<noteq> b) ?files" by (rule sorted_wrt_distinct [OF d])
    moreover have "sorted_wrt (\<lambda>a b. ?k a \<le> ?k b) ?files" using sorted_sort_key [of ?k "map g ?lfs"] by (simp add: sorted_wrt_map)
    ultimately have "sorted_wrt (\<lambda>a b. a \<noteq> b \<and> ?k a \<le> ?k b) ?files" by (simp add: sorted_wrt_iff_nth_less)
    then show ?thesis by (rule sorted_wrt_mono_rel [rotated]) (use disj in blast)
  qed
  then have "sorted_wrt (\<lambda>a b. snd (range_of a) \<le> fst (range_of b)) ?files" by (rule sorted_wrt_mono_rel [rotated]) simp
  then have srt: "sorted_wrt (\<lambda>r r'. snd r \<le> fst r') (map range_of ?files)" by (simp add: sorted_wrt_map)
  let ?st = "fold (gc_file CompactFiles ?gc) ?files (gc_start (valuedb db))"
  have "subseq (deletion_keys ?st @ deletion_keys_tmp ?st) (map range_of ?files)"
    using fold_gc_file_ranges [of CompactFiles ?gc ?files "gc_start (valuedb db)"] by (simp add: gc_start_def)
  moreover have "subseq (deletion_keys ?st) (deletion_keys ?st @ deletion_keys_tmp ?st)" by (intro prefix_imp_subseq) simp
  ultimately have ss: "subseq (deletion_keys ?st) (map range_of ?files)" by (rule subseq_order.order_trans [rotated])
  have "fst r \<le> snd r \<and> snd r \<le> length ?gc" if r: "r \<in> set (deletion_keys ?st)" for r
  proof -
    have "r \<in> set (map range_of ?files)" by (rule list_emb_set [OF ss r]) simp
    then obtain lf where lf: "lf \<in> set ?lfs" "r = range_of (g lf)" by auto
    have "key_num (smallestkey (snd lf)) \<le> key_num (largestkey (snd lf))" using F(2) [OF lf(1)] by (simp add: file_ok_def)
    then show ?thesis using g(3) [OF lf(1)] lf(2) bounds_mono(1) bounds_mono(3) [of ?gc] by (simp del: length_sort)
  qed
  then obtain ys where "erase_ranges (rev (deletion_keys ?st)) ?gc = Inr ys"
    using erase_ranges_ok [OF sorted_wrt_subseq [OF ss srt], of ?gc] by blast
  then show ?thesis using mp by (simp add: NewDB_vLogGarbageCollect_def NewDB_vLogGCWorker_def level_files_def Let_def)
qed

text \<open>The two databases of a store.\<close>

locale two_dbs =
  key: rocks_map_ok RK kinv kidx +
  val: compacting RV vinv vidx CompactFiles
  for RK :: "'k rocks" and kinv kidx and RV :: "'v rocks" and vinv vidx and CompactFiles
begin

abbreviation "inv_db \<equiv> nd_inv kinv kidx vinv vidx"
abbreviation "abs_db \<equiv> nd_abs kidx vidx"

lemma NewDB_Put_ok:
  assumes inv: "inv_db db" and k: "length k < 256" and sq: "unat (sequence db) < 2 ^ 64 - 1" and sz: "1 + length k + length v < 2 ^ 31"
  obtains db' where "NewDB_Put RK RV k v db = Inr (Status_OK, db')" "inv_db db'" "abs_db db' = (abs_db db)(k \<mapsto> c_str v)"
    "unat (sequence db') = unat (sequence db) + 1"
    "phy_keys_for_gc db' = phy_keys_for_gc db @ (case kidx (keydb db) k of None \<Rightarrow> [] | Some p \<Rightarrow> [of_le p])"
    "nopts db' = nopts db"
proof -
  let ?seq = "sequence db" and ?p = "to_le 8 (sequence db)"
  have I: "kinv (keydb db)" "vinv (valuedb db)" "nd_index_ok kidx vidx db" using inv by (simp_all add: nd_inv_def)
  have ix: "length j < 256 \<and> (\<exists>(s :: u64) w. q = to_le 8 s \<and> unat s < unat ?seq \<and> vidx (valuedb db) q = Some (pval j w))"
    if "kidx (keydb db) j = Some q" for j q using I(3) that by (simp add: nd_index_ok_def)
  have inj: "kidx (keydb db) i = Some q \<Longrightarrow> kidx (keydb db) j = Some q \<Longrightarrow> i = j" for i j q
    using I(3) unfolding nd_index_ok_def by blast
  have gb: "unat g < unat ?seq" "kidx (keydb db) j \<noteq> Some (to_le 8 g)" if "g \<in> set (phy_keys_for_gc db)" for g j
    using I(3) that unfolding nd_index_ok_def by blast+
  obtain s gp kr where g: "(case rocks_Get RK k (keydb db) of (s, v, r) \<Rightarrow> gc_get_retry RK k 0 s v r) = (s, gp, kr)" "kinv kr" "kidx kr = kidx (keydb db)"
    "if kidx (keydb db) k = None then s = RNotFound else s = ROk \<and> kidx (keydb db) k = Some gp"
    by (rule key.gc_get_ok [OF I(1)])
  let ?phy = "phy_keys_for_gc db @ (case kidx (keydb db) k of None \<Rightarrow> [] | Some p \<Rightarrow> [of_le p])"
  have ng: "note_garbage s gp (phy_keys_for_gc db) = Inr ?phy"
  proof (cases "kidx (keydb db) k")
    case (Some q)
    then show ?thesis using g(4) ix [OF Some] by (auto simp: note_garbage_def)
  qed (use g(4) in \<open>simp add: note_garbage_def\<close>)
  obtain kr' where kw: "write_kv RK k ?p kr = (True, kr')" "kinv kr'" "kidx kr' = (kidx kr)(k \<mapsto> ?p)" by (rule key.write_kv_ok [OF g(2)])
  obtain vr where vw: "write_kv RV ?p (pval k v) (valuedb db) = (True, vr)" "vinv vr" "vidx vr = (vidx (valuedb db))(?p \<mapsto> pval k v)"
    by (rule val.write_kv_ok [OF I(2)])
  let ?db = "(ntick REQ_PUT db)\<lparr>keydb := kr', valuedb := vr, sequence := ?seq + 1, phy_keys_for_gc := ?phy\<rparr>"
  have run: "NewDB_Put RK RV k v db = Inr (Status_OK, ?db)"
    using g(1) ng kw(1) vw(1) make_pval_ok [OF sz] by (simp add: NewDB_Put_def get_new_seq_def Let_def)
  have sq1: "unat (?seq + 1) = unat ?seq + 1" using sq by (subst unat_add_small) simp_all
  have ki: "kidx kr' j = (if j = k then Some ?p else kidx (keydb db) j)" for j using kw(3) g(3) by simp
  have fresh: "kidx (keydb db) j \<noteq> Some ?p" for j using ix [of j ?p] by auto
  have other: "vidx vr q = vidx (valuedb db) q" if "kidx (keydb db) j = Some q" for j q
    using vw(3) fresh [of j] that by auto
  have "nd_index_ok kidx vidx ?db"
    unfolding nd_index_ok_def
  proof (intro conjI allI impI ballI)
    fix j q
    assume a: "kidx (keydb ?db) j = Some q"
    show "length j < 256" using a ix [of j q] k by (cases "j = k") (auto simp: ki)
    show "\<exists>(s :: u64) v. q = to_le 8 s \<and> unat s < unat (sequence ?db) \<and> vidx (valuedb ?db) q = Some (pval j v)"
    proof (cases "j = k")
      case True
      then show ?thesis using a vw(3) sq1 by (auto simp: ki)
    next
      case False
      then have a': "kidx (keydb db) j = Some q" using a by (simp add: ki)
      show ?thesis using ix [OF a'] other [OF a'] sq1 by (auto intro: less_SucI)
    qed
  next
    fix i j q
    assume "kidx (keydb ?db) i = Some q" "kidx (keydb ?db) j = Some q"
    then show "i = j" using inj fresh by (auto simp: ki split: if_splits)
  next
    fix x
    assume x: "x \<in> set (phy_keys_for_gc ?db)"
    have c: "x \<in> set (phy_keys_for_gc db) \<or> kidx (keydb db) k = Some (to_le 8 x) \<and> unat x < unat ?seq"
    proof (cases "kidx (keydb db) k")
      case (Some q)
      then show ?thesis using x ix [OF Some] by auto
    qed (use x in simp)
    then have lt: "unat x < unat ?seq" using gb(1) by blast
    then show "unat x < unat (sequence ?db)" using sq1 by simp
    fix j
    have "x \<noteq> ?seq" using lt by auto
    then show "kidx (keydb ?db) j \<noteq> Some (to_le 8 x)"
      using c gb(2) [of x j] inj [of j _ k] by (auto simp: ki)
  qed
  then have "inv_db ?db" using kw(2) vw(2) by (simp add: nd_inv_def)
  moreover have "abs_db ?db j = ((abs_db db)(k \<mapsto> c_str v)) j" for j
    using other [of j] vw(3) pval_value_ok(1) [OF k, of v] by (auto simp: nd_abs_def ki split: option.split)
  moreover have "nopts ?db = nopts db" by (simp add: ntick_def)
  ultimately show thesis using run sq1 by (intro that [of ?db]) (auto simp: fun_eq_iff)
qed

text \<open>\<open>Get\<close> only needs that the records it meets are long enough.\<close>

lemma NewDB_Get_ok:
  assumes I: "kinv (keydb db)" "vinv (valuedb db)"
    and pv: "\<And>p w. kidx (keydb db) k = Some p \<Longrightarrow> vidx (valuedb db) p = Some w \<Longrightarrow> w \<noteq> [] \<and> 1 + unat (hd w) \<le> length w"
  obtains db' where "NewDB_Get RK RV k out db =
      Inr (case abs_db db k of None \<Rightarrow> (Status_NotFound [] [], out) | Some v \<Rightarrow> (Status_OK, out @ v), db')"
    "kinv (keydb db')" "vinv (valuedb db')" "kidx (keydb db') = kidx (keydb db)" "vidx (valuedb db') = vidx (valuedb db)"
    "sequence db' = sequence db" "phy_keys_for_gc db' = phy_keys_for_gc db"
proof (cases rule: key.get_index [OF I(1), of k])
  case (2 p kr)
  then show thesis
    by (intro that [of "ntick REQ_GET_NOEXIST ((ntick REQ_GET db)\<lparr>keydb := kr\<rparr>)"])
      (simp_all add: NewDB_Get_def nd_abs_def I(2))
next
  case k: (1 p kr)
  show thesis
  proof (cases rule: val.get_index [OF I(2), of p])
    case (2 w vr)
    then show thesis
      using k by (intro that [of "ntick REQ_GET_NOEXIST ((ntick REQ_GET db)\<lparr>keydb := kr, valuedb := vr\<rparr>)"])
        (simp_all add: NewDB_Get_def nd_abs_def lookup_retry.simps)
  next
    case (1 w vr)
    then have "pval_value w = Inr (nd_value w)" using pv [OF k(4)] by (intro pval_value_nd) simp_all
    then show thesis
      using k 1 by (intro that [of "(ntick REQ_GET db)\<lparr>keydb := kr, valuedb := vr\<rparr>"])
        (simp_all add: NewDB_Get_def nd_abs_def lookup_retry.simps)
  qed
qed

lemma inv_pval:
  assumes "inv_db db" "kidx (keydb db) k = Some p" "vidx (valuedb db) p = Some w"
  shows "w \<noteq> [] \<and> 1 + unat (hd w) \<le> length w"
proof -
  obtain v where "length k < 256" "w = pval k v" using assms by (fastforce simp: nd_inv_def nd_index_ok_def)
  moreover have "length k < 256 \<Longrightarrow> unat (of_nat (length k) :: byte) = length k" by (intro unat_of_nat_small) simp
  ultimately show ?thesis by (simp add: pval_def)
qed

lemma NewDB_Get_inv:
  assumes inv: "inv_db db"
  obtains db' where "NewDB_Get RK RV k out db =
      Inr (case abs_db db k of None \<Rightarrow> (Status_NotFound [] [], out) | Some v \<Rightarrow> (Status_OK, out @ v), db')"
    "inv_db db'" "abs_db db' = abs_db db" "sequence db' = sequence db"
proof -
  have I: "kinv (keydb db)" "vinv (valuedb db)" "nd_index_ok kidx vidx db" using inv by (simp_all add: nd_inv_def)
  obtain db' where g: "NewDB_Get RK RV k out db =
      Inr (case abs_db db k of None \<Rightarrow> (Status_NotFound [] [], out) | Some v \<Rightarrow> (Status_OK, out @ v), db')"
    "kinv (keydb db')" "vinv (valuedb db')" "kidx (keydb db') = kidx (keydb db)" "vidx (valuedb db') = vidx (valuedb db)"
    "sequence db' = sequence db" "phy_keys_for_gc db' = phy_keys_for_gc db"
    by (rule NewDB_Get_ok [OF I(1,2)]) (auto dest: inv_pval [OF inv])
  have "inv_db db'" "abs_db db' = abs_db db" using nd_cong [OF g(4,5)] g(2,3,6,7) I(3) by (simp_all add: nd_inv_def)
  then show thesis using g(1,6) by (intro that)
qed

lemma NewDB_Delete_ok:
  assumes inv: "inv_db db"
  obtains db' where "NewDB_Delete RK k db = Inr (Status_OK, db')" "inv_db db'" "abs_db db' = (abs_db db)(k := None)"
    "sequence db' = sequence db" "phy_keys_for_gc db' = phy_keys_for_gc db"
proof -
  have I: "kinv (keydb db)" "vinv (valuedb db)" "nd_index_ok kidx vidx db" using inv by (simp_all add: nd_inv_def)
  obtain kr where d: "rocks_Delete RK k (keydb db) = (ROk, kr)" "kinv kr" "kidx kr = (kidx (keydb db))(k := None)"
    by (rule key.delete_index [OF I(1)])
  let ?db = "(ntick REQ_DEL db)\<lparr>keydb := kr\<rparr>"
  have "nd_index_ok kidx vidx ?db"
    using I(3) unfolding nd_index_ok_def by (auto simp: d(3) split: if_splits)
  moreover have "abs_db ?db = (abs_db db)(k := None)" by (auto simp: nd_abs_def d(3) fun_eq_iff split: option.split)
  moreover have "NewDB_Delete RK k db = Inr (Status_OK, ?db)" using d(1) by (simp add: NewDB_Delete_def Let_def)
  ultimately show thesis using I(2) d(2) by (intro that [of ?db]) (simp_all add: nd_inv_def)
qed

text \<open>Compactions remove garbage only, so they keep every value that is in use.\<close>

lemma gc_file_ok:
  assumes "vinv (run_db st)" "gc_keys_set st \<subseteq> set gc"
    and keep: "\<And>q. of_le (take 8 q) \<notin> set gc \<Longrightarrow> vidx (run_db st) q = f q"
  shows "vinv (run_db (gc_file CompactFiles gc m st))" "gc_keys_set (gc_file CompactFiles gc m st) \<subseteq> set gc"
    "of_le (take 8 q) \<notin> set gc \<Longrightarrow> vidx (run_db (gc_file CompactFiles gc m st)) q = f q"
proof -
  have sub: "set (take a (drop b gc)) \<subseteq> set gc" for a b by (meson set_drop_subset set_take_subset subset_trans)
  show "vinv (run_db (gc_file CompactFiles gc m st))" using assms(1) val.compact_law by (simp add: gc_file_def Let_def)
  show "gc_keys_set (gc_file CompactFiles gc m st) \<subseteq> set gc" using assms(2) sub by (simp add: gc_file_def Let_def)
  assume q: "of_le (take 8 q) \<notin> set gc"
  have nf: "\<not> CreateCompactionFilter True (Some (gc_keys_set st)) q"
    using q assms(2) by (auto simp: CreateCompactionFilter_def FilterV2_def)
  have "vidx (CompactFiles fs l (CreateCompactionFilter True (Some (gc_keys_set st))) (run_db st)) q = vidx (run_db st) q" for fs l
    using val.compact_law [OF assms(1), of fs l "CreateCompactionFilter True (Some (gc_keys_set st))" q] nf by blast
  then show "vidx (run_db (gc_file CompactFiles gc m st)) q = f q" using keep [OF q] by (simp add: gc_file_def Let_def)
qed

lemma gc_files_ok:
  assumes "vinv (run_db st)" "gc_keys_set st \<subseteq> set gc" "\<And>q. of_le (take 8 q) \<notin> set gc \<Longrightarrow> vidx (run_db st) q = f q"
  shows "vinv (run_db (fold (gc_file CompactFiles gc) ms st)) \<and>
    (\<forall>q. of_le (take 8 q) \<notin> set gc \<longrightarrow> vidx (run_db (fold (gc_file CompactFiles gc) ms st)) q = f q)"
  using assms
proof (induction ms arbitrary: st)
  case (Cons m ms)
  show ?case unfolding fold_simps by (rule Cons.IH) (use gc_file_ok [OF Cons.prems] in auto)
qed simp

lemma erase_ranges_sub: "erase_ranges rs xs = Inr ys \<Longrightarrow> set ys \<subseteq> set xs"
  by (induction rs xs rule: erase_ranges.induct) (auto split: if_splits dest: in_set_takeD in_set_dropD)

lemma NewDB_GC_safe:
  assumes inv: "inv_db db" and gc: "NewDB_vLogGarbageCollect CompactFiles levels db = Inr ((), db')"
  shows "inv_db db'" "abs_db db' = abs_db db" "sequence db' = sequence db"
proof -
  let ?gc = "sort (phy_keys_for_gc db)"
  have I: "kinv (keydb db)" "vinv (valuedb db)" "nd_index_ok kidx vidx db" using inv by (simp_all add: nd_inv_def)
  obtain ms phy where r: "erase_ranges (rev (deletion_keys (fold (gc_file CompactFiles ?gc) ms (gc_start (valuedb db))))) ?gc = Inr phy"
    "db' = db\<lparr>valuedb := run_db (fold (gc_file CompactFiles ?gc) ms (gc_start (valuedb db))), phy_keys_for_gc := phy\<rparr>"
    using gc by (auto simp: NewDB_vLogGarbageCollect_def NewDB_vLogGCWorker_def Let_def rbind_Inr_iff)
  let ?vr = "run_db (fold (gc_file CompactFiles ?gc) ms (gc_start (valuedb db)))"
  have V: "vinv ?vr" "\<And>q. of_le (take 8 q) \<notin> set ?gc \<Longrightarrow> vidx ?vr q = vidx (valuedb db) q"
    using gc_files_ok [of "gc_start (valuedb db)" ?gc "vidx (valuedb db)" ms] I(2) by (auto simp: gc_start_def)
  have sub: "set phy \<subseteq> set (phy_keys_for_gc db)" using erase_ranges_sub [OF r(1)] by simp
  have live: "vidx ?vr q = vidx (valuedb db) q" if "kidx (keydb db) k = Some q" for k q
  proof -
    obtain s :: u64 where s: "q = to_le 8 s" using I(3) \<open>kidx (keydb db) k = Some q\<close> unfolding nd_index_ok_def by blast
    have "s \<notin> set (phy_keys_for_gc db)" using I(3) that s unfolding nd_index_ok_def by blast
    then show ?thesis using V(2) [of q] s by simp
  qed
  have "nd_index_ok kidx vidx db'"
    using I(3) live sub unfolding nd_index_ok_def r(2) by (auto 4 3)
  then show "inv_db db'" using I(1) V(1) r(2) by (simp add: nd_inv_def)
  show "abs_db db' = abs_db db" using live by (auto simp: nd_abs_def r(2) fun_eq_iff split: option.split)
  show "sequence db' = sequence db" by (simp add: r(2))
qed

end

interpretation newdb_mem: two_dbs memdb_ops memdb_inv memdb_index memdb_ops memdb_inv memdb_index memdb_CompactFiles
  by unfold_locales

subsection \<open>Sequences of operations\<close>

datatype nd_cmd = NPut bytes bytes | NDelete bytes | NGet bytes | NCollect "(int \<times> SstFileMetaData list) list"

datatype nd_out = NStatus Status | NValue Status bytes | NDone

fun nd_step :: "'k rocks \<Rightarrow> 'v rocks \<Rightarrow> (string list \<Rightarrow> int \<Rightarrow> (bytes \<Rightarrow> bool) \<Rightarrow> 'v \<Rightarrow> 'v) \<Rightarrow> nd_cmd \<Rightarrow> (('k, 'v) newdb, nd_out) op" where
  "nd_step RK RV C (NPut k v) = sbind (NewDB_Put RK RV k v) (\<lambda>st. ret (NStatus st))"
| "nd_step RK RV C (NDelete k) = sbind (NewDB_Delete RK k) (\<lambda>st. ret (NStatus st))"
| "nd_step RK RV C (NGet k) = sbind (NewDB_Get RK RV k []) (\<lambda>(st, v). ret (NValue st v))"
| "nd_step RK RV C (NCollect levels) = sbind (NewDB_vLogGarbageCollect C levels) (\<lambda>_. ret NDone)"

fun nd_run :: "'k rocks \<Rightarrow> 'v rocks \<Rightarrow> (string list \<Rightarrow> int \<Rightarrow> (bytes \<Rightarrow> bool) \<Rightarrow> 'v \<Rightarrow> 'v) \<Rightarrow> nd_cmd list \<Rightarrow> (('k, 'v) newdb, nd_out list) op" where
  "nd_run RK RV C [] = ret []"
| "nd_run RK RV C (c # cs) = sbind (nd_step RK RV C c) (\<lambda>x. sbind (nd_run RK RV C cs) (\<lambda>xs. ret (x # xs)))"

text \<open>The specification: a map from keys to C strings, which garbage collection does not touch.\<close>

fun nd_spec :: "nd_cmd \<Rightarrow> (bytes \<Rightarrow> bytes option) \<Rightarrow> nd_out \<times> (bytes \<Rightarrow> bytes option)" where
  "nd_spec (NPut k v) m = (NStatus Status_OK, m(k \<mapsto> c_str v))"
| "nd_spec (NDelete k) m = (NStatus Status_OK, m(k := None))"
| "nd_spec (NGet k) m = (case m k of None \<Rightarrow> NValue (Status_NotFound [] []) [] | Some v \<Rightarrow> NValue Status_OK v, m)"
| "nd_spec (NCollect levels) m = (NDone, m)"

fun nd_spec_run :: "nd_cmd list \<Rightarrow> (bytes \<Rightarrow> bytes option) \<Rightarrow> nd_out list" where
  "nd_spec_run [] m = []"
| "nd_spec_run (c # cs) m = (case nd_spec c m of (x, m') \<Rightarrow> x # nd_spec_run cs m')"

fun nd_cmd_ok :: "nd_cmd \<Rightarrow> bool" where
  "nd_cmd_ok (NPut k v) = (length k < 256 \<and> 1 + length k + length v < 2 ^ 31)"
| "nd_cmd_ok (NDelete k) = True"
| "nd_cmd_ok (NGet k) = True"
| "nd_cmd_ok (NCollect levels) = levels_ok levels"

context two_dbs
begin

lemma nd_step_ok:
  assumes inv: "inv_db db" and c: "nd_cmd_ok c" and sq: "unat (sequence db) < 2 ^ 64 - 1"
  obtains db' where "nd_step RK RV CompactFiles c db = Inr (fst (nd_spec c (abs_db db)), db')" "inv_db db'"
    "abs_db db' = snd (nd_spec c (abs_db db))" "unat (sequence db') \<le> unat (sequence db) + 1"
proof (cases c)
  case (NPut k v)
  then have k: "length k < 256" "1 + length k + length v < 2 ^ 31" using c by simp_all
  obtain db' where "NewDB_Put RK RV k v db = Inr (Status_OK, db')" "inv_db db'" "abs_db db' = (abs_db db)(k \<mapsto> c_str v)"
    "unat (sequence db') = unat (sequence db) + 1"
    by (rule NewDB_Put_ok [OF inv k(1) sq k(2)])
  then show thesis using NPut by (intro that [of db']) simp_all
next
  case (NDelete k)
  obtain db' where "NewDB_Delete RK k db = Inr (Status_OK, db')" "inv_db db'" "abs_db db' = (abs_db db)(k := None)"
    "sequence db' = sequence db"
    by (rule NewDB_Delete_ok [OF inv])
  then show thesis using NDelete by (intro that [of db']) simp_all
next
  case (NGet k)
  obtain db' where "NewDB_Get RK RV k [] db =
      Inr (case abs_db db k of None \<Rightarrow> (Status_NotFound [] [], []) | Some v \<Rightarrow> (Status_OK, [] @ v), db')"
    "inv_db db'" "abs_db db' = abs_db db" "sequence db' = sequence db"
    by (rule NewDB_Get_inv [OF inv])
  then show thesis using NGet by (intro that [of db']) (auto split: option.split)
next
  case (NCollect levels)
  obtain db' where gc: "NewDB_vLogGarbageCollect CompactFiles levels db = Inr ((), db')"
    using NewDB_GC_returns [of levels CompactFiles db] c NCollect by auto
  then show thesis using NewDB_GC_safe [OF inv gc] NCollect by (intro that [of db']) simp_all
qed

lemma nd_run_ok:
  assumes "inv_db db" "list_all nd_cmd_ok cs" "unat (sequence db) + length cs < 2 ^ 64"
  shows "\<exists>db'. nd_run RK RV CompactFiles cs db = Inr (nd_spec_run cs (abs_db db), db') \<and> inv_db db'"
  using assms
proof (induction cs arbitrary: db)
  case (Cons c cs)
  have c: "nd_cmd_ok c" "unat (sequence db) < 2 ^ 64 - 1" using Cons.prems by auto
  obtain db1 where s: "nd_step RK RV CompactFiles c db = Inr (fst (nd_spec c (abs_db db)), db1)" "inv_db db1"
    "abs_db db1 = snd (nd_spec c (abs_db db))" "unat (sequence db1) \<le> unat (sequence db) + 1"
    by (rule nd_step_ok [OF Cons.prems(1) c])
  have "\<exists>db'. nd_run RK RV CompactFiles cs db1 = Inr (nd_spec_run cs (abs_db db1), db') \<and> inv_db db'"
    by (rule Cons.IH) (use s(2,4) Cons.prems in auto)
  then show ?case using s(1,3) by (auto simp: split_beta)
qed simp

lemma NewDB_new_ok:
  assumes "kinv kr" "vinv vr" "kidx kr = Map.empty"
  shows "inv_db (NewDB_new opts kr vr)" "abs_db (NewDB_new opts kr vr) = Map.empty" "sequence (NewDB_new opts kr vr) = 0"
  using assms by (simp_all add: nd_inv_def nd_index_ok_def NewDB_new_def nd_abs_def fun_eq_iff)

end


text \<open>Two files with garbage and one without: the collection compacts the first two.\<close>

definition sample_file :: "string \<Rightarrow> u64 \<Rightarrow> u64 \<Rightarrow> SstFileMetaData" where
  "sample_file n a b = \<lparr>sst_name = n, smallestkey = to_le 8 a, largestkey = to_le 8 b, being_compacted = False\<rparr>"

definition sample_levels :: "(int \<times> SstFileMetaData list) list" where
  "sample_levels = [(1, [sample_file ''a'' 0 1, sample_file ''b'' 2 5, sample_file ''c'' 6 9])]"

definition sample_cmds :: "nd_cmd list" where
  "sample_cmds = [NPut [1] [7, 8], NPut [2] [5], NPut [3] [4], NPut [1] [9, 0, 6], NPut [3] [3], NCollect sample_levels, NGet [1], NGet [2]]"

lemma sample_levels_ok: "levels_ok sample_levels"
  by (simp add: levels_ok_def sample_levels_def level_files_def sample_file_def file_ok_def key_num_def Let_def)


text \<open>
  C25: The sequence numbers start at 0 again when a store is reopened. If some key k1 still has the physical key 0, the first \<open>Put\<close>
  of another key k2 after reopening overwrites its record, and a later \<open>Get\<close> of k1 returns the value of k2.
\<close>

theorem newdb_reopen_corrupts:
  assumes "two_dbs RK kinv kidx RV vinv vidx C" and "kinv kr" and "vinv vr" and "kidx kr k1 = Some (to_le 8 (0 :: u64))"
    and "kidx kr k2 = None" and "length k2 < 256" and "1 + length k2 + length v2 < 2 ^ 31"
  shows "\<exists>db1 db2. NewDB_Put RK RV k2 v2 (NewDB_new opts kr vr) = Inr (Status_OK, db1) \<and>
    NewDB_Get RK RV k1 [] db1 = Inr ((Status_OK, c_str v2), db2)"
proof -
  note key = two_dbs.axioms(1) [OF assms(1)] and val = compacting.axioms(1) [OF two_dbs.axioms(2) [OF assms(1)]]
  let ?p = "to_le 8 (0 :: u64)" and ?db = "NewDB_new opts kr vr"
  obtain s gp kr1 where g: "(case rocks_Get RK k2 kr of (s, v, r) \<Rightarrow> gc_get_retry RK k2 0 s v r) = (s, gp, kr1)" "kinv kr1" "kidx kr1 = kidx kr" "s = RNotFound"
    by (rule rocks_map_ok.gc_get_ok [OF key assms(2), of k2]) (auto simp: assms(5) intro: that)
  obtain kr2 where kw: "write_kv RK k2 ?p kr1 = (True, kr2)" "kinv kr2" "kidx kr2 = (kidx kr1)(k2 \<mapsto> ?p)"
    by (rule rocks_map_ok.write_kv_ok [OF key g(2)])
  obtain vr1 where vw: "write_kv RV ?p (pval k2 v2) vr = (True, vr1)" "vinv vr1" "vidx vr1 = (vidx vr)(?p \<mapsto> pval k2 v2)"
    by (rule rocks_map_ok.write_kv_ok [OF val assms(3)])
  let ?db1 = "(ntick REQ_PUT ?db)\<lparr>keydb := kr2, valuedb := vr1, sequence := 1\<rparr>"
  have put: "NewDB_Put RK RV k2 v2 ?db = Inr (Status_OK, ?db1)"
    using g(1,4) kw(1) vw(1) make_pval_ok [OF assms(7)]
    by (simp add: NewDB_Put_def get_new_seq_def note_garbage_def NewDB_new_def ntick_def)
  have ne: "k1 \<noteq> k2" using assms(4,5) by auto
  have k1: "kidx (keydb ?db1) k1 = Some ?p" "vidx (valuedb ?db1) ?p = Some (pval k2 v2)" using kw(3) g(3) vw(3) assms(4) ne by simp_all
  have len: "unat (of_nat (length k2) :: byte) = length k2" using assms(6) by (intro unat_of_nat_small) simp
  have "nd_abs kidx vidx ?db1 k1 = Some (c_str v2)" using k1 pval_value_ok(1) [OF assms(6), of v2] by (simp add: nd_abs_def)
  moreover obtain db2 where "NewDB_Get RK RV k1 [] ?db1 =
      Inr (case nd_abs kidx vidx ?db1 k1 of None \<Rightarrow> (Status_NotFound [] [], []) | Some v \<Rightarrow> (Status_OK, [] @ v), db2)"
    by (rule two_dbs.NewDB_Get_ok [OF assms(1), of ?db1 k1 "[]"]) (use kw(2) vw(2) k1 len in \<open>auto simp: pval_def\<close>)
  ultimately show ?thesis using put by auto
qed

theorem newdb_reopen_corrupts_witness:
  "\<exists>db0 db1 db2. NewDB_Put memdb_ops memdb_ops [1] [7] (NewDB_new (Options_new (\<lambda>_. None)) memdb_new memdb_new) = Inr (Status_OK, db0) \<and>
     (case NewDB_delete db0 of (kr, vr) \<Rightarrow>
       NewDB_Put memdb_ops memdb_ops [2] [8] (NewDB_new (Options_new (\<lambda>_. None)) kr vr) = Inr (Status_OK, db1) \<and>
       NewDB_Get memdb_ops memdb_ops [1] [] db1 = Inr ((Status_OK, [8]), db2))"
proof -
  let ?o = "Options_new (\<lambda>_. None)"
  let ?kr = "snd (write_one MValue [1] (to_le 8 (0 :: u64)) memdb_new)" and ?vr = "snd (write_one MValue (to_le 8 (0 :: u64)) (pval [1] [7]) memdb_new)"
  have w: "rocks_Put memdb_ops k v memdb_new = (ROk, snd (write_one MValue k v memdb_new))" for k v
    by (simp add: memdb_ops_def write_one_def Let_def)
  have g: "rocks_Get memdb_ops [1] memdb_new = (RNotFound, [], memdb_new)" by (simp add: memdb_ops_def mem_GetImpl_ok)
  have gr: "gc_get_retry memdb_ops [1] c RNotFound [] memdb_new = (RNotFound, [], memdb_new)" for c
    by (induction "4 - c" arbitrary: c) (auto simp: g gc_get_retry.simps [of memdb_ops "[1]"])
  obtain db0 where p0: "NewDB_Put memdb_ops memdb_ops [1] [7] (NewDB_new ?o memdb_new memdb_new) = Inr (Status_OK, db0)"
    "keydb db0 = ?kr" "valuedb db0 = ?vr"
    using g gr [of 0] w make_pval_ok [of "[1]" "[7]"]
    by (simp add: NewDB_Put_def get_new_seq_def note_garbage_def NewDB_new_def ntick_def write_kv_def write_retry.simps Let_def)
  have "memdb_inv ?kr" "memdb_inv ?vr" by (intro write_inv memdb_new_ok)+
  moreover have "memdb_index ?kr = Map.empty([1] \<mapsto> to_le 8 (0 :: u64))"
    using write_one_ok(3) [OF memdb_new_ok(1) prod.collapse [symmetric], of MValue "[1]"] by simp
  ultimately have "\<exists>db1 db2. NewDB_Put memdb_ops memdb_ops [2] [8] (NewDB_new ?o ?kr ?vr) = Inr (Status_OK, db1) \<and>
      NewDB_Get memdb_ops memdb_ops [1] [] db1 = Inr ((Status_OK, c_str [8]), db2)"
    by (intro newdb_reopen_corrupts [OF newdb_mem.two_dbs_axioms]) simp_all
  then show ?thesis using p0 by (auto simp: NewDB_delete_def c_str_def)
qed



end
