(* ===== verification/ThreadPool.thy ===== *)
theory ThreadPool
  imports Prelude "HOL-Library.Multiset"
begin

text \<open>
  The thread pool of src/threadpool.c (and its copy src/newdb/threadpool.c). The task queue is a
  ring buffer; \<open>threadpool_create\<close>, \<open>threadpool_add\<close>, \<open>threadpool_destroy\<close> and \<open>threadpool_free\<close> are functions
  on the pool whose pthread calls end as their boolean arguments say; what a worker does under the
  lock is \<open>thread_section\<close>. A step relation interleaves the clients and the workers. The counters
  are non-negative \<open>int\<close>s of at most 65536 + 1 and stand as \<open>nat\<close>.

  \<open>locked\<close> says that the mutex is held by a thread that never gives it back: a later call hangs.
\<close>

definition MAX_THREADS :: int where "MAX_THREADS = 128"
definition MAX_QUEUE :: int where "MAX_QUEUE = 65536"

definition threadpool_invalid :: int where "threadpool_invalid = -1"
definition threadpool_lock_failure :: int where "threadpool_lock_failure = -2"
definition threadpool_queue_full :: int where "threadpool_queue_full = -3"
definition threadpool_shutdown :: int where "threadpool_shutdown = -4"
definition threadpool_thread_failure :: int where "threadpool_thread_failure = -5"

lemmas threadpool_errors = threadpool_invalid_def threadpool_lock_failure_def threadpool_queue_full_def
  threadpool_shutdown_def threadpool_thread_failure_def

datatype threadpool_shutdown_t = no_shutdown | immediate_shutdown | graceful_shutdown

text \<open>The pool. A cell of the queue that was never written is None.\<close>

record 'a threadpool =
  queue :: "'a option list"
  thread_count :: nat
  queue_size :: nat
  qhead :: nat
  qtail :: nat
  qcount :: nat
  shutdown :: threadpool_shutdown_t
  started :: nat
  locked :: bool

subsection \<open>Operations\<close>

definition pool_init :: "nat \<Rightarrow> 'a threadpool" where
  "pool_init qs = \<lparr>queue = replicate qs None, thread_count = 0, queue_size = qs, qhead = 0, qtail = 0, qcount = 0,
     shutdown = no_shutdown, started = 0, locked = False\<rparr>"

definition flag_graceful :: "int \<Rightarrow> bool" where
  "flag_graceful flags \<longleftrightarrow> odd flags"

text \<open>What \<open>threadpool_free\<close> returns; with 0 the pool is gone.\<close>

definition threadpool_free :: "'a threadpool option \<Rightarrow> int \<times> 'a threadpool option" where
  "threadpool_free pool =
     (case pool of None \<Rightarrow> (-1, None) | Some p \<Rightarrow> if started p > 0 then (-1, Some p) else (0, None))"

text \<open>
  The loop that starts the threads: the i-th result says whether the i-th \<open>pthread_create\<close> succeeds.
  On a failure the pool is destroyed and NULL is returned.
\<close>

fun start_threads :: "bool list \<Rightarrow> 'a threadpool \<Rightarrow> 'a threadpool option" where
  "start_threads [] p = Some p"
| "start_threads (ok # oks) p =
     (if ok then start_threads oks (p\<lparr>thread_count := thread_count p + 1, started := started p + 1\<rparr>) else None)"

definition threadpool_create :: "bool \<Rightarrow> bool \<Rightarrow> (nat \<Rightarrow> bool) \<Rightarrow> int \<Rightarrow> int \<Rightarrow> 'a threadpool option" where
  "threadpool_create malloc_ok init_ok create_ok thread_cnt qsize =
     (if thread_cnt \<le> 0 \<or> thread_cnt > MAX_THREADS \<or> qsize \<le> 0 \<or> qsize > MAX_QUEUE then None
      else if \<not> malloc_ok then None
      else if \<not> init_ok then None
      else start_threads (map create_ok [0..<nat thread_cnt]) (pool_init (nat qsize)))"

text \<open>Adding at the tail of the ring and taking from its head.\<close>

definition ring_add :: "'a \<Rightarrow> 'a threadpool \<Rightarrow> 'a threadpool option" where
  "ring_add t p =
     (if qcount p = queue_size p then None
      else Some (p\<lparr>queue := (queue p)[qtail p := Some t], qtail := (qtail p + 1) mod queue_size p, qcount := qcount p + 1\<rparr>))"

definition ring_take :: "'a threadpool \<Rightarrow> ('a \<times> 'a threadpool) option" where
  "ring_take p =
     (case queue p ! qhead p of
        None \<Rightarrow> None
      | Some t \<Rightarrow> if qcount p = 0 then None
          else Some (t, p\<lparr>qhead := (qhead p + 1) mod queue_size p, qcount := qcount p - 1\<rparr>))"

definition threadpool_add :: "bool \<Rightarrow> bool \<Rightarrow> bool \<Rightarrow> 'a option \<Rightarrow> 'a threadpool option \<Rightarrow> (int \<times> 'a threadpool option) res" where
  "threadpool_add lock_ok signal_ok unlock_ok function_arg pool =
     (case pool of
        None \<Rightarrow> Inr (threadpool_invalid, pool)
      | Some p \<Rightarrow>
          (case function_arg of
             None \<Rightarrow> Inr (threadpool_invalid, pool)
           | Some t \<Rightarrow>
               if \<not> lock_ok then Inr (threadpool_lock_failure, pool)
               else if locked p then Inl Hang
               else
                 let (err, p') =
                   (case ring_add t p of
                      None \<Rightarrow> (threadpool_queue_full, p)
                    | Some p' \<Rightarrow> if shutdown p \<noteq> no_shutdown then (threadpool_shutdown, p)
                        else if \<not> signal_ok then (threadpool_lock_failure, p') else (0, p'))
                 in if unlock_ok then Inr (err, Some p')
                    else Inr (threadpool_lock_failure, Some (p'\<lparr>locked := True\<rparr>))))"

text \<open>
  \<open>threadpool_destroy\<close> up to the joins: the flag is set and the workers are woken up. Joining is waiting
  until the workers have ended; the pool is freed when no error occurred. On the path where the pool is already shutting down
  the mutex is not unlocked.
\<close>

definition destroy_begin :: "bool \<Rightarrow> bool \<Rightarrow> bool \<Rightarrow> int \<Rightarrow> 'a threadpool option \<Rightarrow> (int \<times> 'a threadpool option) res" where
  "destroy_begin lock_ok broadcast_ok unlock_ok flags pool =
     (case pool of
        None \<Rightarrow> Inr (threadpool_invalid, pool)
      | Some p \<Rightarrow>
          if \<not> lock_ok then Inr (threadpool_lock_failure, pool)
          else if locked p then Inl Hang
          else if shutdown p \<noteq> no_shutdown then Inr (threadpool_shutdown, Some (p\<lparr>locked := True\<rparr>))
          else
            let p' = p\<lparr>shutdown := if flag_graceful flags then graceful_shutdown else immediate_shutdown\<rparr>
            in if \<not> broadcast_ok \<or> \<not> unlock_ok then Inr (threadpool_lock_failure, Some (p'\<lparr>locked := True\<rparr>))
               else Inr (0, Some p'))"

definition destroy_end :: "bool list \<Rightarrow> 'a threadpool \<Rightarrow> int \<times> 'a threadpool option" where
  "destroy_end join_ok p =
     (if \<not> list_all id join_ok then (threadpool_thread_failure, Some p) else (0, snd (threadpool_free (Some p))))"

text \<open>
  The part of the loop of \<open>threadpool_thread\<close> under the lock: wait again, leave the loop, or take a task.
\<close>

datatype 'a section_result = Wait | Leave "'a threadpool" | Work 'a "'a threadpool"

definition thread_section :: "'a threadpool \<Rightarrow> 'a section_result res" where
  "thread_section p =
     (if locked p then Inl Hang
      else if qcount p = 0 \<and> shutdown p = no_shutdown then Inr Wait
      else if shutdown p = immediate_shutdown \<or> (shutdown p = graceful_shutdown \<and> qcount p = 0) then
        Inr (Leave (p\<lparr>started := started p - 1\<rparr>))
      else
        (case ring_take p of None \<Rightarrow> Inl Over_Read | Some (t, p') \<Rightarrow> Inr (Work t p')))"

subsection \<open>The ring is a bounded first-in first-out queue\<close>

locale bounded_fifo =
  fixes enq :: "'a \<Rightarrow> 'q \<Rightarrow> 'q option"
    and deq :: "'q \<Rightarrow> ('a \<times> 'q) option"
    and invar :: "'q \<Rightarrow> bool"
    and items :: "'q \<Rightarrow> 'a list"
    and capacity :: "'q \<Rightarrow> nat"
  assumes enq_full: "invar q \<Longrightarrow> enq x q = None \<longleftrightarrow> length (items q) = capacity q"
    and enq_some: "invar q \<Longrightarrow> enq x q = Some q' \<Longrightarrow> invar q' \<and> items q' = items q @ [x] \<and> capacity q' = capacity q"
    and deq_none: "invar q \<Longrightarrow> deq q = None \<longleftrightarrow> items q = []"
    and deq_some: "invar q \<Longrightarrow> deq q = Some (x, q') \<Longrightarrow> invar q' \<and> items q = x # items q' \<and> capacity q' = capacity q"
    and within: "invar q \<Longrightarrow> length (items q) \<le> capacity q"
begin

text \<open>A client that adds the elements given as Some and takes one at each None.\<close>

fun client :: "'a option list \<Rightarrow> 'q \<Rightarrow> 'a list \<times> 'a list \<times> 'q" where
  "client [] q = ([], [], q)"
| "client (Some x # xs) q =
     (case enq x q of
        None \<Rightarrow> client xs q
      | Some q' \<Rightarrow> (case client xs q' of (ins, outs, r) \<Rightarrow> (x # ins, outs, r)))"
| "client (None # xs) q =
     (case deq q of
        None \<Rightarrow> client xs q
      | Some (x, q') \<Rightarrow> (case client xs q' of (ins, outs, r) \<Rightarrow> (ins, x # outs, r)))"

lemma client_fifo:
  assumes "invar q" "client xs q = (ins, outs, r)"
  shows "invar r \<and> items q @ ins = outs @ items r \<and> capacity r = capacity q"
  using assms
proof (induction xs q arbitrary: ins outs rule: client.induct)
  case (2 x xs q)
  show ?case
  proof (cases "enq x q")
    case None
    then show ?thesis using 2 by simp
  next
    case (Some q')
    obtain ins' outs' r' where c: "client xs q' = (ins', outs', r')" by (cases "client xs q'") auto
    note q' = enq_some [OF 2(3) Some]
    then have "invar r' \<and> items q' @ ins' = outs' @ items r' \<and> capacity r' = capacity q'"
      using 2(2) [OF Some, of ins' outs'] 2(4) c Some by auto
    then show ?thesis using q' 2(4) c Some by auto
  qed
next
  case (3 xs q)
  show ?case
  proof (cases "deq q")
    case None
    then show ?thesis using 3 by simp
  next
    case (Some y)
    then obtain x q' where y: "deq q = Some (x, q')" by (cases y) auto
    obtain ins' outs' r' where c: "client xs q' = (ins', outs', r')" by (cases "client xs q'") auto
    then show ?thesis using 3 y deq_some [of q x q'] by auto
  qed
qed simp

end

definition pool_inv :: "'a threadpool \<Rightarrow> bool" where
  "pool_inv p \<longleftrightarrow> 0 < queue_size p \<and> length (queue p) = queue_size p \<and> qcount p \<le> queue_size p \<and>
     qhead p < queue_size p \<and> qtail p = (qhead p + qcount p) mod queue_size p \<and>
     (\<forall>i < qcount p. queue p ! ((qhead p + i) mod queue_size p) \<noteq> None)"

definition pool_tasks :: "'a threadpool \<Rightarrow> 'a list" where
  "pool_tasks p = map (\<lambda>i. the (queue p ! ((qhead p + i) mod queue_size p))) [0..<qcount p]"

lemma length_pool_tasks [simp]: "length (pool_tasks p) = qcount p"
  by (simp add: pool_tasks_def)

lemma pool_init_ok: "0 < n \<Longrightarrow> pool_inv (pool_init n)" "pool_tasks (pool_init n) = []"
  by (simp_all add: pool_inv_def pool_tasks_def pool_init_def)

text \<open>The cell at the tail is none of the cells in use.\<close>

lemma tail_cell_free:
  assumes "i < c" "c < (n :: nat)" "h < n"
  shows "(h + c) mod n \<noteq> (h + i) mod n"
proof
  assume "(h + c) mod n = (h + i) mod n"
  moreover have "i \<le> c" using assms(1) by simp
  ultimately have "n dvd (h + c) - (h + i)" by (simp add: mod_eq_dvd_iff_nat)
  then show False using assms by (auto dest: dvd_imp_le)
qed

lemma ring_add_ok:
  assumes inv: "pool_inv p" and r: "ring_add t p = Some p'"
  shows "pool_inv p'" "pool_tasks p' = pool_tasks p @ [t]"
proof -
  let ?n = "queue_size p"
  have c: "qcount p < ?n" and p': "p' = p\<lparr>queue := (queue p)[qtail p := Some t], qtail := (qtail p + 1) mod ?n, qcount := qcount p + 1\<rparr>"
    using inv r by (auto simp: ring_add_def pool_inv_def split: if_splits)
  have tl: "qtail p = (qhead p + qcount p) mod ?n" "qtail p < length (queue p)" "qhead p < ?n" "0 < ?n"
    using inv by (simp_all add: pool_inv_def)
  have old: "queue p' ! ((qhead p + i) mod ?n) = queue p ! ((qhead p + i) mod ?n)" if "i < qcount p" for i
    using tail_cell_free [OF that c tl(3)] by (simp add: p' tl(1))
  have new: "queue p' ! ((qhead p + qcount p) mod ?n) = Some t"
    using tl by (simp add: p')
  have cells: "\<forall>i < qcount p'. queue p' ! ((qhead p' + i) mod queue_size p') \<noteq> None"
  proof (intro allI impI)
    fix i assume "i < qcount p'"
    then consider "i < qcount p" | "i = qcount p" unfolding p' by (auto simp: less_Suc_eq)
    then show "queue p' ! ((qhead p' + i) mod queue_size p') \<noteq> None"
      using inv old new by cases (auto simp: p' pool_inv_def)
  qed
  show "pool_inv p'"
    using inv cells c by (simp add: pool_inv_def p' mod_Suc_eq)
  show "pool_tasks p' = pool_tasks p @ [t]"
  proof -
    have "qcount p' = Suc (qcount p)" "qhead p' = qhead p" "queue_size p' = ?n" by (simp_all add: p')
    then show ?thesis using old new by (simp add: pool_tasks_def)
  qed
qed

lemma ring_take_ok:
  assumes inv: "pool_inv p" and r: "ring_take p = Some (t, p')"
  shows "pool_inv p'" "pool_tasks p = t # pool_tasks p'"
proof -
  let ?n = "queue_size p"
  have c: "0 < qcount p" "queue p ! qhead p = Some t"
    and p': "p' = p\<lparr>qhead := (qhead p + 1) mod ?n, qcount := qcount p - 1\<rparr>"
    using r by (auto simp: ring_take_def split: option.splits if_splits)
  have h: "((qhead p + 1) mod ?n + i) mod ?n = (qhead p + Suc i) mod ?n" for i
    by (simp add: mod_add_left_eq)
  have hd: "qhead p mod ?n = qhead p" using inv by (simp add: pool_inv_def)
  show "pool_inv p'"
    unfolding pool_inv_def
  proof (intro conjI allI impI)
    have "qhead p + qcount p = qhead p + Suc (qcount p - 1)" using c(1) by simp
    then show "qtail p' = (qhead p' + qcount p') mod queue_size p'"
      using inv h [of "qcount p - 1"] by (simp add: pool_inv_def p')
    show "queue p' ! ((qhead p' + i) mod queue_size p') \<noteq> None" if "i < qcount p'" for i
    proof -
      have "Suc i < qcount p" using that by (simp add: p')
      then have "queue p ! ((qhead p + Suc i) mod ?n) \<noteq> None" using inv unfolding pool_inv_def by blast
      then show ?thesis unfolding p' using h [of i] by simp
    qed
  qed (use inv c(1) in \<open>auto simp: pool_inv_def p'\<close>)
  have "[0..<qcount p] = 0 # map Suc [0..<qcount p - 1]"
    using c(1) by (simp add: map_Suc_upt upt_conv_Cons)
  then have "pool_tasks p = the (queue p ! (qhead p mod ?n)) #
      map (\<lambda>i. the (queue p ! ((qhead p + Suc i) mod ?n))) [0..<qcount p - 1]"
    by (simp add: pool_tasks_def comp_def)
  then show "pool_tasks p = t # pool_tasks p'"
    using c(2) hd h by (simp add: pool_tasks_def p')
qed

lemma ring_take_none: "pool_inv p \<Longrightarrow> ring_take p = None \<longleftrightarrow> pool_tasks p = []"
proof -
  assume inv: "pool_inv p"
  have "queue p ! qhead p \<noteq> None" if "0 < qcount p"
    using inv that unfolding pool_inv_def by (metis add.right_neutral mod_less)
  then show ?thesis by (cases "qcount p = 0") (auto simp: ring_take_def pool_tasks_def split: option.splits)
qed

interpretation ring: bounded_fifo ring_add ring_take pool_inv pool_tasks queue_size
proof
  show "ring_add x q = None \<longleftrightarrow> length (pool_tasks q) = queue_size q" if "pool_inv q" for x :: 'a and q
    by (simp add: ring_add_def)
  show "pool_inv q' \<and> pool_tasks q' = pool_tasks q @ [x] \<and> queue_size q' = queue_size q"
    if "pool_inv q" "ring_add x q = Some q'" for x :: 'a and q q'
    using ring_add_ok [OF that] that(2) by (auto simp: ring_add_def split: if_splits)
  show "ring_take q = None \<longleftrightarrow> pool_tasks q = []" if "pool_inv q" for q :: "'a threadpool"
    by (rule ring_take_none [OF that])
  show "pool_inv q' \<and> pool_tasks q = x # pool_tasks q' \<and> queue_size q' = queue_size q"
    if "pool_inv q" "ring_take q = Some (x, q')" for x :: 'a and q q'
    using ring_take_ok [OF that] that(2) by (auto simp: ring_take_def split: option.splits if_splits)
  show "length (pool_tasks q) \<le> queue_size q" if "pool_inv q" for q :: "'a threadpool"
    using that by (simp add: pool_inv_def)
qed

subsection \<open>Clients and workers interleaved\<close>

text \<open>
  A worker is ready to enter its locked section, runs a task, or has ended. A client is
  \<open>async_pread\<close> of src/db_iter.cc: it takes a unit of the semaphore and adds a task, which the worker gives back
  with \<open>sem_post\<close>. \<open>accepted\<close>, \<open>begun\<close> and \<open>finished\<close> record the tasks in the order of these events.
\<close>

datatype 'a wstate = Ready | Running 'a | Ended

record 'a tp_sys =
  pool :: "'a threadpool"
  workers :: "'a wstate list"
  sem :: nat
  accepted :: "'a list"
  begun :: "'a list"
  finished :: "'a list"

inductive work_step :: "'a tp_sys \<Rightarrow> 'a tp_sys \<Rightarrow> bool" where
  Take: "i < length (workers s) \<Longrightarrow> workers s ! i = Ready \<Longrightarrow> thread_section (pool s) = Inr (Work t p') \<Longrightarrow>
    work_step s (s\<lparr>pool := p', workers := (workers s)[i := Running t], begun := begun s @ [t]\<rparr>)"
| Done: "i < length (workers s) \<Longrightarrow> workers s ! i = Running t \<Longrightarrow>
    work_step s (s\<lparr>workers := (workers s)[i := Ready], sem := sem s + 1, finished := finished s @ [t]\<rparr>)"
| Exit: "i < length (workers s) \<Longrightarrow> workers s ! i = Ready \<Longrightarrow> thread_section (pool s) = Inr (Leave p') \<Longrightarrow>
    work_step s (s\<lparr>pool := p', workers := (workers s)[i := Ended]\<rparr>)"

inductive tp_step :: "'a tp_sys \<Rightarrow> 'a tp_sys \<Rightarrow> bool" where
  Submit: "0 < sem s \<Longrightarrow> threadpool_add True True True (Some t) (Some (pool s)) = Inr (0, Some p') \<Longrightarrow>
    tp_step s (s\<lparr>pool := p', sem := sem s - 1, accepted := accepted s @ [t]\<rparr>)"
| Shutdown: "destroy_begin True True True flags (Some (pool s)) = Inr (0, Some p') \<Longrightarrow> tp_step s (s\<lparr>pool := p'\<rparr>)"
| Worker: "work_step s s' \<Longrightarrow> tp_step s s'"

inductive_cases tp_stepE: "tp_step s s'"
inductive_cases work_stepE: "work_step s s'"

definition tp_start :: "nat \<Rightarrow> 'a threadpool \<Rightarrow> 'a tp_sys" where
  "tp_start threads p = \<lparr>pool = p, workers = replicate threads Ready, sem = queue_size p - 1, accepted = [], begun = [], finished = []\<rparr>"

inductive tp_reach :: "nat \<Rightarrow> 'a threadpool \<Rightarrow> 'a tp_sys \<Rightarrow> bool" for threads p where
  Start: "tp_reach threads p (tp_start threads p)"
| Step: "tp_reach threads p s \<Longrightarrow> tp_step s s' \<Longrightarrow> tp_reach threads p s'"

text \<open>The tasks that run now, and how much work is left.\<close>

definition running :: "'a wstate list \<Rightarrow> 'a multiset" where
  "running ws = (\<Sum>w \<in># mset ws. case w of Running t \<Rightarrow> {#t#} | _ \<Rightarrow> {#})"

definition live :: "'a wstate list \<Rightarrow> nat" where
  "live ws = length (filter (\<lambda>w. w \<noteq> Ended) ws)"

definition work_left :: "'a tp_sys \<Rightarrow> nat" where
  "work_left s = 3 * qcount (pool s) + size (running (workers s)) + live (workers s)"

lemma mset_upd: "i < length ws \<Longrightarrow> mset (ws[i := w]) = add_mset w (mset ws - {#ws ! i#})"
  by (simp add: mset_update)

lemma worker_upd:
  assumes i: "i < length ws"
  shows "running (ws[i := w]) + (case ws ! i of Running t \<Rightarrow> {#t#} | _ \<Rightarrow> {#}) =
      running ws + (case w of Running t \<Rightarrow> {#t#} | _ \<Rightarrow> {#})"
    "live (ws[i := w]) + (if ws ! i = Ended then 0 else 1) = live ws + (if w = Ended then 0 else 1)"
proof -
  have ws: "mset ws = add_mset (ws ! i) (mset ws - {#ws ! i#})" using i by simp
  let ?f = "\<lambda>w. case w of Running t \<Rightarrow> {#t#} | _ \<Rightarrow> ({#} :: 'a multiset)"
  have "running (ws[i := w]) = ?f w + (\<Sum>w \<in># mset ws - {#ws ! i#}. ?f w)"
    unfolding running_def mset_upd [OF i] by simp
  moreover have "running ws = ?f (ws ! i) + (\<Sum>w \<in># mset ws - {#ws ! i#}. ?f w)"
    unfolding running_def by (subst ws) simp
  ultimately show "running (ws[i := w]) + ?f (ws ! i) = running ws + ?f w" by (simp add: ac_simps)
  have l: "live xs = size (filter_mset (\<lambda>w. w \<noteq> Ended) (mset xs))" for xs :: "'a wstate list"
    by (simp add: live_def flip: mset_filter)
  have "live (ws[i := w]) = (if w = Ended then 0 else 1) + size (filter_mset (\<lambda>w. w \<noteq> Ended) (mset ws - {#ws ! i#}))"
    unfolding l mset_upd [OF i] by simp
  moreover have "live ws = (if ws ! i = Ended then 0 else 1) + size (filter_mset (\<lambda>w. w \<noteq> Ended) (mset ws - {#ws ! i#}))"
    unfolding l by (subst ws) simp
  ultimately show "live (ws[i := w]) + (if ws ! i = Ended then 0 else 1) = live ws + (if w = Ended then 0 else 1)" by simp
qed

definition tp_inv :: "nat \<Rightarrow> 'a tp_sys \<Rightarrow> bool" where
  "tp_inv depth s \<longleftrightarrow> pool_inv (pool s) \<and> \<not> locked (pool s) \<and> queue_size (pool s) = depth \<and>
     sem s + qcount (pool s) + size (running (workers s)) = depth - 1 \<and>
     accepted s = begun s @ pool_tasks (pool s) \<and> mset (begun s) = mset (finished s) + running (workers s) \<and>
     started (pool s) = live (workers s) \<and>
     (Ended \<in> set (workers s) \<longrightarrow> shutdown (pool s) \<noteq> no_shutdown \<and>
       (shutdown (pool s) = graceful_shutdown \<longrightarrow> qcount (pool s) = 0))"

lemma add_accepts:
  assumes "threadpool_add True True True (Some t) (Some p) = Inr (0, Some p')"
  shows "ring_add t p = Some p'" "shutdown p = no_shutdown"
  using assms by (auto simp: threadpool_add_def threadpool_errors split: option.splits if_splits)

lemma ring_add_frame: "ring_add t p = Some p' \<Longrightarrow>
    started p' = started p \<and> shutdown p' = shutdown p \<and> locked p' = locked p \<and> qcount p' = qcount p + 1"
  by (auto simp: ring_add_def split: if_splits)

lemma ring_take_frame: "ring_take p = Some (t, p') \<Longrightarrow>
    started p' = started p \<and> shutdown p' = shutdown p \<and> locked p' = locked p \<and> qcount p' + 1 = qcount p"
  by (auto simp: ring_take_def split: option.splits if_splits)

lemma section_work: "thread_section p = Inr (Work t p') \<Longrightarrow> ring_take p = Some (t, p') \<and> shutdown p \<noteq> immediate_shutdown"
  by (auto simp: thread_section_def split: if_splits option.splits)

lemma section_leave: "thread_section p = Inr (Leave p') \<Longrightarrow>
    p' = p\<lparr>started := started p - 1\<rparr> \<and> shutdown p \<noteq> no_shutdown \<and> (shutdown p = graceful_shutdown \<longrightarrow> qcount p = 0)"
  by (auto simp: thread_section_def split: if_splits option.splits)

lemma pool_inv_more [simp]:
  "pool_inv (p\<lparr>started := n\<rparr>) = pool_inv p" "pool_tasks (p\<lparr>started := n\<rparr>) = pool_tasks p"
  "pool_inv (p\<lparr>shutdown := f\<rparr>) = pool_inv p" "pool_tasks (p\<lparr>shutdown := f\<rparr>) = pool_tasks p"
  by (simp_all add: pool_inv_def pool_tasks_def)

lemma work_step_inv:
  assumes "work_step s s'" "tp_inv depth s"
  shows "tp_inv depth s'"
  using assms(1)
proof cases
  case (Take i t p')
  note r = section_work [OF Take(4), THEN conjunct1]
  have inv: "pool_inv (pool s)" using assms(2) by (simp add: tp_inv_def)
  note law = ring.deq_some [OF inv r] and fr = ring_take_frame [OF r]
  note up = worker_upd [OF Take(2), of "Running t"]
  have e: "Ended \<in> set ((workers s)[i := Running t]) \<Longrightarrow> Ended \<in> set (workers s)"
    using set_update_subset_insert [of "workers s" i "Running t"] by auto
  show ?thesis
    using assms(2) law fr up e Take(1,3) by (auto simp: tp_inv_def)
next
  case (Done i t)
  note up = worker_upd [OF Done(2), of Ready]
  have e: "Ended \<in> set ((workers s)[i := Ready]) \<Longrightarrow> Ended \<in> set (workers s)"
    using set_update_subset_insert [of "workers s" i Ready] by auto
  have "running (workers s) = add_mset t (running ((workers s)[i := Ready]))" using up(1) Done(3) by simp
  then show ?thesis
    using assms(2) up(2) e Done(1,3) by (auto simp: tp_inv_def)
next
  case (Exit i p')
  note l = section_leave [OF Exit(4)]
  note up = worker_upd [OF Exit(2), of Ended]
  show ?thesis
    using assms(2) l up Exit(1,3) by (auto simp: tp_inv_def)
qed

lemma tp_step_inv:
  assumes "tp_step s s'" "tp_inv depth s"
  shows "tp_inv depth s'"
  using assms(1)
proof cases
  case (Submit t p')
  have inv: "pool_inv (pool s)" using assms(2) by (simp add: tp_inv_def)
  note a = add_accepts [OF Submit(3)]
  note law = ring.enq_some [OF inv a(1)] and fr = ring_add_frame [OF a(1)]
  show ?thesis
    using assms(2) law fr a(2) Submit(1,2) by (auto simp: tp_inv_def)
next
  case (Shutdown flags p')
  have "p' = (pool s)\<lparr>shutdown := shutdown p'\<rparr>" "shutdown (pool s) = no_shutdown" "shutdown p' \<noteq> no_shutdown"
    using Shutdown(2) by (auto simp: destroy_begin_def threadpool_errors Let_def split: if_splits)
  then obtain f where "p' = (pool s)\<lparr>shutdown := f\<rparr>" "shutdown (pool s) = no_shutdown" "f \<noteq> no_shutdown" by blast
  then show ?thesis
    using assms(2) Shutdown(1) by (auto simp: tp_inv_def)
next
  case Worker
  then show ?thesis using work_step_inv assms(2) by blast
qed

lemma start_threads_all:
  "start_threads (map (\<lambda>_. True) xs) p =
     Some (p\<lparr>thread_count := thread_count p + length xs, started := started p + length xs\<rparr>)"
  by (induction xs arbitrary: p) simp_all

lemma create_ok:
  assumes "0 < threads" "int threads \<le> MAX_THREADS" "0 < depth" "int depth \<le> MAX_QUEUE"
  shows "threadpool_create True True (\<lambda>_. True) (int threads) (int depth) =
    Some ((pool_init depth)\<lparr>thread_count := threads, started := threads\<rparr>)"
  using assms by (simp add: threadpool_create_def start_threads_all pool_init_def)

lemma tp_reach_inv:
  assumes "threadpool_create True True (\<lambda>_. True) (int threads) (int depth) = Some p" "tp_reach threads p s"
  shows "tp_inv depth s"
proof -
  have c: "0 < threads" "int threads \<le> MAX_THREADS" "0 < depth" "int depth \<le> MAX_QUEUE"
    using assms(1) by (auto simp: threadpool_create_def split: if_splits)
  have p: "p = (pool_init depth)\<lparr>thread_count := threads, started := threads\<rparr>"
    using create_ok [OF c, where 'a = 'a] assms(1) by simp
  from assms(2) show ?thesis
  proof induction
    case Start
    show ?case
      using pool_init_ok [of depth] c
      by (simp add: p tp_inv_def tp_start_def pool_inv_def pool_tasks_def pool_init_def running_def live_def)
  next
    case (Step s s')
    then show ?case using tp_step_inv by blast
  qed
qed

subsection \<open>Shutting down\<close>

lemma work_step_less: "work_step s s' \<Longrightarrow> work_left s' < work_left s"
proof (induction rule: work_step.induct)
  case (Take i s t p')
  have "size (running ((workers s)[i := Running t])) = size (running (workers s)) + 1"
    using arg_cong [OF worker_upd(1) [OF Take(1), of "Running t"], of size] Take(2) by simp
  then show ?case
    using worker_upd(2) [OF Take(1), of "Running t"] ring_take_frame [of "pool s" t p'] section_work [OF Take(3)] Take(2)
    by (simp add: work_left_def)
next
  case (Done i s t)
  have "size (running ((workers s)[i := Ready])) + 1 = size (running (workers s))"
    using arg_cong [OF worker_upd(1) [OF Done(1), of Ready], of size] Done(2) by simp
  then show ?case
    using worker_upd(2) [OF Done(1), of Ready] Done(2) by (simp add: work_left_def)
next
  case (Exit i s p')
  have "size (running ((workers s)[i := Ended])) = size (running (workers s))"
    using arg_cong [OF worker_upd(1) [OF Exit(1), of Ended], of size] Exit(2) by simp
  then show ?case
    using worker_upd(2) [OF Exit(1), of Ended] section_leave [OF Exit(3)] Exit(2) by (simp add: work_left_def)
qed

lemma work_steps_bound: "(work_step ^^ n) s s' \<Longrightarrow> n + work_left s' \<le> work_left s"
proof (induction n arbitrary: s')
  case (Suc n)
  then obtain mid where "(work_step ^^ n) s mid" "work_step mid s'" by auto
  then show ?case using Suc.IH work_step_less [of mid s'] by fastforce
qed simp

lemma work_step_shutdown: "work_step s s' \<Longrightarrow> shutdown (pool s') = shutdown (pool s) \<and> accepted s' = accepted s"
proof (induction rule: work_step.induct)
  case (Take i s t p')
  then show ?case using section_work [OF Take(3)] ring_take_frame [of "pool s" t p'] by simp
next
  case (Exit i s p')
  then show ?case using section_leave [OF Exit(3)] by simp
qed simp

lemma work_steps_inv:
  "(work_step ^^ n) s s' \<Longrightarrow> tp_inv depth s \<Longrightarrow>
    tp_inv depth s' \<and> shutdown (pool s') = shutdown (pool s) \<and> accepted s' = accepted s"
proof (induction n arbitrary: s')
  case (Suc n)
  then obtain mid where "(work_step ^^ n) s mid" "work_step mid s'" by auto
  then show ?case using Suc.IH Suc.prems(2) work_step_inv [of mid s' depth] work_step_shutdown [of mid s'] by simp
qed simp

text \<open>Under shutdown a worker that has not ended can always make a step.\<close>

lemma shutdown_progress:
  assumes inv: "tp_inv depth s" and sd: "shutdown (pool s) \<noteq> no_shutdown" and w: "w \<in> set (workers s)" "w \<noteq> Ended"
  shows "\<exists>s'. work_step s s'"
proof -
  obtain i where i: "i < length (workers s)" "workers s ! i = w" using w(1) by (auto simp: in_set_conv_nth)
  show ?thesis
  proof (cases w)
    case (Running t)
    then show ?thesis using work_step.Done [OF i(1)] i(2) by blast
  next
    case Ready
    have pi: "pool_inv (pool s)" "\<not> locked (pool s)" using inv by (simp_all add: tp_inv_def)
    consider p' where "thread_section (pool s) = Inr (Leave p')" | t p' where "thread_section (pool s) = Inr (Work t p')"
    proof (cases "ring_take (pool s)")
      case None
      then have "qcount (pool s) = 0" using ring.deq_none [OF pi(1)] by (simp flip: length_pool_tasks)
      then show thesis using sd pi(2) that(1) by (cases "shutdown (pool s)") (simp_all add: thread_section_def)
    next
      case (Some x)
      then obtain t p' where "ring_take (pool s) = Some (t, p')" by (cases x) simp
      then show thesis
        using sd pi(2) that ring_take_frame by (cases "shutdown (pool s)") (fastforce simp: thread_section_def)+
    qed
    then show ?thesis
      using work_step.Exit [OF i(1)] work_step.Take [OF i(1)] i(2) Ready by cases blast+
  qed (use w(2) in simp)
qed

lemma all_ended:
  assumes "tp_inv depth s" "set (workers s) \<subseteq> {Ended}" "workers s \<noteq> []"
  shows "running (workers s) = {#}" "started (pool s) = 0"
    "shutdown (pool s) = graceful_shutdown \<Longrightarrow> mset (finished s) = mset (accepted s)"
proof -
  have "running ws = {#}" if "set ws \<subseteq> {Ended}" for ws :: "'a wstate list"
    using that by (induction ws) (auto simp: running_def)
  then show r: "running (workers s) = {#}" using assms(2) by blast
  have "live ws = 0" if "set ws \<subseteq> {Ended}" for ws :: "'a wstate list"
    using that by (induction ws) (auto simp: live_def)
  then show "started (pool s) = 0" using assms(1,2) by (simp add: tp_inv_def)
  assume g: "shutdown (pool s) = graceful_shutdown"
  have "Ended \<in> set (workers s)" using assms(2,3) by (cases "workers s") auto
  then have "qcount (pool s) = 0" using assms(1) g by (simp add: tp_inv_def)
  then have "pool_tasks (pool s) = []" by (simp flip: length_0_conv)
  then show "mset (finished s) = mset (accepted s)" using assms(1) r by (simp add: tp_inv_def)
qed

lemma workers_length:
  "tp_reach threads p s \<Longrightarrow> length (workers s) = threads"
  "(work_step ^^ n) s s' \<Longrightarrow> length (workers s') = length (workers s)"
proof -
  have w: "work_step s s' \<Longrightarrow> length (workers s') = length (workers s)" for s s' :: "'a tp_sys"
    by (induction rule: work_step.induct) simp_all
  have t: "tp_step s s' \<Longrightarrow> length (workers s') = length (workers s)" for s s' :: "'a tp_sys"
    by (induction rule: tp_step.induct) (simp_all add: w)
  show "tp_reach threads p s \<Longrightarrow> length (workers s) = threads"
    by (induction rule: tp_reach.induct) (simp_all add: tp_start_def t)
  show "(work_step ^^ n) s s' \<Longrightarrow> length (workers s') = length (workers s)"
    by (induction n arbitrary: s') (auto simp: w)
qed

subsection \<open>Properties\<close>

text \<open>A pool of two threads and depth 4, and a run that adds one task and takes it.\<close>

definition sample_pool :: "nat threadpool" where
  "sample_pool = (pool_init 4)\<lparr>thread_count := 2, started := 2\<rparr>"

lemma sample_create: "threadpool_create True True (\<lambda>_. True) (int 2) (int 4) = Some sample_pool"
  unfolding sample_pool_def by (rule create_ok) (simp_all add: MAX_THREADS_def MAX_QUEUE_def)

lemma replicate_numerals: "replicate 4 x = [x, x, x, x]" "replicate 2 x = [x, x]"
  by (simp_all add: numeral_eq_Suc)

lemma sample_add:
  "threadpool_add True True True (Some 7) (Some sample_pool) =
     Inr (0, Some (sample_pool\<lparr>queue := [Some 7, None, None, None], qtail := 1, qcount := 1\<rparr>))"
  by (simp add: threadpool_add_def ring_add_def sample_pool_def pool_init_def replicate_numerals)

definition sample_added :: "nat tp_sys" where
  "sample_added = \<lparr>pool = sample_pool\<lparr>queue := [Some 7, None, None, None], qtail := 1, qcount := 1\<rparr>,
     workers = [Ready, Ready], sem = 2, accepted = [7], begun = [], finished = []\<rparr>"

definition sample_closing :: "nat tp_sys" where
  "sample_closing = sample_added\<lparr>pool := (pool sample_added)\<lparr>shutdown := graceful_shutdown\<rparr>\<rparr>"

lemma sample_reach: "tp_reach 2 sample_pool sample_added" "tp_reach 2 sample_pool sample_closing"
proof -
  have s: "tp_start 2 sample_pool = \<lparr>pool = sample_pool, workers = [Ready, Ready], sem = 3, accepted = [], begun = [], finished = []\<rparr>"
    by (simp add: tp_start_def sample_pool_def pool_init_def replicate_numerals)
  have "tp_step (tp_start 2 sample_pool) sample_added"
    using tp_step.Submit [of "tp_start 2 sample_pool" 7] sample_add by (simp add: s sample_added_def)
  then show r: "tp_reach 2 sample_pool sample_added"
    using tp_reach.Start tp_reach.Step by blast
  have "destroy_begin True True True 1 (Some (pool sample_added)) = Inr (0, Some (pool sample_closing))"
    by (simp add: destroy_begin_def flag_graceful_def sample_closing_def sample_added_def sample_pool_def pool_init_def)
  from tp_step.Shutdown [OF this] have "tp_step sample_added sample_closing"
    by (simp add: sample_closing_def)
  then show "tp_reach 2 sample_pool sample_closing" using r tp_reach.Step by blast
qed

text \<open>C19: In every interleaving of clients, workers and shutdown, the workers begin the accepted tasks in the
  order in which they were accepted, and each begun task is either finished or being run by a worker.\<close>

theorem pool_runs_in_order:
  assumes "threadpool_create True True (\<lambda>_. True) (int threads) (int depth) = Some p" and "tp_reach threads p s"
  shows "accepted s = begun s @ pool_tasks (pool s) \<and> mset (begun s) = mset (finished s) + running (workers s)"
  using tp_reach_inv [OF assms] by (simp add: tp_inv_def)

theorem pool_runs_in_order_witness:
  "tp_reach 2 sample_pool sample_added \<and> accepted sample_added = begun sample_added @ pool_tasks (pool sample_added) \<and>
     accepted sample_added = [7]"
  using pool_runs_in_order [OF sample_create sample_reach(1)] sample_reach(1) by (simp add: sample_added_def)

text \<open>C20: A client that holds a unit of the semaphore never finds the queue full: with the semaphore started at
  depth - 1, \<open>threadpool_add\<close> succeeds as long as the pool is not shutting down.\<close>

theorem semaphore_prevents_full:
  assumes "threadpool_create True True (\<lambda>_. True) (int threads) (int depth) = Some p" and "tp_reach threads p s"
    and "0 < sem s" and "shutdown (pool s) = no_shutdown"
  shows "\<exists>p'. threadpool_add True True True (Some t) (Some (pool s)) = Inr (0, Some p') \<and>
    pool_tasks p' = pool_tasks (pool s) @ [t]"
proof -
  note inv = tp_reach_inv [OF assms(1,2)]
  have pi: "pool_inv (pool s)" "\<not> locked (pool s)" "qcount (pool s) \<noteq> queue_size (pool s)"
    using inv assms(3) by (auto simp: tp_inv_def)
  then obtain p' where r: "ring_add t (pool s) = Some p'"
    using ring.enq_full [OF pi(1), of t] by (cases "ring_add t (pool s)") auto
  then show ?thesis
    using pi(2) assms(4) ring.enq_some [OF pi(1) r] by (auto simp: threadpool_add_def)
qed

theorem semaphore_prevents_full_witness:
  "\<exists>p'. threadpool_add True True True (Some 8) (Some (pool sample_added)) = Inr (0, Some p') \<and>
     pool_tasks p' = pool_tasks (pool sample_added) @ [8]"
proof -
  have "0 < sem sample_added" "shutdown (pool sample_added) = no_shutdown"
    by (simp_all add: sample_added_def sample_pool_def pool_init_def)
  from semaphore_prevents_full [OF sample_create sample_reach(1) this] show ?thesis .
qed



text \<open>C22: Destroying a pool that is already shutting down reports \<open>threadpool_shutdown\<close> but keeps the mutex: every later
  \<open>threadpool_add\<close>, \<open>threadpool_destroy\<close> and every worker hangs.\<close>

theorem second_destroy_keeps_lock:
  assumes "\<not> locked p" and "shutdown p \<noteq> no_shutdown"
  shows "\<exists>p'. destroy_begin True b u flags (Some p) = Inr (threadpool_shutdown, Some p') \<and>
    threadpool_add True b' u' (Some t) (Some p') = Inl Hang \<and> destroy_begin True b' u' flags' (Some p') = Inl Hang \<and>
    thread_section p' = Inl Hang"
  using assms by (simp add: destroy_begin_def threadpool_add_def thread_section_def)

theorem second_destroy_keeps_lock_witness:
  "\<exists>p'. destroy_begin True True True 1 (Some (pool sample_closing)) = Inr (threadpool_shutdown, Some p') \<and>
     thread_section p' = Inl Hang"
proof -
  have "\<not> locked (pool sample_closing)" "shutdown (pool sample_closing) \<noteq> no_shutdown"
    by (simp_all add: sample_closing_def sample_added_def sample_pool_def pool_init_def)
  from second_destroy_keeps_lock [OF this, of True True 1 True True 7 1] show ?thesis by blast
qed

end
