(* ===== verification/DBIterator.thy ===== *)
theory DBIterator
  imports DB ThreadPool
begin

text \<open>
  \<open>DBIterator\<close> of src/db_iter.cc. The iterator of RocksDB walks over the snapshot \<open>snap\<close> of the index
  that was taken when it was made; \<open>it_pos\<close> is what is left of it, with the current entry first. Without prefetching
  the methods work on that iterator directly. With prefetching they work on queues of \<open>prefetchDepth\<close> entries that
  are filled from it, the part in use being doubled from 1 up, and \<open>value()\<close> reads the values of a whole
  window through the thread pool.

  The main lemmas say that both ways are the same walk (\<open>at_cursor\<close>), and that a scan of a flushed store
  returns its contents in key order.
\<close>

type_synonym kvs = "(bytes \<times> bytes) list"

record iter =
  snap :: kvs
  it_pos :: kvs
  value_buf :: bytes
  valid :: bool
  prefetch_ena :: bool
  key_queue :: "bytes list"
  pkey_queue :: "bytes list"
  val_queue :: "bytes list"
  valid_queue :: "bool list"
  prefetch_depth :: nat
  queue_cur :: nat

text \<open>
  \<open>inflight\<close> is the value loaded from \<open>inflight_io_count_\<close>. \<open>new\<close> throws for a negative array size. The
  bound \<open>upper_key\<close> becomes \<open>iterate_upper_bound\<close>, which ends the iteration before the first key that is not smaller.
\<close>

definition bounded_entries :: "bytes option \<Rightarrow> kvs \<Rightarrow> kvs" where
  "bounded_entries u es = (case u of None \<Rightarrow> es | Some b \<Rightarrow> takeWhile (\<lambda>e. slice_compare (fst e) b < 0) es)"

definition make_iter :: "int \<Rightarrow> ReadOptions \<Rightarrow> Options \<Rightarrow> kvs \<Rightarrow> iter res" where
  "make_iter inflight ro opts es =
     (let ena = prefetchEnabled opts \<and> inflight < prefetchReqThres opts;
          d = prefetchDepth opts;
          n = (if ena then nat d else 0)
      in if ena \<and> d < 0 then Inl Bad_Alloc
         else Inr \<lparr>snap = bounded_entries (upper_key ro) es, it_pos = [], value_buf = [],
                   valid = False, prefetch_ena = ena, key_queue = replicate n [], pkey_queue = replicate n [],
                   val_queue = replicate n [], valid_queue = replicate n False, prefetch_depth = 1, queue_cur = 0\<rparr>)"

definition DBIterator_new :: "'r rocks \<Rightarrow> int \<Rightarrow> ReadOptions \<Rightarrow> 'r db \<Rightarrow> iter res" where
  "DBIterator_new R inflight ro db = make_iter inflight ro (options db) (rocks_entries R (rdb db))"

text \<open>Storing an entry, or the end of the iteration, in cell \<open>i\<close> of the queues.\<close>

definition put_queue :: "nat \<Rightarrow> bytes \<times> bytes \<Rightarrow> iter \<Rightarrow> iter res" where
  "put_queue i e it =
     (if i < length (key_queue it) then
        Inr (it\<lparr>key_queue := (key_queue it)[i := fst e], pkey_queue := (pkey_queue it)[i := snd e],
                valid_queue := (valid_queue it)[i := True]\<rparr>)
      else Inl Heap_Overflow)"

definition end_queue :: "nat \<Rightarrow> iter \<Rightarrow> iter res" where
  "end_queue i it =
     (if i < length (valid_queue it) then Inr (it\<lparr>valid_queue := (valid_queue it)[i := False]\<rparr>) else Inl Heap_Overflow)"

subsection \<open>Positioning\<close>

text \<open>The braces of the inner \<open>if\<close> are missing: \<open>it_->value()\<close> is also read when the iterator is at its end.\<close>

definition DBIterator_SeekToFirst :: "iter \<Rightarrow> iter res" where
  "DBIterator_SeekToFirst it =
     (let it1 = it\<lparr>it_pos := snap it\<rparr>
      in if prefetch_ena it then
           if valid_queue it = [] then Inl Heap_Overflow
           else
             let it2 = it1\<lparr>valid := (snap it \<noteq> []), valid_queue := (valid_queue it)[0 := (snap it \<noteq> [])]\<rparr>
             in (case snap it of
                   [] \<Rightarrow> Inl Null_Deref
                 | e # _ \<Rightarrow> Inr (it2\<lparr>key_queue := (key_queue it)[0 := fst e], pkey_queue := (pkey_queue it)[0 := snd e]\<rparr>))
         else Inr (it1\<lparr>valid := (snap it \<noteq> [])\<rparr>))"

text \<open>The loop of \<open>Seek\<close> from index \<open>i\<close> on, with \<open>n\<close> rounds left.\<close>

fun seek_fill :: "nat \<Rightarrow> nat \<Rightarrow> iter \<Rightarrow> iter res" where
  "seek_fill i 0 it = Inr it"
| "seek_fill i (Suc n) it =
     (case it_pos it of
        [] \<Rightarrow> seek_fill (i + 1) n it
      | _ # p \<Rightarrow>
          (case p of
             [] \<Rightarrow> end_queue i (it\<lparr>it_pos := p\<rparr>)
           | e # _ \<Rightarrow> rbind (put_queue i e (it\<lparr>it_pos := p\<rparr>)) (seek_fill (i + 1) n)))"

definition iter_seek :: "bytes \<Rightarrow> iter \<Rightarrow> iter res" where
  "iter_seek target it =
     (let p = dropWhile (\<lambda>e. slice_compare (fst e) target < 0) (snap it);
          it1 = it\<lparr>it_pos := p, valid := (p \<noteq> [])\<rparr>
      in if prefetch_ena it then
           if valid_queue it = [] then Inl Heap_Overflow
           else
             let it2 = it1\<lparr>valid_queue := (valid_queue it)[0 := (p \<noteq> [])]\<rparr>;
                 it3 = (case p of
                          [] \<Rightarrow> it2
                        | e # _ \<Rightarrow> it2\<lparr>key_queue := (key_queue it)[0 := fst e], pkey_queue := (pkey_queue it)[0 := snd e]\<rparr>)
             in seek_fill 1 (prefetch_depth it - 1) it3
         else Inr it1)"

definition DBIterator_Seek :: "bytes \<Rightarrow> iter \<Rightarrow> ('r db, iter) op" where
  "DBIterator_Seek target it =
     sbind (tick REQ_SEEK) (\<lambda>_ db. rbind (iter_seek target it) (\<lambda>it'. Inr (it', db)))"

text \<open>The loop of \<open>Next\<close> from index \<open>i\<close> on, with \<open>n\<close> rounds left. RocksDB leaves an iterator at the end there.\<close>

fun next_fill :: "nat \<Rightarrow> nat \<Rightarrow> iter \<Rightarrow> iter res" where
  "next_fill i 0 it = Inr it"
| "next_fill i (Suc n) it =
     (let p = tl (it_pos it);
          it1 = it\<lparr>it_pos := p, valid := (p \<noteq> [])\<rparr>
      in case p of
           [] \<Rightarrow> end_queue i it1
         | e # _ \<Rightarrow> rbind (put_queue i e it1) (next_fill (i + 1) n))"

definition next_window :: "int \<Rightarrow> iter \<Rightarrow> iter res" where
  "next_window depth it =
     (let d = prefetch_depth it;
          d' = (if int d < depth then if d = 0 then 1 else 2 * d else d)
      in next_fill 0 d' (it\<lparr>queue_cur := 0, prefetch_depth := d'\<rparr>))"

definition iter_next :: "int \<Rightarrow> iter \<Rightarrow> iter res" where
  "iter_next depth it =
     (if prefetch_ena it then
        rbind (if queue_cur it + 1 = prefetch_depth it then next_window depth it
               else Inr (it\<lparr>queue_cur := queue_cur it + 1\<rparr>)) (\<lambda>it1.
        if queue_cur it1 < length (valid_queue it1) then Inr (it1\<lparr>valid := valid_queue it1 ! queue_cur it1\<rparr>)
        else Inl Over_Read)
      else Inr (it\<lparr>it_pos := tl (it_pos it), valid := (tl (it_pos it) \<noteq> [])\<rparr>))"

definition DBIterator_Next :: "iter \<Rightarrow> ('r db, iter) op" where
  "DBIterator_Next it =
     sbind (tick REQ_NEXT) (\<lambda>_ db. rbind (iter_next (prefetchDepth (options db)) it) (\<lambda>it'. Inr (it', db)))"

definition DBIterator_key :: "iter \<Rightarrow> bytes res" where
  "DBIterator_key it =
     (if prefetch_ena it then
        if queue_cur it < length (key_queue it) then Inr (key_queue it ! queue_cur it) else Inl Over_Read
      else (case it_pos it of [] \<Rightarrow> Inl Null_Deref | e # _ \<Rightarrow> Inr (fst e)))"

subsection \<open>Prefetching values\<close>

text \<open>The counter that the completed reads of a window share, and its monitor.\<close>

record Prefetch_context =
  prefetch_cnt :: nat
  prefetch_num :: nat
  ready :: bool

definition on_prefetch_complete :: "Prefetch_context \<Rightarrow> Prefetch_context" where
  "on_prefetch_complete ctx =
     ctx\<lparr>prefetch_cnt := prefetch_cnt ctx + 1, ready := ready ctx \<or> prefetch_cnt ctx + 1 = prefetch_num ctx\<rparr>"

text \<open>
  \<open>io_task\<close>: the result of \<open>pread\<close> is not looked at. The pool runs the tasks of a window once each; \<open>pick\<close> chooses
  which of the remaining ones makes the next system call.
\<close>

definition io_task :: "env \<Rightarrow> nat \<Rightarrow> bytes \<Rightarrow> bytes \<Rightarrow> bytes \<Rightarrow> bytes" where
  "io_task E n file_data m buf = snd (read_log E n file_data m buf)"

lemma picked_less: "ts \<noteq> [] \<Longrightarrow> length (take (p mod length ts) ts @ drop (Suc (p mod length ts)) ts) < length ts"
  using mod_less_divisor [of "length ts" p] by (simp del: mod_less_divisor)

function run_tasks :: "env \<Rightarrow> (nat \<Rightarrow> nat) \<Rightarrow> (nat \<times> bytes \<times> bytes) list \<Rightarrow> nat \<Rightarrow> bytes list \<Rightarrow> Prefetch_context \<Rightarrow>
    nat \<times> bytes list \<times> Prefetch_context" where
  "run_tasks E pick ts n bufs ctx =
     (if ts = [] then (n, bufs, ctx)
      else
        let j = pick n mod length ts;
            (i, f, m) = ts ! j
        in run_tasks E pick (take j ts @ drop (Suc j) ts) (n + 1) (bufs[i := io_task E n f m (bufs ! i)])
             (on_prefetch_complete ctx))"
  by pat_completeness auto
termination
  by (relation "measure (\<lambda>(E, pick, ts, n, bufs, ctx). length ts)") (auto simp del: length_append intro: picked_less)

declare run_tasks.simps [simp del]

text \<open>
  \<open>async_pread\<close>: without a pool \<open>threadpool_add\<close> fails and the process exits; with a queue of depth 1 the
  semaphore starts at 0 and nobody posts it.
\<close>

definition async_pread :: "Options \<Rightarrow> unit res" where
  "async_pread opts =
     (case (threadpool_create True True (\<lambda>_. True) (threadPoolThreadsNum opts) (threadPoolQueueDepth opts) :: unit threadpool option) of
        None \<Rightarrow> Inl Exit
      | Some _ \<Rightarrow> if threadPoolQueueDepth opts = 1 then Inl Hang else Inr ())"

definition prefetch_value :: "env \<Rightarrow> (nat \<Rightarrow> nat) \<Rightarrow> Options \<Rightarrow> (bytes \<times> bytes) list \<Rightarrow> nat \<Rightarrow> (bytes list \<times> nat) res" where
  "prefetch_value E pick opts ts n =
     rbind (mapr (\<lambda>(f, m). if length m < 12 then Inl Over_Read
                           else rbind (alloc_read_buf E m) (\<lambda>buf. rbind (async_pread opts) (\<lambda>_. Inr buf))) ts) (\<lambda>bufs.
     let (n', bufs', ctx) = run_tasks E pick (zip [0..<length ts] ts) n bufs
                              \<lparr>prefetch_cnt = 0, prefetch_num = length ts, ready = False\<rparr>
     in if \<not> ready ctx then Inl Hang
        else rbind (mapr (\<lambda>(t, buf). value_in_buf (snd t) buf) (zip ts bufs')) (\<lambda>vals. Inr (vals, n')))"

text \<open>The entries of the window, up to the first invalid one: the log file and the index record.\<close>

fun collect_window :: "bytes list \<Rightarrow> nat \<Rightarrow> nat \<Rightarrow> iter \<Rightarrow> (bytes \<times> bytes) list res" where
  "collect_window files i 0 it = Inr []"
| "collect_window files i (Suc n) it =
     (if i < length (valid_queue it) then
        if valid_queue it ! i then
          rbind (collect_window files (i + 1) n it) (\<lambda>ts.
            Inr ((files ! log_of (key_queue it ! i), pkey_queue it ! i) # ts))
        else Inr []
      else Inl Over_Read)"

definition prefetch_window :: "env \<Rightarrow> (nat \<Rightarrow> nat) \<Rightarrow> iter \<Rightarrow> ('r db, iter) op" where
  "prefetch_window E pick it db =
     rbind (collect_window (map log_file (vlogs db)) 0 (prefetch_depth it) it) (\<lambda>ts.
     rbind (prefetch_value E pick (options db) ts (ios db)) (\<lambda>(vals, n).
     Inr (it\<lparr>val_queue := vals @ drop (length vals) (val_queue it)\<rparr>, db\<lparr>ios := n\<rparr>)))"

text \<open>The value of the current key read from its log, without prefetching.\<close>

definition direct_value :: "'r rocks \<Rightarrow> env \<Rightarrow> bytes \<Rightarrow> ('r db, bytes) op" where
  "direct_value R E k =
     sbind (on_rdb (\<lambda>r. case rocks_Get R k r of (s, v, r') \<Rightarrow> ((s, v), r'))) (\<lambda>(s, m) db.
     if length m < 12 then Inl Over_Read
     else rbind (alloc_read_buf E m) (\<lambda>buf.
       let (rret, buf') = read_log E (ios db) (log_file (vlogs db ! log_of k)) m buf
       in rbind (value_in_buf m buf') (\<lambda>v. Inr (v, db\<lparr>ios := ios db + 1\<rparr>))))"

definition DBIterator_value :: "'r rocks \<Rightarrow> env \<Rightarrow> (nat \<Rightarrow> nat) \<Rightarrow> iter \<Rightarrow> ('r db, bytes \<times> iter) op" where
  "DBIterator_value R E pick it =
     (if prefetch_ena it then
        sbind (if queue_cur it = 0 then prefetch_window E pick it else ret it) (\<lambda>it' db.
          if queue_cur it' < length (val_queue it') then Inr ((val_queue it' ! queue_cur it', it'), db) else Inl Over_Read)
      else (\<lambda>db.
        rbind (DBIterator_key it) (\<lambda>k.
          sbind (direct_value R E k) (\<lambda>v. ret (v, it\<lparr>value_buf := v\<rparr>)) db)))"

text \<open>The loop of a client: key and value of every entry from the current one on, in at most \<open>n\<close> rounds.\<close>

fun scan :: "'r rocks \<Rightarrow> env \<Rightarrow> (nat \<Rightarrow> nat) \<Rightarrow> nat \<Rightarrow> iter \<Rightarrow> ('r db, kvs option) op" where
  "scan R E pick 0 it = ret None"
| "scan R E pick (Suc n) it =
     (if \<not> valid it then ret (Some [])
      else (\<lambda>db. rbind (DBIterator_key it) (\<lambda>k.
        sbind (DBIterator_value R E pick it) (\<lambda>(v, it').
        sbind (DBIterator_Next it') (\<lambda>it''.
        sbind (scan R E pick n it'') (\<lambda>r. ret (map_option (Cons (k, v)) r)))) db)))"

subsection \<open>Both ways walk over the snapshot\<close>

text \<open>Cells \<open>i\<close> to \<open>i + n - 1\<close> of the queues hold the first entries of \<open>p\<close>, and an end mark if these are all.\<close>

definition queued :: "iter \<Rightarrow> nat \<Rightarrow> kvs \<Rightarrow> nat \<Rightarrow> bool" where
  "queued it i p n \<longleftrightarrow>
     (\<forall>j < n. j < length p \<longrightarrow> key_queue it ! (i + j) = fst (p ! j) \<and> pkey_queue it ! (i + j) = snd (p ! j) \<and>
        valid_queue it ! (i + j)) \<and>
     (length p < n \<longrightarrow> \<not> valid_queue it ! (i + length p))"

definition queue_lens :: "nat \<Rightarrow> iter \<Rightarrow> bool" where
  "queue_lens L it \<longleftrightarrow> length (key_queue it) = L \<and> length (pkey_queue it) = L \<and> length (val_queue it) = L \<and>
     length (valid_queue it) = L"

text \<open>What filling the queues leaves alone.\<close>

definition refilled :: "iter \<Rightarrow> nat \<Rightarrow> iter \<Rightarrow> bool" where
  "refilled it i it' \<longleftrightarrow>
     snap it' = snap it \<and> prefetch_ena it' = prefetch_ena it \<and> val_queue it' = val_queue it \<and> value_buf it' = value_buf it \<and>
     prefetch_depth it' = prefetch_depth it \<and> queue_cur it' = queue_cur it \<and>
     (\<forall>j < i. key_queue it' ! j = key_queue it ! j \<and> pkey_queue it' ! j = pkey_queue it ! j \<and>
        valid_queue it' ! j = valid_queue it ! j)"

lemma queued_Cons:
  assumes "queued it (Suc i) p n" "key_queue it ! i = fst e" "pkey_queue it ! i = snd e" "valid_queue it ! i"
  shows "queued it i (e # p) (Suc n)"
  unfolding queued_def
proof (intro conjI allI impI)
  fix j
  assume j: "j < Suc n" "j < length (e # p)"
  then show "key_queue it ! (i + j) = fst ((e # p) ! j)" "pkey_queue it ! (i + j) = snd ((e # p) ! j)" "valid_queue it ! (i + j)"
    using assms by (cases j; simp add: queued_def)+
next
  assume "length (e # p) < Suc n"
  then show "\<not> valid_queue it ! (i + length (e # p))" using assms(1) by (simp add: queued_def)
qed

lemma next_fill_ok:
  assumes "queue_lens L it" "i + n \<le> L"
  obtains it' where "next_fill i n it = Inr it'" "refilled it i it'" "queue_lens L it'" "it_pos it' = drop n (it_pos it)"
    "queued it' i (tl (it_pos it)) n"
proof -
  have "\<exists>it'. next_fill i n it = Inr it' \<and> refilled it i it' \<and> queue_lens L it' \<and> it_pos it' = drop n (it_pos it) \<and>
    queued it' i (tl (it_pos it)) n"
    using assms
  proof (induction n arbitrary: i it)
    case 0
    then show ?case by (simp add: refilled_def queued_def)
  next
    case (Suc n)
    let ?p = "tl (it_pos it)"
    have i: "i < L" using Suc.prems(2) by simp
    have drp: "drop (Suc n) (it_pos it) = drop n ?p" by (simp add: drop_Suc)
    show ?case
    proof (cases ?p)
      case Nil
      then show ?thesis
        using Suc.prems(1) i drp by (simp add: end_queue_def queue_lens_def refilled_def queued_def)
    next
      case (Cons e q)
      let ?it = "it\<lparr>it_pos := ?p, valid := True, key_queue := (key_queue it)[i := fst e], pkey_queue := (pkey_queue it)[i := snd e],
        valid_queue := (valid_queue it)[i := True]\<rparr>"
      have ql: "queue_lens L ?it" using Suc.prems(1) by (simp add: queue_lens_def)
      have "Suc i + n \<le> L" using Suc.prems(2) by simp
      from Suc.IH [OF ql this] obtain it' where it': "next_fill (Suc i) n ?it = Inr it'" "refilled ?it (Suc i) it'"
        "queue_lens L it'" "it_pos it' = drop n ?p" "queued it' (Suc i) q n"
        using Cons by auto
      have "next_fill i (Suc n) it = Inr it'"
        using Cons it'(1) i Suc.prems(1) by (simp add: put_queue_def queue_lens_def)
      moreover have "refilled it i it'" using it'(2) by (simp add: refilled_def)
      moreover have "queued it' i (e # q) (Suc n)"
        by (rule queued_Cons [OF it'(5)]) (use it'(2) i Suc.prems(1) in \<open>simp_all add: refilled_def queue_lens_def\<close>)
      ultimately show ?thesis using it'(3,4) Cons drp by auto
    qed
  qed
  then show thesis using that by blast
qed

lemma seek_fill_next:
  "it_pos it \<noteq> [] \<Longrightarrow> seek_fill i n it = rbind (next_fill i n it) (\<lambda>it'. Inr (it'\<lparr>valid := valid it\<rparr>))"
proof (induction n arbitrary: i it)
  case (Suc n)
  obtain x p where p: "it_pos it = x # p" using Suc.prems by (cases "it_pos it") auto
  show ?case
  proof (cases p)
    case Nil
    then show ?thesis using p by (simp add: end_queue_def)
  next
    case (Cons e q)
    have n: "next_fill (i + 1) n (it'\<lparr>valid := True\<rparr>) = next_fill (i + 1) n it'" if "it_pos it' = y # ys" "n \<noteq> 0" for it' y ys
      using that by (cases n) (simp_all add: Let_def)
    show ?thesis
    proof (cases "i < length (key_queue it)")
      case True
      let ?it = "it\<lparr>it_pos := p, key_queue := (key_queue it)[i := fst e], pkey_queue := (pkey_queue it)[i := snd e],
        valid_queue := (valid_queue it)[i := True]\<rparr>"
      have sn: "seek_fill (i + 1) n ?it = rbind (next_fill (i + 1) n (?it\<lparr>valid := True\<rparr>)) (\<lambda>it'. Inr (it'\<lparr>valid := valid it\<rparr>))"
      proof (cases "n = 0")
        case False
        then show ?thesis using Suc.IH [of ?it "i + 1"] n [of ?it e q] Cons by simp
      qed simp
      have eq: "?it\<lparr>valid := True\<rparr> = it\<lparr>it_pos := p, valid := True, key_queue := (key_queue it)[i := fst e],
          pkey_queue := (pkey_queue it)[i := snd e], valid_queue := (valid_queue it)[i := True]\<rparr>"
        by (rule iter.equality) simp_all
      show ?thesis using p Cons True sn [unfolded eq] by (simp add: put_queue_def)
    qed (use p Cons in \<open>simp add: put_queue_def\<close>)
  qed
qed simp

text \<open>The iterator stands before \<open>rest\<close>; the queues have \<open>L\<close> cells, a power of two times the part in use.\<close>

definition at_cursor :: "nat \<Rightarrow> iter \<Rightarrow> kvs \<Rightarrow> bool" where
  "at_cursor L it rest \<longleftrightarrow> (valid it \<longleftrightarrow> rest \<noteq> []) \<and>
     (if prefetch_ena it then
        queue_lens L it \<and> queue_cur it < prefetch_depth it \<and> (\<exists>j. prefetch_depth it * 2 ^ j = L) \<and>
        queued it (queue_cur it) rest (prefetch_depth it - queue_cur it) \<and>
        it_pos it = drop (prefetch_depth it - queue_cur it - 1) rest
      else it_pos it = rest)"

text \<open>The value an entry of the index stands for, when its log is in the file.\<close>

definition file_value :: "bytes list \<Rightarrow> bytes \<times> bytes \<Rightarrow> bytes" where
  "file_value files e = entry_value (snd e) (files ! log_of (fst e))"

text \<open>The value queue holds the values of the rest of the window; it is loaded at the start of a window.\<close>

definition loaded :: "bytes list \<Rightarrow> iter \<Rightarrow> kvs \<Rightarrow> bool" where
  "loaded files it rest \<longleftrightarrow> (\<forall>j < prefetch_depth it - queue_cur it. j < length rest \<longrightarrow>
     val_queue it ! (queue_cur it + j) = file_value files (rest ! j))"

definition primed :: "bytes list \<Rightarrow> iter \<Rightarrow> kvs \<Rightarrow> bool" where
  "primed files it rest \<longleftrightarrow> (prefetch_ena it \<longrightarrow> queue_cur it \<noteq> 0 \<longrightarrow> loaded files it rest)"

lemma next_window_ok:
  assumes at: "at_cursor L it (e # rest)" "prefetch_ena it" and c: "queue_cur it + 1 = prefetch_depth it" and L: "D = int L"
  obtains it' where "next_window D it = Inr it'" "at_cursor L (it'\<lparr>valid := valid_queue it' ! 0\<rparr>) rest"
    "queue_cur it' = 0" "snap it' = snap it" "prefetch_ena it'" "valid_queue it' \<noteq> []"
proof -
  let ?d = "prefetch_depth it"
  let ?d' = "if int ?d < D then if ?d = 0 then 1 else 2 * ?d else ?d"
  obtain j where j: "?d * 2 ^ j = L" and d0: "0 < ?d" and ql: "queue_lens L it" and pos: "it_pos it = e # rest"
    using at c by (auto simp: at_cursor_def)
  have "\<exists>j'. ?d' * 2 ^ j' = L"
  proof (cases j)
    case 0
    then show ?thesis using j L by (intro exI [of _ 0]) simp
  next
    case (Suc i)
    have "2 ^ 1 \<le> (2 :: nat) ^ j" unfolding Suc by (intro power_increasing) auto
    then have "?d * 2 \<le> L" using j by (metis mult_le_mono2 power_one_right)
    then have "?d' * 2 ^ i = L" using j Suc L d0 by (simp add: ac_simps)
    then show ?thesis by blast
  qed
  then obtain j' where j': "?d' * 2 ^ j' = L" by blast
  have d1: "0 < ?d'" using d0 by auto
  have "?d' * 1 \<le> ?d' * 2 ^ j'" by (intro mult_le_mono2) simp
  then have le: "0 + ?d' \<le> L" using j' by simp
  have ql1: "queue_lens L (it\<lparr>queue_cur := 0, prefetch_depth := ?d'\<rparr>)" using ql by (simp add: queue_lens_def)
  obtain it' where it': "next_fill 0 ?d' (it\<lparr>queue_cur := 0, prefetch_depth := ?d'\<rparr>) = Inr it'"
    "refilled (it\<lparr>queue_cur := 0, prefetch_depth := ?d'\<rparr>) 0 it'" "queue_lens L it'" "it_pos it' = drop ?d' (e # rest)"
    "queued it' 0 rest ?d'"
    by (rule next_fill_ok [OF ql1 le]) (simp add: pos)
  have v: "valid_queue it' ! 0 \<longleftrightarrow> rest \<noteq> []" using it'(5) d1 by (auto simp: queued_def)
  have f: "queue_cur it' = 0" "prefetch_depth it' = ?d'" "snap it' = snap it" "prefetch_ena it'"
    using it'(2) at(2) by (simp_all add: refilled_def)
  have "drop ?d' (e # rest) = drop (?d' - 1) rest" using d1 by (cases ?d') simp_all
  then have "at_cursor L (it'\<lparr>valid := valid_queue it' ! 0\<rparr>) rest"
    unfolding at_cursor_def using v f it'(3,4,5) d1 j' by (auto simp: queue_lens_def queued_def)
  moreover have "next_window D it = Inr it'" using it'(1) by (simp add: next_window_def Let_def)
  moreover have "valid_queue it' \<noteq> []" using it'(3) le d1 by (auto simp: queue_lens_def)
  ultimately show thesis using f by (intro that [of it'])
qed

lemma queued_tl: "queued it c (e # rest) (Suc n) \<Longrightarrow> queued it (Suc c) rest n"
  unfolding queued_def by (auto dest: spec [of _ "Suc _"])

text \<open>\<open>Next\<close> moves by one entry, and what is loaded stays loaded.\<close>

lemma iter_next_ok:
  assumes at: "at_cursor L it (e # rest)" and D: "prefetch_ena it \<Longrightarrow> D = int L"
  obtains it' where "iter_next D it = Inr it'" "at_cursor L it' rest"
    "(prefetch_ena it \<longrightarrow> loaded files it (e # rest)) \<longrightarrow> primed files it' rest" "snap it' = snap it" "prefetch_ena it' = prefetch_ena it"
proof (cases "prefetch_ena it")
  case False
  let ?it = "it\<lparr>it_pos := rest, valid := (rest \<noteq> [])\<rparr>"
  have "it_pos it = e # rest" using at False by (simp add: at_cursor_def)
  then show thesis
    using False by (intro that [of ?it]) (simp_all add: iter_next_def at_cursor_def primed_def)
next
  case True
  show thesis
  proof (cases "queue_cur it + 1 = prefetch_depth it")
    case c: True
    obtain it' where w: "next_window D it = Inr it'" "at_cursor L (it'\<lparr>valid := valid_queue it' ! 0\<rparr>) rest"
      "queue_cur it' = 0" "snap it' = snap it" "prefetch_ena it'" "valid_queue it' \<noteq> []"
      by (rule next_window_ok [OF at True c D [OF True]])
    then show thesis
      using True c by (intro that [of "it'\<lparr>valid := valid_queue it' ! 0\<rparr>"])
        (simp_all add: iter_next_def primed_def)
  next
    case c: False
    let ?c = "queue_cur it" and ?d = "prefetch_depth it"
    let ?it = "it\<lparr>queue_cur := ?c + 1, valid := valid_queue it ! (?c + 1)\<rparr>"
    have A: "queue_lens L it" "?c < ?d" "\<exists>j. ?d * 2 ^ j = L" "queued it ?c (e # rest) (?d - ?c)"
      "it_pos it = drop (?d - ?c - 1) (e # rest)"
      using at True by (simp_all add: at_cursor_def)
    obtain n where n: "?d - ?c = Suc (Suc n)" using c A(2) by (cases "?d - ?c"; cases "?d - ?c - 1") auto
    obtain j where "?d * 2 ^ j = L" using A(3) by blast
    moreover have "?d * 1 \<le> ?d * 2 ^ j" by (intro mult_le_mono2) simp
    ultimately have dL: "?d \<le> L" by simp
    have q: "queued it (?c + 1) rest (Suc n)" using queued_tl [of it ?c e rest "Suc n"] A(4) n by simp
    have d1: "?d - (?c + 1) = Suc n" using n by simp
    have v: "valid_queue it ! (?c + 1) \<longleftrightarrow> rest \<noteq> []"
      using q unfolding queued_def by (cases rest) auto
    have "at_cursor L ?it rest"
      unfolding at_cursor_def using A q d1 v True n by (simp add: queue_lens_def queued_def)
    moreover have "?c + 1 < length (valid_queue it)" using A(1) dL n by (simp add: queue_lens_def)
    moreover have "loaded files it (e # rest) \<longrightarrow> primed files ?it rest"
      using n d1 unfolding primed_def loaded_def by (auto dest: spec [of _ "Suc _"])
    ultimately show thesis
      using True c by (intro that [of ?it]) (simp_all add: iter_next_def)
  qed
qed

lemma Next_ok:
  fixes db :: "'r db"
  assumes at: "at_cursor L it (e # rest)" and D: "prefetch_ena it \<Longrightarrow> prefetchDepth (options db) = int L"
    and ld: "prefetch_ena it \<Longrightarrow> loaded files it (e # rest)"
  obtains it' where "DBIterator_Next it db = Inr (it', db\<lparr>stats := RecordTick REQ_NEXT (stats db)\<rparr>)" "at_cursor L it' rest"
    "primed files it' rest" "snap it' = snap it" "prefetch_ena it' = prefetch_ena it"
proof -
  obtain it' where "iter_next (prefetchDepth (options db)) it = Inr it'" "at_cursor L it' rest"
    "(prefetch_ena it \<longrightarrow> loaded files it (e # rest)) \<longrightarrow> primed files it' rest" "snap it' = snap it" "prefetch_ena it' = prefetch_ena it"
    by (rule iter_next_ok [OF at D])
  then show thesis using ld by (intro that [of it']) (simp_all add: DBIterator_Next_def tick_def)
qed

subsection \<open>Reading the values of a window\<close>

lemma io_task_full: "full_io E \<Longrightarrow> io_task E n f m buf = io_task E 0 f m buf"
  by (simp add: io_task_def read_log_def full_io_def)

text \<open>Whatever the order of the tasks, each buffer gets its own data and the last task wakes up the waiting thread.\<close>

lemma run_tasks_ok:
  assumes "full_io E" "distinct (map fst ts)" "\<And>t. t \<in> set ts \<Longrightarrow> fst t < length bufs"
  obtains bufs' ctx' where "run_tasks E pick ts n bufs ctx = (n + length ts, bufs', ctx')" "length bufs' = length bufs"
    "\<And>i f m. (i, f, m) \<in> set ts \<Longrightarrow> bufs' ! i = io_task E 0 f m (bufs ! i)"
    "ready ctx' \<longleftrightarrow> ready ctx \<or> prefetch_cnt ctx < prefetch_num ctx \<and> prefetch_num ctx \<le> prefetch_cnt ctx + length ts"
proof -
  have "\<exists>bufs' ctx'. run_tasks E pick ts n bufs ctx = (n + length ts, bufs', ctx') \<and> length bufs' = length bufs \<and>
    (\<forall>i f m. (i, f, m) \<in> set ts \<longrightarrow> bufs' ! i = io_task E 0 f m (bufs ! i)) \<and>
    (\<forall>i. i \<notin> fst ` set ts \<longrightarrow> bufs' ! i = bufs ! i) \<and>
    (ready ctx' \<longleftrightarrow> ready ctx \<or> prefetch_cnt ctx < prefetch_num ctx \<and> prefetch_num ctx \<le> prefetch_cnt ctx + length ts)"
    using assms
  proof (induction "length ts" arbitrary: ts n bufs ctx)
    case 0
    then show ?case by (auto simp: run_tasks.simps [of E pick "[]"])
  next
    case (Suc k)
    let ?j = "pick n mod length ts"
    obtain i f m where t: "ts ! ?j = (i, f, m)" by (cases "ts ! ?j")
    have ne: "ts \<noteq> []" using Suc.hyps(2) by auto
    then have j: "?j < length ts" by (intro mod_less_divisor) simp
    let ?ts = "take ?j ts @ drop (Suc ?j) ts" and ?bufs = "bufs[i := io_task E n f m (bufs ! i)]"
    have split: "ts = take ?j ts @ (i, f, m) # drop (Suc ?j) ts" using id_take_nth_drop [OF j] t by simp
    have st: "set ts = insert (i, f, m) (set ?ts)" by (subst split) auto
    have d: "distinct (map fst (take ?j ts @ (i, f, m) # drop (Suc ?j) ts))" using Suc.prems(2) split by simp
    have ni: "i \<notin> fst ` set ?ts" and d': "distinct (map fst ?ts)" using d by auto
    have k: "k = length ?ts" using Suc.hyps(2) j by simp
    have "fst t < length ?bufs" if "t \<in> set ?ts" for t using Suc.prems(3) [of t] that st by auto
    from Suc.hyps(1) [OF k Suc.prems(1) d' this, of "n + 1" "on_prefetch_complete ctx"]
    obtain bufs' ctx' where r: "run_tasks E pick ?ts (n + 1) ?bufs (on_prefetch_complete ctx) = (n + 1 + length ?ts, bufs', ctx')"
      "length bufs' = length ?bufs" "\<forall>i f m. (i, f, m) \<in> set ?ts \<longrightarrow> bufs' ! i = io_task E 0 f m (?bufs ! i)"
      "\<forall>i. i \<notin> fst ` set ?ts \<longrightarrow> bufs' ! i = ?bufs ! i"
      "ready ctx' \<longleftrightarrow> ready (on_prefetch_complete ctx) \<or> prefetch_cnt (on_prefetch_complete ctx) < prefetch_num (on_prefetch_complete ctx) \<and>
         prefetch_num (on_prefetch_complete ctx) \<le> prefetch_cnt (on_prefetch_complete ctx) + length ?ts"
      by metis
    have run: "run_tasks E pick ts n bufs ctx = (n + length ts, bufs', ctx')"
      using r(1) ne t k Suc.hyps(2) by (subst run_tasks.simps) simp
    have il: "i < length bufs" using Suc.prems(3) [of "(i, f, m)"] st by simp
    have other: "?bufs ! i' = bufs ! i'" if "i' \<noteq> i" for i' using that by simp
    have mine: "bufs' ! i = io_task E 0 f m (bufs ! i)"
      using r(4) ni il io_task_full [OF Suc.prems(1), of n] by simp
    have rest: "bufs' ! i' = io_task E 0 f' m' (bufs ! i')" if "(i', f', m') \<in> set ?ts" for i' f' m'
    proof -
      have "i' \<in> fst ` set ?ts" using image_eqI [of i' fst "(i', f', m')"] that by simp
      then have "i' \<noteq> i" using ni by blast
      then show ?thesis using r(3) that other by auto
    qed
    have "ready ctx' \<longleftrightarrow> ready ctx \<or> prefetch_cnt ctx < prefetch_num ctx \<and> prefetch_num ctx \<le> prefetch_cnt ctx + length ts"
      unfolding r(5) using k Suc.hyps(2) by (auto simp: on_prefetch_complete_def)
    then show ?case
      using run r(2,4) mine rest other by (intro exI [of _ bufs'] exI [of _ ctx']) (auto simp: st)
  qed
  then show thesis using that by blast
qed

text \<open>Records that point into their files are read back, in the order of the window.\<close>

lemma prefetch_value_ok:
  assumes io: "full_io E" and ts: "ts \<noteq> []" "\<And>f m. (f, m) \<in> set ts \<Longrightarrow> entry_in m (length f)" and p: "async_pread opts = Inr ()"
  shows "prefetch_value E pick opts ts n = Inr (map (\<lambda>(f, m). entry_value m f) ts, n + length ts)"
proof -
  have io0: "sys E 0 = Full" using io by (simp add: full_io_def)
  define b where "b = (\<lambda>t :: bytes \<times> bytes. alloc E (unat (rSize (snd t))))"
  have al: "alloc_read_buf E m = Inr (b (f, m))" "value_in_buf m (io_task E 0 f m (b (f, m))) = Inr (entry_value m f)"
    if "(f, m) \<in> set ts" for f m
  proof -
    note e = ts(2) [OF that]
    obtain buf k buf' where "alloc_read_buf E m = Inr buf" "read_log E 0 f m buf = (Some k, buf')"
      "value_in_buf m buf' = Inr (entry_value m f)"
      by (rule read_back [OF e io0])
    then show "alloc_read_buf E m = Inr (b (f, m))" "value_in_buf m (io_task E 0 f m (b (f, m))) = Inr (entry_value m f)"
      by (auto simp: b_def alloc_read_buf_def io_task_def split: if_splits)
  qed
  have bufs: "mapr (\<lambda>(f, m). if length m < 12 then Inl Over_Read
      else rbind (alloc_read_buf E m) (\<lambda>buf. rbind (async_pread opts) (\<lambda>_. Inr buf))) ts = Inr (map b ts)"
    using al(1) ts(2) p by (intro mapr_ok) (auto simp: entry_in_def)
  obtain bufs' ctx where r: "run_tasks E pick (zip [0..<length ts] ts) n (map b ts)
      \<lparr>prefetch_cnt = 0, prefetch_num = length ts, ready = False\<rparr> = (n + length (zip [0..<length ts] ts), bufs', ctx)"
    "length bufs' = length (map b ts)"
    "\<And>i f m. (i, f, m) \<in> set (zip [0..<length ts] ts) \<Longrightarrow> bufs' ! i = io_task E 0 f m (map b ts ! i)" "ready ctx"
    by (rule run_tasks_ok [OF io, of "zip [0..<length ts] ts" "map b ts" pick n
          "\<lparr>prefetch_cnt = 0, prefetch_num = length ts, ready = False\<rparr>"])
      (use ts(1) in \<open>auto dest: set_zip_leftD\<close>)
  have nth: "bufs' ! i = io_task E 0 (fst (ts ! i)) (snd (ts ! i)) (b (ts ! i))" if "i < length ts" for i
  proof -
    have "(i, ts ! i) \<in> set (zip [0..<length ts] ts)" using that by (auto simp: in_set_zip intro: exI [of _ i])
    then show ?thesis using r(3) [of i "fst (ts ! i)" "snd (ts ! i)"] that by simp
  qed
  have "mapr (\<lambda>(t, buf). value_in_buf (snd t) buf) (zip ts bufs') = Inr (map (\<lambda>(t, buf). entry_value (snd t) (fst t)) (zip ts bufs'))"
  proof (rule mapr_ok)
    fix x
    assume "x \<in> set (zip ts bufs')"
    then obtain i where i: "i < length ts" "x = (ts ! i, bufs' ! i)" by (auto simp: set_zip)
    have "(fst (ts ! i), snd (ts ! i)) \<in> set ts" using i(1) by simp
    from al(2) [OF this] show "(case x of (t, buf) \<Rightarrow> value_in_buf (snd t) buf) = Inr (case x of (t, buf) \<Rightarrow> entry_value (snd t) (fst t))"
      using i nth [OF i(1)] by simp
  qed
  moreover have "map (\<lambda>(t, buf). entry_value (snd t) (fst t)) (zip ts bufs') = map (\<lambda>(f, m). entry_value m f) ts"
    using r(2) by (intro nth_equalityI) (auto simp: split_beta)
  ultimately show ?thesis
    using bufs r(1,4) by (simp add: prefetch_value_def)
qed

lemma collect_window_ok:
  assumes "queue_lens L it" "queued it i rest n" "i + n \<le> L"
  shows "collect_window files i n it = Inr (map (\<lambda>e. (files ! log_of (fst e), snd e)) (take n rest))"
  using assms
proof (induction n arbitrary: i rest)
  case (Suc n)
  show ?case
  proof (cases rest)
    case Nil
    then show ?thesis using Suc.prems by (simp add: queued_def queue_lens_def)
  next
    case (Cons e r)
    have "collect_window files (Suc i) n it = Inr (map (\<lambda>e. (files ! log_of (fst e), snd e)) (take n r))"
      by (rule Suc.IH) (use Suc.prems queued_tl [of it i e r n] Cons in simp_all)
    moreover have "key_queue it ! i = fst e" "pkey_queue it ! i = snd e" "valid_queue it ! i" "i < length (valid_queue it)"
      using Suc.prems Cons by (auto simp: queued_def queue_lens_def dest: spec [of _ 0])
    ultimately show ?thesis using Cons by simp
  qed
qed simp

subsection \<open>The value of the current entry\<close>

lemma at_cursor_upd: "at_cursor L (it\<lparr>val_queue := vq\<rparr>) rest \<longleftrightarrow> at_cursor L it rest" if "length vq = length (val_queue it)"
  using that by (simp add: at_cursor_def queue_lens_def queued_def)

lemma at_cursor_depth:
  assumes "at_cursor L it rest" "prefetch_ena it"
  shows "prefetch_depth it \<le> L" "queue_cur it < prefetch_depth it" "queue_lens L it"
proof -
  obtain j where "prefetch_depth it * 2 ^ j = L" using assms by (auto simp: at_cursor_def)
  moreover have "prefetch_depth it * 1 \<le> prefetch_depth it * 2 ^ j" by (intro mult_le_mono2) simp
  ultimately show "prefetch_depth it \<le> L" by simp
  show "queue_cur it < prefetch_depth it" "queue_lens L it" using assms by (simp_all add: at_cursor_def)
qed

lemma prefetch_window_ok:
  assumes at: "at_cursor L it rest" "prefetch_ena it" "queue_cur it = 0" "rest \<noteq> []" and io: "full_io E"
    and e: "\<And>k m. (k, m) \<in> set rest \<Longrightarrow> entry_in m (length (log_file (vlogs db ! log_of k)))"
    and len: "length (vlogs db) = LOG_PARTITION" and p: "async_pread (options db) = Inr ()"
  obtains it' n where "prefetch_window E pick it db = Inr (it', db\<lparr>ios := n\<rparr>)" "at_cursor L it' rest"
    "loaded (map log_file (vlogs db)) it' rest" "snap it' = snap it" "prefetch_ena it'" "queue_cur it' = 0"
proof -
  note d = at_cursor_depth [OF at(1,2)]
  let ?F = "map log_file (vlogs db)" and ?d = "prefetch_depth it"
  let ?ts = "map (\<lambda>e. (?F ! log_of (fst e), snd e)) (take ?d rest)"
  have c: "collect_window ?F 0 ?d it = Inr ?ts"
    by (rule collect_window_ok [OF d(3)]) (use at d in \<open>simp_all add: at_cursor_def\<close>)
  have ne: "?ts \<noteq> []" using at(4) d(2) by auto
  have en: "entry_in m (length f)" if "(f, m) \<in> set ?ts" for f m
    using that e len by (auto dest!: in_set_takeD)
  note pv = prefetch_value_ok [OF io ne en p, of pick "ios db"]
  define vals where "vals = map (\<lambda>(f, m). entry_value m f) ?ts"
  have vals: "vals = map (file_value ?F) (take ?d rest)" by (simp add: vals_def file_value_def)
  let ?it = "it\<lparr>val_queue := vals @ drop (length vals) (val_queue it)\<rparr>"
  have lv: "length vals \<le> length (val_queue it)" using d(1,3) by (simp add: vals queue_lens_def)
  have "prefetch_window E pick it db = Inr (?it, db\<lparr>ios := ios db + length ?ts\<rparr>)"
    using c pv by (simp add: prefetch_window_def vals_def)
  moreover have "at_cursor L ?it rest" using at_cursor_upd [of "vals @ drop (length vals) (val_queue it)" it L rest] at(1) lv by simp
  moreover have "loaded ?F ?it rest" using at(3) by (auto simp: loaded_def vals nth_append)
  ultimately show thesis using at(2,3) by (intro that [of ?it]) auto
qed

context rocksdb_ok
begin

lemma direct_value_ok:
  assumes r: "rinv (rdb db)" and k: "index (rdb db) k = Some m" and io: "full_io E"
    and e: "entry_in m (length (log_file (vlogs db ! log_of k)))"
  obtains r' where "direct_value R E k db = Inr (entry_value m (log_file (vlogs db ! log_of k)), db\<lparr>rdb := r', ios := ios db + 1\<rparr>)"
    "rinv r'" "index r' = index (rdb db)"
proof -
  have io0: "sys E (ios db) = Full" using io by (simp add: full_io_def)
  have l: "\<not> length m < 12" using e by (simp add: entry_in_def)
  obtain buf c buf' where b: "alloc_read_buf E m = Inr buf" "read_log E (ios db) (log_file (vlogs db ! log_of k)) m buf = (Some c, buf')"
    "value_in_buf m buf' = Inr (entry_value m (log_file (vlogs db ! log_of k)))"
    by (rule read_back [OF e io0])
  show thesis
  proof (cases rule: get_index [OF r, of k])
    case (1 v r')
    then show thesis
      using b l k by (intro that [of r']) (simp_all add: direct_value_def on_rdb_def)
  next
    case 2
    then show thesis using k by simp
  qed
qed

text \<open>\<open>value()\<close> of a valid iterator, when the log of the entries is in the files.\<close>

lemma value_ok:
  assumes at: "at_cursor L it ((k, m) # rest)" "primed (map log_file (vlogs db)) it ((k, m) # rest)" and io: "full_io E"
    and e: "\<And>k' m'. (k', m') \<in> set ((k, m) # rest) \<Longrightarrow> entry_in m' (length (log_file (vlogs db ! log_of k')))"
    and len: "length (vlogs db) = LOG_PARTITION" and p: "prefetch_ena it \<Longrightarrow> async_pread (options db) = Inr ()"
    and r: "rinv (rdb db)" "index (rdb db) k = Some m"
  obtains it' db' where "DBIterator_value R E pick it db = Inr ((file_value (map log_file (vlogs db)) (k, m), it'), db')"
    "at_cursor L it' ((k, m) # rest)" "prefetch_ena it' = prefetch_ena it" "snap it' = snap it"
    "prefetch_ena it \<Longrightarrow> loaded (map log_file (vlogs db)) it' ((k, m) # rest)"
    "same_store index db db'" "rinv (rdb db')" "stats db' = stats db"
proof (cases "prefetch_ena it")
  case False
  obtain r' where d: "direct_value R E k db = Inr (entry_value m (log_file (vlogs db ! log_of k)), db\<lparr>rdb := r', ios := ios db + 1\<rparr>)"
    "rinv r'" "index r' = index (rdb db)"
    by (rule direct_value_ok [OF r io, of]) (use e in auto)
  have "DBIterator_key it = Inr k" using at False by (simp add: at_cursor_def DBIterator_key_def)
  moreover have "file_value (map log_file (vlogs db)) (k, m) = entry_value m (log_file (vlogs db ! log_of k))"
    using len by (simp add: file_value_def)
  ultimately show thesis
    using False d at by (intro that [of "it\<lparr>value_buf := file_value (map log_file (vlogs db)) (k, m)\<rparr>"
          "db\<lparr>rdb := r', ios := ios db + 1\<rparr>"])
      (simp_all add: DBIterator_value_def at_cursor_def same_store_def)
next
  case True
  note d = at_cursor_depth [OF at(1) True]
  obtain it' n where it': "(if queue_cur it = 0 then prefetch_window E pick it else ret it) db = Inr (it', db\<lparr>ios := n\<rparr>)"
    "at_cursor L it' ((k, m) # rest)" "loaded (map log_file (vlogs db)) it' ((k, m) # rest)" "snap it' = snap it" "prefetch_ena it'"
  proof (cases "queue_cur it = 0")
    case c: True
    have ne: "(k, m) # rest \<noteq> []" by simp
    obtain it' n where w: "prefetch_window E pick it db = Inr (it', db\<lparr>ios := n\<rparr>)" "at_cursor L it' ((k, m) # rest)"
      "loaded (map log_file (vlogs db)) it' ((k, m) # rest)" "snap it' = snap it" "prefetch_ena it'"
      by (rule prefetch_window_ok [OF at(1) True c ne io e len p [OF True]])
    have "(if queue_cur it = 0 then prefetch_window E pick it else ret it) db = Inr (it', db\<lparr>ios := n\<rparr>)" using c w(1) by simp
    then show thesis by (rule that [OF _ w(2-5)])
  next
    case False
    then have "loaded (map log_file (vlogs db)) it ((k, m) # rest)" using at(2) True by (simp add: primed_def)
    moreover have "db\<lparr>ios := ios db\<rparr> = db" by simp
    ultimately show thesis using that [of it "ios db"] at(1) True False by simp
  qed
  note d' = at_cursor_depth [OF it'(2,5)]
  have "val_queue it' ! queue_cur it' = file_value (map log_file (vlogs db)) (k, m)"
    using it'(3) d'(2) by (auto simp: loaded_def dest: spec [of _ 0])
  moreover have "queue_cur it' < length (val_queue it')" using d' by (simp add: queue_lens_def)
  ultimately show thesis
    using True it' r(1) by (intro that [of it' "db\<lparr>ios := n\<rparr>"]) (simp_all add: DBIterator_value_def same_store_def)
qed

end

subsection \<open>Scans\<close>

text \<open>An iterator that can be positioned: its cursor is at the front of the queues.\<close>

definition seekable :: "nat \<Rightarrow> iter \<Rightarrow> bool" where
  "seekable L it \<longleftrightarrow> (prefetch_ena it \<longrightarrow>
     queue_lens L it \<and> queue_cur it = 0 \<and> 0 < prefetch_depth it \<and> (\<exists>j. prefetch_depth it * 2 ^ j = L))"

definition prefetch_ok :: "Options \<Rightarrow> bool" where
  "prefetch_ok opts \<longleftrightarrow> (prefetchEnabled opts \<longrightarrow> (\<exists>p. prefetchDepth opts = 2 ^ p) \<and> async_pread opts = Inr ())"

lemma make_iter_ok:
  assumes p: "prefetchEnabled opts \<Longrightarrow> \<exists>p. prefetchDepth opts = 2 ^ p"
  obtains it where "make_iter inflight ro opts es = Inr it" "seekable (nat (prefetchDepth opts)) it"
    "snap it = bounded_entries (upper_key ro) es" "prefetch_depth it = 1"
    "prefetch_ena it = (prefetchEnabled opts \<and> inflight < prefetchReqThres opts)"
    "prefetch_ena it \<Longrightarrow> prefetchDepth opts = int (nat (prefetchDepth opts))"
proof -
  let ?D = "prefetchDepth opts" and ?e = "prefetchEnabled opts \<and> inflight < prefetchReqThres opts"
  let ?n = "if ?e then nat ?D else 0"
  let ?it = "\<lparr>snap = bounded_entries (upper_key ro) es, it_pos = [], value_buf = [],
    valid = False, prefetch_ena = ?e, key_queue = replicate ?n [], pkey_queue = replicate ?n [],
    val_queue = replicate ?n [], valid_queue = replicate ?n False, prefetch_depth = 1, queue_cur = 0\<rparr>"
  have pos: "\<not> ?D < 0" "\<exists>j. 2 ^ j = nat ?D" if ?e
    using that p by (auto simp: nat_power_eq)
  have "seekable (nat ?D) ?it" using pos by (auto simp: seekable_def queue_lens_def)
  moreover have "make_iter inflight ro opts es = Inr ?it" using pos by (auto simp: make_iter_def Let_def)
  ultimately show thesis using pos by (intro that) auto
qed

lemma iter_seek_ok:
  assumes s: "seekable L it"
  obtains it' where "iter_seek target it = Inr it'"
    "at_cursor L it' (dropWhile (\<lambda>e. slice_compare (fst e) target < 0) (snap it))" "primed files it' rest"
    "prefetch_ena it' = prefetch_ena it" "snap it' = snap it"
proof -
  let ?p = "dropWhile (\<lambda>e. slice_compare (fst e) target < 0) (snap it)"
  let ?it1 = "it\<lparr>it_pos := ?p, valid := (?p \<noteq> [])\<rparr>"
  show thesis
  proof (cases "prefetch_ena it")
    case False
    then show thesis
      by (intro that [of ?it1]) (simp_all add: iter_seek_def at_cursor_def primed_def Let_def)
  next
    case True
    have S: "queue_lens L it" "queue_cur it = 0" "0 < prefetch_depth it" "\<exists>j. prefetch_depth it * 2 ^ j = L"
      using s True by (auto simp: seekable_def)
    obtain j where "prefetch_depth it * 2 ^ j = L" using S(4) by blast
    moreover have "prefetch_depth it * 1 \<le> prefetch_depth it * 2 ^ j" by (intro mult_le_mono2) simp
    ultimately have dL: "prefetch_depth it \<le> L" by simp
    have vq: "valid_queue it \<noteq> []" using S(1,3) dL by (auto simp: queue_lens_def)
    show thesis
    proof (cases ?p)
      case Nil
      let ?it = "it\<lparr>it_pos := [], valid := False, valid_queue := (valid_queue it)[0 := False]\<rparr>"
      have nil: "seek_fill i n it' = Inr it'" if "it_pos it' = []" for i n it'
        using that by (induction n arbitrary: i) simp_all
      have "\<not> (valid_queue it)[0 := False] ! 0" using vq by (cases "valid_queue it") auto
      then have "at_cursor L ?it []"
        using S True by (simp add: at_cursor_def queue_lens_def queued_def)
      then show thesis
        using True vq Nil nil [of ?it] S(2)
        by (intro that [of ?it]) (simp_all add: iter_seek_def primed_def Let_def del: dropWhile_eq_Nil_conv)
    next
      case (Cons e q)
      let ?it = "it\<lparr>it_pos := ?p, valid := True, valid_queue := (valid_queue it)[0 := True],
        key_queue := (key_queue it)[0 := fst e], pkey_queue := (pkey_queue it)[0 := snd e]\<rparr>"
      have ql: "queue_lens L ?it" using S(1) by (simp add: queue_lens_def)
      have le: "1 + (prefetch_depth it - 1) \<le> L" using dL S(3) by simp
      obtain it' where f: "next_fill 1 (prefetch_depth it - 1) ?it = Inr it'" "refilled ?it 1 it'" "queue_lens L it'"
        "it_pos it' = drop (prefetch_depth it - 1) ?p" "queued it' 1 q (prefetch_depth it - 1)"
        by (rule next_fill_ok [OF ql le]) (simp add: Cons)
      have "seek_fill 1 (prefetch_depth it - 1) ?it = Inr (it'\<lparr>valid := True\<rparr>)"
        using seek_fill_next [of ?it 1 "prefetch_depth it - 1"] f(1) Cons by simp
      then have run: "iter_seek target it = Inr (it'\<lparr>valid := True\<rparr>)"
        using True vq Cons by (simp add: iter_seek_def Let_def)
      have L0: "0 < L" using dL S(3) by simp
      have z: "key_queue it' ! 0 = fst e" "pkey_queue it' ! 0 = snd e" "valid_queue it' ! 0"
        using f(2) S(1) L0 by (simp_all add: refilled_def queue_lens_def)
      have "queued it' 0 (e # q) (Suc (prefetch_depth it - 1))"
        by (rule queued_Cons) (use f(5) z in simp_all)
      then have "at_cursor L (it'\<lparr>valid := True\<rparr>) ?p"
        using f(2,3,4) S True Cons by (simp add: at_cursor_def queue_lens_def queued_def refilled_def)
      then show thesis
        using run f(2) True S(2) by (intro that [of "it'\<lparr>valid := True\<rparr>"]) (simp_all add: refilled_def primed_def)
    qed
  qed
qed

lemma Seek_ok:
  fixes db :: "'r db"
  assumes s: "seekable L it"
  obtains it' where "DBIterator_Seek target it db = Inr (it', db\<lparr>stats := RecordTick REQ_SEEK (stats db)\<rparr>)"
    "at_cursor L it' (dropWhile (\<lambda>e. slice_compare (fst e) target < 0) (snap it))" "primed files it' rest"
    "prefetch_ena it' = prefetch_ena it" "snap it' = snap it"
proof -
  obtain it' where "iter_seek target it = Inr it'" "at_cursor L it' (dropWhile (\<lambda>e. slice_compare (fst e) target < 0) (snap it))"
    "primed files it' rest" "prefetch_ena it' = prefetch_ena it" "snap it' = snap it"
    by (rule iter_seek_ok [OF s])
  then show thesis by (intro that [of it']) (simp_all add: DBIterator_Seek_def tick_def)
qed

lemma SeekToFirst_ok:
  assumes s: "seekable L it" "prefetch_depth it = 1" and ne: "prefetch_ena it \<Longrightarrow> snap it \<noteq> []"
  obtains it' where "DBIterator_SeekToFirst it = Inr it'" "at_cursor L it' (snap it)" "primed files it' rest"
    "prefetch_ena it' = prefetch_ena it" "snap it' = snap it"
proof (cases "prefetch_ena it")
  case False
  then show thesis
    by (intro that [of "it\<lparr>it_pos := snap it, valid := (snap it \<noteq> [])\<rparr>"])
      (simp_all add: DBIterator_SeekToFirst_def at_cursor_def primed_def)
next
  case True
  have S: "queue_lens L it" "queue_cur it = 0" "\<exists>j. prefetch_depth it * 2 ^ j = L" using s True by (auto simp: seekable_def)
  obtain e p where p: "snap it = e # p" using ne [OF True] by (cases "snap it") auto
  have L0: "0 < L" using S(3) s(2) by auto
  let ?it = "it\<lparr>it_pos := snap it, valid := True, valid_queue := (valid_queue it)[0 := True],
    key_queue := (key_queue it)[0 := fst e], pkey_queue := (pkey_queue it)[0 := snd e]\<rparr>"
  have "at_cursor L ?it (snap it)"
    using S s(2) True p L0 by (auto simp: at_cursor_def queue_lens_def queued_def)
  moreover have "DBIterator_SeekToFirst it = Inr ?it"
    using True p S(1) L0 by (auto simp: DBIterator_SeekToFirst_def queue_lens_def Let_def)
  ultimately show thesis using S(2) p by (intro that [of ?it]) (simp_all add: primed_def)
qed

context rocksdb_ok
begin

lemma scan_ok:
  assumes "at_cursor L it rest" "primed files it rest" "full_io E"
    "\<And>k m. (k, m) \<in> set rest \<Longrightarrow> index (rdb db) k = Some m \<and> entry_in m (length (log_file (vlogs db ! log_of k)))"
    "length (vlogs db) = LOG_PARTITION" "files = map log_file (vlogs db)"
    "prefetch_ena it \<Longrightarrow> async_pread (options db) = Inr () \<and> prefetchDepth (options db) = int L" "rinv (rdb db)" "length rest < n"
  shows "\<exists>db'. scan R E pick n it db = Inr (Some (map (\<lambda>e. (fst e, file_value files e)) rest), db') \<and> same_store index db db' \<and> rinv (rdb db')"
  using assms
proof (induction rest arbitrary: n it db)
  case Nil
  then show ?case by (cases n) (auto simp: at_cursor_def same_store_def)
next
  case (Cons e rest)
  obtain k m where e: "e = (k, m)" by (cases e)
  obtain n' where n: "n = Suc n'" "length rest < n'" using Cons.prems(9) by (cases n) auto
  have v: "valid it" using Cons.prems(1) by (simp add: at_cursor_def)
  have key: "DBIterator_key it = Inr k"
  proof (cases "prefetch_ena it")
    case True
    then show ?thesis
      using at_cursor_depth [OF Cons.prems(1) True] Cons.prems(1) e
      by (auto simp: DBIterator_key_def at_cursor_def queued_def queue_lens_def dest: spec [of _ 0])
  qed (use Cons.prems(1) e in \<open>simp add: DBIterator_key_def at_cursor_def\<close>)
  obtain it1 db1 where v1: "DBIterator_value R E pick it db = Inr ((file_value files e, it1), db1)" "at_cursor L it1 (e # rest)"
    "prefetch_ena it1 = prefetch_ena it" "prefetch_ena it \<Longrightarrow> loaded files it1 (e # rest)" "same_store index db db1" "rinv (rdb db1)"
    by (rule value_ok [of L it k m rest db E pick]) (use Cons.prems e that in auto)
  have D: "prefetchDepth (options db1) = int L" if "prefetch_ena it1"
    using Cons.prems(7) that v1(3,5) by (simp add: same_store_def)
  obtain it2 where n2: "DBIterator_Next it1 db1 = Inr (it2, db1\<lparr>stats := RecordTick REQ_NEXT (stats db1)\<rparr>)" "at_cursor L it2 rest"
    "primed files it2 rest" "prefetch_ena it2 = prefetch_ena it1"
    by (rule Next_ok [OF v1(2) D, of files]) (use v1(3,4) that in simp_all)
  let ?db2 = "db1\<lparr>stats := RecordTick REQ_NEXT (stats db1)\<rparr>"
  have ss: "same_store index db ?db2" using v1(5) by (simp add: same_store_def)
  have "\<exists>db'. scan R E pick n' it2 ?db2 = Inr (Some (map (\<lambda>e. (fst e, file_value files e)) rest), db') \<and>
      same_store index ?db2 db' \<and> rinv (rdb db')"
  proof (rule Cons.IH [OF n2(2,3) Cons.prems(3)])
    show "files = map log_file (vlogs ?db2)" "length (vlogs ?db2) = LOG_PARTITION"
      using Cons.prems(5,6) ss by (simp_all add: same_store_def)
    show "index (rdb ?db2) k = Some m \<and> entry_in m (length (log_file (vlogs ?db2 ! log_of k)))" if "(k, m) \<in> set rest" for k m
      using Cons.prems(4) [of k m] that ss by (simp add: same_store_def)
    show "async_pread (options ?db2) = Inr () \<and> prefetchDepth (options ?db2) = int L" if "prefetch_ena it2"
      using Cons.prems(7) that n2(4) v1(3) ss by (simp add: same_store_def)
  qed (use v1(6) n(2) in simp_all)
  then show ?case
    using v key v1(1) n2(1) n(1) e ss by (auto intro: same_store_trans)
qed

end

lemma takeWhile_sorted:
  assumes "sorted_wrt lex_less (map fst es)"
  shows "e \<in> set (takeWhile (\<lambda>e. slice_compare (fst e) u < 0) es) \<longleftrightarrow> e \<in> set es \<and> lex_less (fst e) u"
  using assms by (induction es) (auto simp: slice_compare_signs dest: lex_less_trans)

lemma dropWhile_sorted:
  assumes "sorted_wrt lex_less (map fst es)"
  shows "e \<in> set (dropWhile (\<lambda>e. slice_compare (fst e) t < 0) es) \<longleftrightarrow> e \<in> set es \<and> \<not> lex_less (fst e) t"
  using assms by (induction es) (auto simp: slice_compare_signs dest: lex_less_trans)

lemma sorted_suffix:
  assumes "sorted_wrt P (map fst es)"
  shows "sorted_wrt P (map fst (takeWhile Q es))" "sorted_wrt P (map fst (dropWhile Q es))"
  using assms by (induction es) (auto dest: set_takeWhileD)

lemma bounded_entries_ok:
  assumes "sorted_wrt lex_less (map fst es)"
  shows "sorted_wrt lex_less (map fst (bounded_entries u es))"
    "e \<in> set (bounded_entries u es) \<longleftrightarrow> e \<in> set es \<and> (\<forall>b. u = Some b \<longrightarrow> lex_less (fst e) b)"
    "length (bounded_entries u es) \<le> length es"
  using assms sorted_suffix(1) [OF assms] takeWhile_sorted [OF assms] length_takeWhile_le [of _ es]
  by (auto simp: bounded_entries_def split: option.splits)

context rocksdb_ok
begin

text \<open>A scan of a store whose logs are flushed, from a target key on.\<close>

lemma range_scan:
  assumes inv: "db_inv rinv index N db" and fl: "\<And>i. i < LOG_PARTITION \<Longrightarrow> flushed (vlogs db ! i)" and io: "full_io E"
    and p: "prefetch_ok (options db)" and n: "length (rocks_entries R (rdb db)) < n"
  obtains it it' db1 kvs db' where "DBIterator_new R inflight ro db = Inr it" "DBIterator_Seek target it db = Inr (it', db1)"
    "scan R E pick n it' db1 = Inr (Some kvs, db')" "sorted_wrt lex_less (map fst kvs)"
    "\<And>k v. (k, v) \<in> set kvs \<longleftrightarrow> db_abs index db k = Some v \<and> \<not> lex_less k target \<and> (\<forall>b. upper_key ro = Some b \<longrightarrow> lex_less k b)"
    "same_store index db db'" "rinv (rdb db')"
proof -
  let ?es = "rocks_entries R (rdb db)" and ?L = "nat (prefetchDepth (options db))" and ?F = "map log_file (vlogs db)"
  have r: "rinv (rdb db)" and lk: "logs_ok N db" and ik: "index_ok index db" using inv by (simp_all add: db_inv_def)
  have len: "length (vlogs db) = LOG_PARTITION" using lk by (simp add: logs_ok_def)
  have srt: "sorted_wrt lex_less (map fst ?es)" by (rule entries_sorted [OF r])
  have mem: "(k, m) \<in> set ?es \<longleftrightarrow> index (rdb db) k = Some m" for k m
    using entries_map [OF r] entries_distinct [OF r] by (metis map_of_eq_Some_iff)
  have pl: "entry_in m (length (log_file (vlogs db ! log_of k)))" "entry_value m (log_file (vlogs db ! log_of k)) = entry_value m (log_bytes (key_log db k))"
    if "index (rdb db) k = Some m" for k m
  proof -
    have "placed m (key_log db k)" using that ik by (simp add: index_ok_def)
    moreover have "log_bytes (vlogs db ! log_of k) = log_file (vlogs db ! log_of k)" by (rule flushed_file [OF fl [OF log_of_part]])
    ultimately show "entry_in m (length (log_file (vlogs db ! log_of k)))"
      "entry_value m (log_file (vlogs db ! log_of k)) = entry_value m (log_bytes (key_log db k))"
      by (simp_all add: placed_def key_log_def)
  qed
  have pd: "prefetchEnabled (options db) \<Longrightarrow> \<exists>p. prefetchDepth (options db) = 2 ^ p" using p by (simp add: prefetch_ok_def)
  obtain it where mk: "make_iter inflight ro (options db) ?es = Inr it" and it: "prefetch_depth it = 1" "seekable ?L it" "snap it = bounded_entries (upper_key ro) ?es"
    "prefetch_ena it = (prefetchEnabled (options db) \<and> inflight < prefetchReqThres (options db))"
    "prefetch_ena it \<Longrightarrow> prefetchDepth (options db) = int ?L"
    by (rule make_iter_ok [of "options db" inflight ro ?es, OF pd], assumption) (rule that)
  have new: "DBIterator_new R inflight ro db = Inr it" using mk by (simp add: DBIterator_new_def)
  define rest where "rest = dropWhile (\<lambda>e. slice_compare (fst e) target < 0) (snap it)"
  obtain it' where it': "DBIterator_Seek target it db = Inr (it', db\<lparr>stats := RecordTick REQ_SEEK (stats db)\<rparr>)"
    "at_cursor ?L it' rest" "primed ?F it' rest" "prefetch_ena it' = prefetch_ena it"
    unfolding rest_def by (rule Seek_ok [OF it(2)])
  have rest: "e \<in> set rest \<longleftrightarrow> e \<in> set ?es \<and> \<not> lex_less (fst e) target \<and> (\<forall>b. upper_key ro = Some b \<longrightarrow> lex_less (fst e) b)" for e
    unfolding rest_def it(3) using dropWhile_sorted [OF bounded_entries_ok(1) [OF srt]] bounded_entries_ok(2) [OF srt] by auto
  have rl: "length rest < n"
    using n bounded_entries_ok(3) [OF srt, of "upper_key ro"] length_dropWhile_le [of _ "snap it"] unfolding rest_def it(3)
    by (meson le_less_trans order_trans)
  have rs: "sorted_wrt lex_less (map fst rest)"
    unfolding rest_def it(3) by (intro sorted_suffix(2) bounded_entries_ok(1) srt)
  let ?db1 = "db\<lparr>stats := RecordTick REQ_SEEK (stats db)\<rparr>"
  have "\<exists>db'. scan R E pick n it' ?db1 = Inr (Some (map (\<lambda>e. (fst e, file_value ?F e)) rest), db') \<and> same_store index ?db1 db' \<and> rinv (rdb db')"
  proof (rule scan_ok [OF it'(2,3) io])
    show "index (rdb ?db1) k = Some m \<and> entry_in m (length (log_file (vlogs ?db1 ! log_of k)))" if "(k, m) \<in> set rest" for k m
      using that rest mem pl(1) by simp
    show "async_pread (options ?db1) = Inr () \<and> prefetchDepth (options ?db1) = int ?L" if "prefetch_ena it'"
      using that it'(4) it(4,5) p by (auto simp: prefetch_ok_def)
  qed (use len r rl in simp_all)
  then obtain db' where sc: "scan R E pick n it' ?db1 = Inr (Some (map (\<lambda>e. (fst e, file_value ?F e)) rest), db')" "same_store index db db'" "rinv (rdb db')"
    by (auto simp: same_store_def)
  have fv: "file_value ?F (k, m) = entry_value m (log_bytes (key_log db k))" if "index (rdb db) k = Some m" for k m
    using that pl(2) len by (simp add: file_value_def)
  have "(k, v) \<in> set (map (\<lambda>e. (fst e, file_value ?F e)) rest) \<longleftrightarrow> (\<exists>m. (k, m) \<in> set rest \<and> file_value ?F (k, m) = v)" for k v
    by force
  then have "(k, v) \<in> set (map (\<lambda>e. (fst e, file_value ?F e)) rest) \<longleftrightarrow>
      db_abs index db k = Some v \<and> \<not> lex_less k target \<and> (\<forall>b. upper_key ro = Some b \<longrightarrow> lex_less k b)" for k v
    using rest mem fv by (auto simp: db_abs_def)
  moreover have "sorted_wrt lex_less (map fst (map (\<lambda>e. (fst e, file_value ?F e)) rest))" using rs by (simp add: comp_def)
  ultimately show thesis using sc by (intro that [OF new it'(1) sc(1)]) blast+
qed

end

lemma next_fill_overflow:
  assumes "queue_lens L it" "i \<le> L" "L < i + n" "L - i < length (tl (it_pos it))"
  shows "next_fill i n it = Inl Heap_Overflow"
  using assms
proof (induction n arbitrary: i it)
  case (Suc n)
  obtain e q where p: "tl (it_pos it) = e # q" using Suc.prems(4) by (cases "tl (it_pos it)") auto
  show ?case
  proof (cases "i < L")
    case True
    let ?it = "it\<lparr>it_pos := e # q, valid := True, key_queue := (key_queue it)[i := fst e], pkey_queue := (pkey_queue it)[i := snd e],
      valid_queue := (valid_queue it)[i := True]\<rparr>"
    have "next_fill (Suc i) n ?it = Inl Heap_Overflow"
      by (rule Suc.IH) (use Suc.prems True p in \<open>auto simp: queue_lens_def\<close>)
    then show ?thesis using True p Suc.prems(1) by (simp add: put_queue_def queue_lens_def)
  qed (use p Suc.prems(1,2) in \<open>simp add: put_queue_def queue_lens_def\<close>)
qed simp

subsection \<open>Faults of the iterator\<close>

text \<open>
  C30: The prefetch depth is doubled without looking at the size of the queues. When the next doubling passes a \<open>prefetchDepth\<close>
  that is not a power of two and enough entries are left, \<open>Next\<close> writes past the end of the queues.
\<close>

theorem Next_overflows:
  assumes "prefetch_ena it" and "queue_lens (nat (prefetchDepth (options db))) it" and "queue_cur it + 1 = prefetch_depth it"
    and "int (prefetch_depth it) < prefetchDepth (options db)" and "prefetchDepth (options db) < 2 * int (prefetch_depth it)"
    and "prefetchDepth (options db) + 1 < int (length (it_pos it))"
  shows "DBIterator_Next it db = Inl Heap_Overflow"
proof -
  let ?L = "nat (prefetchDepth (options db))"
  let ?it = "it\<lparr>queue_cur := 0, prefetch_depth := 2 * prefetch_depth it\<rparr>"
  have "queue_lens ?L ?it" using assms(2) by (simp add: queue_lens_def)
  moreover have "?L < 0 + 2 * prefetch_depth it" "?L - 0 < length (tl (it_pos ?it))" using assms(4-6) by auto
  ultimately have "next_fill 0 (2 * prefetch_depth it) ?it = Inl Heap_Overflow"
    by (intro next_fill_overflow) simp_all
  then have "next_window (prefetchDepth (options db)) it = Inl Heap_Overflow"
    using assms(3,4) by (simp add: next_window_def Let_def)
  then show ?thesis using assms(1,3) by (simp add: DBIterator_Next_def iter_next_def tick_def)
qed

text \<open>A depth of 3, after two of six entries have been seen.\<close>

definition depth3_db :: "unit db" where
  "depth3_db = \<lparr>options = (Options_new (\<lambda>_. None))\<lparr>prefetchEnabled := True, prefetchDepth := 3\<rparr>, rdb = (), vlogs = [],
     write_buffer = [], data_cache = None, stats = None, ios = 0\<rparr>"

definition depth3_iter :: iter where
  "depth3_iter =
     (let es = map (\<lambda>i. ([of_nat i], [])) [0..<6]
      in \<lparr>snap = es, it_pos = drop 1 es, value_buf = [], valid = True, prefetch_ena = True,
          key_queue = [[0], [1], []], pkey_queue = [[], [], []], val_queue = [[], [], []],
          valid_queue = [True, True, False], prefetch_depth = 2, queue_cur = 1\<rparr>)"

theorem Next_overflows_witness: "DBIterator_Next depth3_iter depth3_db = Inl Heap_Overflow"
  by (rule Next_overflows)
    (simp_all add: depth3_iter_def depth3_db_def Options_new_def queue_lens_def Let_def)

text \<open>
  C31: \<open>Seek\<close> does not reset the cursor. After \<open>Next\<close> has moved it to cell c of the window, a new \<open>Seek\<close> leaves the
  iterator on the c-th entry after the target instead of the target itself.
\<close>

theorem reseek_skips:
  assumes "prefetch_ena it" and "queue_lens L it" and "0 < queue_cur it" and "queue_cur it < prefetch_depth it"
    and "prefetch_depth it \<le> L" and "queue_cur it < length (dropWhile (\<lambda>e. slice_compare (fst e) target < 0) (snap it))"
  shows "\<exists>it'. DBIterator_Seek target it db = Inr (it', db\<lparr>stats := RecordTick REQ_SEEK (stats db)\<rparr>) \<and> valid it' \<and>
    DBIterator_key it' = Inr (fst (dropWhile (\<lambda>e. slice_compare (fst e) target < 0) (snap it) ! queue_cur it))"
proof -
  define p where "p = dropWhile (\<lambda>e. slice_compare (fst e) target < 0) (snap it)"
  have "p \<noteq> []" using assms(6) unfolding p_def by force
  then obtain e q where Cons: "p = e # q" by (cases p) auto
  let ?it = "it\<lparr>it_pos := p, valid := True, valid_queue := (valid_queue it)[0 := True],
    key_queue := (key_queue it)[0 := fst e], pkey_queue := (pkey_queue it)[0 := snd e]\<rparr>"
  have ql: "queue_lens L ?it" using assms(2) by (simp add: queue_lens_def)
  have le: "1 + (prefetch_depth it - 1) \<le> L" using assms(3-5) by simp
  obtain it' where f: "next_fill 1 (prefetch_depth it - 1) ?it = Inr it'" "refilled ?it 1 it'" "queue_lens L it'"
    "queued it' 1 q (prefetch_depth it - 1)"
    by (rule next_fill_ok [OF ql le]) (simp add: Cons)
  have "seek_fill 1 (prefetch_depth it - 1) ?it = Inr (it'\<lparr>valid := True\<rparr>)"
    using seek_fill_next [of ?it 1 "prefetch_depth it - 1"] f(1) Cons by simp
  moreover have "valid_queue it \<noteq> []" using assms(2-5) by (auto simp: queue_lens_def)
  ultimately have run: "DBIterator_Seek target it db = Inr (it'\<lparr>valid := True\<rparr>, db\<lparr>stats := RecordTick REQ_SEEK (stats db)\<rparr>)"
    using assms(1) Cons p_def by (simp add: DBIterator_Seek_def iter_seek_def tick_def Let_def)
  obtain c where c: "queue_cur it = Suc c" using assms(3) by (cases "queue_cur it") auto
  have "key_queue it' ! (1 + c) = fst (q ! c)"
    using f(4) c assms(4,6) Cons unfolding queued_def p_def by auto
  moreover have "queue_cur it' = queue_cur it" "prefetch_ena it'" using f(2) assms(1) by (simp_all add: refilled_def)
  ultimately have "DBIterator_key (it'\<lparr>valid := True\<rparr>) = Inr (fst (p ! queue_cur it))"
    using c Cons f(3) assms(4,5) by (simp add: DBIterator_key_def queue_lens_def)
  then show ?thesis using run p_def by (intro exI [of _ "it'\<lparr>valid := True\<rparr>"]) simp
qed

text \<open>Seeking the key 0 again finds the key 1.\<close>

theorem reseek_skips_witness:
  "\<exists>it'. DBIterator_Seek [0] depth3_iter depth3_db = Inr (it', depth3_db) \<and> DBIterator_key it' = Inr [1]"
proof -
  have dw: "dropWhile (\<lambda>e. slice_compare (fst e) [0] < 0) (snap depth3_iter) = snap depth3_iter"
    by (simp add: depth3_iter_def Let_def upt_rec slice_compare_signs)
  have f: "queue_cur depth3_iter = 1" "length (snap depth3_iter) = 6" "fst (snap depth3_iter ! 1) = [1]"
    "depth3_db\<lparr>stats := RecordTick REQ_SEEK (stats depth3_db)\<rparr> = depth3_db"
    by (simp_all add: depth3_iter_def depth3_db_def Let_def upt_rec RecordTick_def)
  have "\<exists>it'. DBIterator_Seek [0] depth3_iter depth3_db = Inr (it', depth3_db\<lparr>stats := RecordTick REQ_SEEK (stats depth3_db)\<rparr>) \<and> valid it' \<and>
    DBIterator_key it' = Inr (fst (dropWhile (\<lambda>e. slice_compare (fst e) [0] < 0) (snap depth3_iter) ! queue_cur depth3_iter))"
    by (rule reseek_skips [of depth3_iter 3]) (use f dw in \<open>simp_all add: depth3_iter_def queue_lens_def Let_def\<close>)
  then show ?thesis unfolding dw f by blast
qed

end
