(* ===== verification/NewDB_Iter.thy ===== *)
theory NewDB_Iter
  imports NewDB DBIterator
begin

text \<open>
  The iterator of \<open>newdb\<close>, src/newdb/db_iter.cc: the queues of src/db_iter.cc over the snapshot of \<open>keydb\<close>, without the
  prefetching of values, whose body is empty there; \<open>value()\<close> calls \<open>Get\<close>. The slice it returns points to a local
  string that is gone at the return, so the model keeps what is stored in \<open>value_\<close>.
\<close>

definition NewDBIterator_new :: "'k rocks \<Rightarrow> int \<Rightarrow> ReadOptions \<Rightarrow> ('k, 'v) newdb \<Rightarrow> iter res" where
  "NewDBIterator_new RK inflight ro db = make_iter inflight ro (nopts db) (rocks_entries RK (keydb db))"

definition NewDBIterator_SeekToFirst :: "iter \<Rightarrow> iter res" where
  "NewDBIterator_SeekToFirst it = DBIterator_SeekToFirst it"

definition NewDBIterator_Seek :: "bytes \<Rightarrow> iter \<Rightarrow> (('k, 'v) newdb, iter) op" where
  "NewDBIterator_Seek target it db = rbind (iter_seek target it) (\<lambda>it'. Inr (it', ntick REQ_SEEK db))"

definition NewDBIterator_Next :: "iter \<Rightarrow> (('k, 'v) newdb, iter) op" where
  "NewDBIterator_Next it db = rbind (iter_next (prefetchDepth (nopts db)) it) (\<lambda>it'. Inr (it', ntick REQ_NEXT db))"

definition NewDBIterator_key :: "iter \<Rightarrow> bytes res" where
  "NewDBIterator_key it = DBIterator_key it"

definition NewDBIterator_value :: "'k rocks \<Rightarrow> 'v rocks \<Rightarrow> iter \<Rightarrow> (('k, 'v) newdb, iter) op" where
  "NewDBIterator_value RK RV it db =
     rbind (NewDBIterator_key it) (\<lambda>curr_key.
       sbind (NewDB_Get RK RV curr_key []) (\<lambda>(s, pval). ret (it\<lparr>value_buf := pval\<rparr>)) db)"

text \<open>The loop of a client, as for the other iterator.\<close>

fun nd_scan :: "'k rocks \<Rightarrow> 'v rocks \<Rightarrow> nat \<Rightarrow> iter \<Rightarrow> (('k, 'v) newdb, kvs option) op" where
  "nd_scan RK RV 0 it = ret None"
| "nd_scan RK RV (Suc n) it =
     (if \<not> valid it then ret (Some [])
      else (\<lambda>db. rbind (NewDBIterator_key it) (\<lambda>k.
        sbind (NewDBIterator_value RK RV it) (\<lambda>it'.
        sbind (NewDBIterator_Next it') (\<lambda>it''.
        sbind (nd_scan RK RV n it'') (\<lambda>r. ret (map_option (Cons (k, value_buf it')) r)))) db)))"

lemma nd_ntick [simp]:
  "nd_abs kidx vidx (ntick t db) = nd_abs kidx vidx db" "nd_inv kinv kidx vinv vidx (ntick t db) = nd_inv kinv kidx vinv vidx db"
  "nopts (ntick t db) = nopts db"
  using nd_cong [of kidx "ntick t db" db vidx] by (simp_all add: nd_inv_def) (simp add: ntick_def)

lemma at_cursor_value_buf [simp]: "at_cursor L (it\<lparr>value_buf := v\<rparr>) rest = at_cursor L it rest"
  by (simp add: at_cursor_def queue_lens_def queued_def)

lemma at_cursor_key: "at_cursor L it (e # rest) \<Longrightarrow> DBIterator_key it = Inr (fst e)"
  using at_cursor_depth [of L it "e # rest"]
  by (cases "prefetch_ena it") (auto simp: DBIterator_key_def at_cursor_def queued_def queue_lens_def dest: spec [of _ 0])

context two_dbs
begin

lemma Get_step:
  assumes "inv_db db" "abs_db db k = Some v"
  obtains db' where "NewDB_Get RK RV k [] db = Inr ((Status_OK, v), db')" "inv_db db'" "abs_db db' = abs_db db"
    "nopts db' = nopts db"
proof -
  obtain db' where g: "NewDB_Get RK RV k [] db =
      Inr (case abs_db db k of None \<Rightarrow> (Status_NotFound [] [], []) | Some v \<Rightarrow> (Status_OK, [] @ v), db')"
    "inv_db db'" "abs_db db' = abs_db db"
    by (rule NewDB_Get_inv [OF assms(1)])
  have "nopts db' = nopts db"
    using g(1) by (auto simp: NewDB_Get_def ntick_def Let_def rbind_Inr_iff split: prod.splits if_splits option.splits)
  then show thesis using g assms(2) by (intro that [of db']) simp_all
qed

lemma nd_scan_ok:
  assumes "at_cursor L it rest" "inv_db db" "\<And>e. e \<in> set rest \<Longrightarrow> abs_db db (fst e) \<noteq> None"
    "prefetch_ena it \<Longrightarrow> prefetchDepth (nopts db) = int L" "length rest < n"
  shows "\<exists>db'. nd_scan RK RV n it db = Inr (Some (map (\<lambda>e. (fst e, the (abs_db db (fst e)))) rest), db') \<and> inv_db db' \<and> abs_db db' = abs_db db"
  using assms
proof (induction rest arbitrary: n it db)
  case Nil
  then show ?case by (cases n) (auto simp: at_cursor_def)
next
  case (Cons e rest)
  obtain n' where n: "n = Suc n'" "length rest < n'" using Cons.prems(5) by (cases n) auto
  obtain v where v: "abs_db db (fst e) = Some v" using Cons.prems(3) [of e] by auto
  obtain db1 where g: "NewDB_Get RK RV (fst e) [] db = Inr ((Status_OK, v), db1)" "inv_db db1" "abs_db db1 = abs_db db" "nopts db1 = nopts db"
    by (rule Get_step [OF Cons.prems(2) v])
  let ?it = "it\<lparr>value_buf := v\<rparr>" and ?db = "ntick REQ_NEXT db1"
  have at: "at_cursor L ?it (e # rest)" using Cons.prems(1) by simp
  have D: "prefetch_ena ?it \<Longrightarrow> prefetchDepth (nopts db1) = int L" using Cons.prems(4) g(4) by simp
  obtain it' where it': "iter_next (prefetchDepth (nopts db1)) ?it = Inr it'" "at_cursor L it' rest" "prefetch_ena it' = prefetch_ena ?it"
    by (rule iter_next_ok [OF at D])
  have db: "inv_db ?db" "abs_db ?db = abs_db db" "nopts ?db = nopts db"
    using g(2,3,4) by simp_all
  have "\<exists>db'. nd_scan RK RV n' it' ?db = Inr (Some (map (\<lambda>e. (fst e, the (abs_db ?db (fst e)))) rest), db') \<and> inv_db db' \<and> abs_db db' = abs_db ?db"
    by (rule Cons.IH [OF it'(2) db(1)]) (use Cons.prems(3,4) db it'(3) n(2) in auto)
  then obtain db' where sc: "nd_scan RK RV n' it' ?db = Inr (Some (map (\<lambda>e. (fst e, the (abs_db db (fst e)))) rest), db')"
    "inv_db db'" "abs_db db' = abs_db db" unfolding db(2) by blast
  have "valid it" using Cons.prems(1) by (simp add: at_cursor_def)
  moreover have "NewDBIterator_key it = Inr (fst e)" using at_cursor_key [OF Cons.prems(1)] by (simp add: NewDBIterator_key_def)
  moreover have "NewDBIterator_value RK RV it db = Inr (?it, db1)" using calculation(2) g(1) by (simp add: NewDBIterator_value_def)
  moreover have "NewDBIterator_Next ?it db1 = Inr (it', ?db)" using it'(1) by (simp add: NewDBIterator_Next_def)
  ultimately show ?case using sc n(1) v by simp
qed

end



end
