(* ===== verification/Coding.thy ===== *)
theory Coding
  imports Slices
begin

text \<open>
  The encodings of RocksDB, src/rocksdb-5.8/util/coding.h and coding.cc: integers of fixed width, integers in groups
  of seven bits, byte strings behind their length. A pointer \<open>p\<close> with its \<open>limit\<close> is the list of the bytes between
  them; an output string is returned with the bytes appended. A function that parses from a slice returns the parsed value with
  the rest, or None where the code returns false or a null pointer. \<open>kLittleEndian\<close> is true on x86-64, where the code copies the
  memory of an integer; the other branch is in the model too.

  The lemmas give the round trips, the length of an encoding, the rejection of a truncated one, and the
  agreement of the unrolled 32-bit encoder with the loop of the 64-bit one.
\<close>

text \<open>The statuses of RocksDB that the modelled parts return.\<close>

datatype RStatus = SOk | SCorruption string | SMemoryLimit | SNotFound | SInvalidArgument string | SOther nat

definition kLittleEndian :: bool where
  "kLittleEndian = True"

definition kMaxVarint64Length :: nat where
  "kMaxVarint64Length = 10"

subsection \<open>Integers of fixed width\<close>

definition EncodeFixed32 :: "u32 \<Rightarrow> bytes" where
  "EncodeFixed32 v =
     (if kLittleEndian then to_le 4 v
      else [ucast (v AND 0xff), ucast (drop_bit 8 v AND 0xff), ucast (drop_bit 16 v AND 0xff), ucast (drop_bit 24 v AND 0xff)])"

definition EncodeFixed64 :: "u64 \<Rightarrow> bytes" where
  "EncodeFixed64 v =
     (if kLittleEndian then to_le 8 v
      else [ucast (v AND 0xff), ucast (drop_bit 8 v AND 0xff), ucast (drop_bit 16 v AND 0xff), ucast (drop_bit 24 v AND 0xff),
            ucast (drop_bit 32 v AND 0xff), ucast (drop_bit 40 v AND 0xff), ucast (drop_bit 48 v AND 0xff), ucast (drop_bit 56 v AND 0xff)])"

definition DecodeFixed32 :: "bytes \<Rightarrow> u32 res" where
  "DecodeFixed32 p =
     (if length p < 4 then Inl Over_Read
      else if kLittleEndian then Inr (of_le (take 4 p))
      else Inr (ucast (p ! 0) OR push_bit 8 (ucast (p ! 1)) OR push_bit 16 (ucast (p ! 2)) OR push_bit 24 (ucast (p ! 3))))"

definition DecodeFixed64 :: "bytes \<Rightarrow> u64 res" where
  "DecodeFixed64 p =
     (if length p < 8 then Inl Over_Read
      else if kLittleEndian then Inr (of_le (take 8 p))
      else rbind (DecodeFixed32 p) (\<lambda>lo. rbind (DecodeFixed32 (drop 4 p)) (\<lambda>hi.
        Inr (push_bit 32 (ucast hi) OR ucast lo))))"

definition PutFixed32 :: "bytes \<Rightarrow> u32 \<Rightarrow> bytes" where
  "PutFixed32 dst v = (if kLittleEndian then dst @ to_le 4 v else dst @ EncodeFixed32 v)"

definition PutFixed64 :: "bytes \<Rightarrow> u64 \<Rightarrow> bytes" where
  "PutFixed64 dst v = (if kLittleEndian then dst @ to_le 8 v else dst @ EncodeFixed64 v)"

definition GetFixed32 :: "bytes \<Rightarrow> (u32 \<times> bytes) option" where
  "GetFixed32 input =
     (if length input < 4 then None
      else (case DecodeFixed32 input of Inl e \<Rightarrow> None | Inr v \<Rightarrow> Some (v, drop 4 input)))"

definition GetFixed64 :: "bytes \<Rightarrow> (u64 \<times> bytes) option" where
  "GetFixed64 input =
     (if length input < 8 then None
      else (case DecodeFixed64 input of Inl e \<Rightarrow> None | Inr v \<Rightarrow> Some (v, drop 8 input)))"

subsection \<open>Integers of variable length\<close>

definition EncodeVarint32 :: "u32 \<Rightarrow> bytes" where
  "EncodeVarint32 v =
     (if v < 2 ^ 7 then [ucast v]
      else if v < 2 ^ 14 then [ucast (v OR 128), ucast (drop_bit 7 v)]
      else if v < 2 ^ 21 then [ucast (v OR 128), ucast (drop_bit 7 v OR 128), ucast (drop_bit 14 v)]
      else if v < 2 ^ 28 then
        [ucast (v OR 128), ucast (drop_bit 7 v OR 128), ucast (drop_bit 14 v OR 128), ucast (drop_bit 21 v)]
      else
        [ucast (v OR 128), ucast (drop_bit 7 v OR 128), ucast (drop_bit 14 v OR 128), ucast (drop_bit 21 v OR 128),
         ucast (drop_bit 28 v)])"

lemma drop_7_less:
  fixes v :: "'a::len word"
  assumes "\<not> v < 128" "8 \<le> LENGTH('a)"
  shows "unat (drop_bit 7 v) < unat v"
proof -
  have "unat (128 :: 'a word) = 128"
    using unat_of_nat_small [of 128, where 'a = 'a] power_increasing [of 8 "LENGTH('a)" "2 :: nat"] assms(2) by simp
  then have "unat v \<ge> 128" using assms(1) by (simp add: word_less_nat_alt)
  then show ?thesis unfolding unat_drop_bit_eq by (simp add: drop_bit_eq_div)
qed

function EncodeVarint64 :: "u64 \<Rightarrow> bytes" where
  "EncodeVarint64 v =
     (if v \<ge> 128 then ucast ((v AND 127) OR 128) # EncodeVarint64 (drop_bit 7 v) else [ucast v])"
  by pat_completeness auto
termination by (relation "measure unat") (auto simp: drop_7_less not_less)

declare EncodeVarint64.simps [simp del]

text \<open>The loop of \<open>GetVarint32PtrFallback\<close> and of \<open>GetVarint64Ptr\<close>; \<open>max_shift\<close> is the largest shift that it takes.\<close>

fun varint_loop :: "nat \<Rightarrow> nat \<Rightarrow> 'a::len word \<Rightarrow> bytes \<Rightarrow> ('a word \<times> bytes) option" where
  "varint_loop max_shift shift result [] = None"
| "varint_loop max_shift shift result (b # p) =
     (if shift \<le> max_shift then
        if ucast b AND (128 :: 'a word) \<noteq> 0
        then varint_loop max_shift (shift + 7) (result OR push_bit shift (ucast b AND 127)) p
        else Some (result OR push_bit shift (ucast b), p)
      else None)"

definition GetVarint32PtrFallback :: "bytes \<Rightarrow> (u32 \<times> bytes) option" where
  "GetVarint32PtrFallback p = varint_loop 28 0 0 p"

definition GetVarint32Ptr :: "bytes \<Rightarrow> (u32 \<times> bytes) option" where
  "GetVarint32Ptr p =
     (case p of
        b # q \<Rightarrow> if (ucast b :: u32) AND 128 = 0 then Some (ucast b, q) else GetVarint32PtrFallback p
      | [] \<Rightarrow> GetVarint32PtrFallback p)"

definition GetVarint64Ptr :: "bytes \<Rightarrow> (u64 \<times> bytes) option" where
  "GetVarint64Ptr p = varint_loop 63 0 0 p"

definition PutVarint32 :: "bytes \<Rightarrow> u32 \<Rightarrow> bytes" where
  "PutVarint32 dst v = dst @ EncodeVarint32 v"

definition PutVarint32Varint32 :: "bytes \<Rightarrow> u32 \<Rightarrow> u32 \<Rightarrow> bytes" where
  "PutVarint32Varint32 dst v1 v2 = dst @ EncodeVarint32 v1 @ EncodeVarint32 v2"

definition PutVarint32Varint32Varint32 :: "bytes \<Rightarrow> u32 \<Rightarrow> u32 \<Rightarrow> u32 \<Rightarrow> bytes" where
  "PutVarint32Varint32Varint32 dst v1 v2 v3 = dst @ EncodeVarint32 v1 @ EncodeVarint32 v2 @ EncodeVarint32 v3"

definition PutVarint64 :: "bytes \<Rightarrow> u64 \<Rightarrow> bytes" where
  "PutVarint64 dst v = dst @ EncodeVarint64 v"

definition PutVarint64Varint64 :: "bytes \<Rightarrow> u64 \<Rightarrow> u64 \<Rightarrow> bytes" where
  "PutVarint64Varint64 dst v1 v2 = dst @ EncodeVarint64 v1 @ EncodeVarint64 v2"

definition PutVarint32Varint64 :: "bytes \<Rightarrow> u32 \<Rightarrow> u64 \<Rightarrow> bytes" where
  "PutVarint32Varint64 dst v1 v2 = dst @ EncodeVarint32 v1 @ EncodeVarint64 v2"

definition PutVarint32Varint32Varint64 :: "bytes \<Rightarrow> u32 \<Rightarrow> u32 \<Rightarrow> u64 \<Rightarrow> bytes" where
  "PutVarint32Varint32Varint64 dst v1 v2 v3 = dst @ EncodeVarint32 v1 @ EncodeVarint32 v2 @ EncodeVarint64 v3"

function VarintLength_loop :: "u64 \<Rightarrow> nat \<Rightarrow> nat" where
  "VarintLength_loop v len = (if v \<ge> 128 then VarintLength_loop (drop_bit 7 v) (len + 1) else len)"
  by pat_completeness auto
termination by (relation "measure (unat \<circ> fst)") (auto simp: drop_7_less not_less)

declare VarintLength_loop.simps [simp del]

definition VarintLength :: "u64 \<Rightarrow> nat" where
  "VarintLength v = VarintLength_loop v 1"

definition GetVarint32 :: "bytes \<Rightarrow> (u32 \<times> bytes) option" where
  "GetVarint32 input = GetVarint32Ptr input"

definition GetVarint64 :: "bytes \<Rightarrow> (u64 \<times> bytes) option" where
  "GetVarint64 input = GetVarint64Ptr input"

subsection \<open>Byte strings\<close>

definition PutLengthPrefixedSlice :: "bytes \<Rightarrow> bytes \<Rightarrow> bytes" where
  "PutLengthPrefixedSlice dst v = PutVarint32 dst (of_nat (length v)) @ v"

definition PutLengthPrefixedSliceParts :: "bytes \<Rightarrow> bytes list \<Rightarrow> bytes" where
  "PutLengthPrefixedSliceParts dst parts =
     foldl (\<lambda>dst part. dst @ part)
       (PutVarint32 dst (of_nat (foldl (\<lambda>total_bytes part. total_bytes + length part) 0 parts))) parts"

text \<open>The slice after a failed call: advanced past the length when only the contents are short.\<close>

definition GetLengthPrefixedSlice :: "bytes \<Rightarrow> bytes option \<times> bytes" where
  "GetLengthPrefixedSlice input =
     (case GetVarint32 input of
        None \<Rightarrow> (None, input)
      | Some (len, rest) \<Rightarrow>
          if length rest \<ge> unat len then (Some (take (unat len) rest), drop (unat len) rest) else (None, rest))"

text \<open>The variant on memory that is trusted to hold an entry; \<open>p\<close> is what can be read from the pointer on.\<close>

definition GetLengthPrefixedSlice_data :: "bytes \<Rightarrow> bytes res" where
  "GetLengthPrefixedSlice_data p =
     (case GetVarint32Ptr (take 5 p) of
        None \<Rightarrow> if length p < 5 then Inl Over_Read else Inr []
      | Some (len, q) \<Rightarrow>
          let n = length (take 5 p) - length q
          in if n + unat len \<le> length p then Inr (chunk n (unat len) p) else Inl Over_Read)"

definition GetSliceUntil :: "bytes \<Rightarrow> byte \<Rightarrow> bytes \<times> bytes" where
  "GetSliceUntil s delimiter =
     (let len = length (takeWhile (\<lambda>c. c \<noteq> delimiter) s)
      in (take len s, drop (len + (if len < length s then 1 else 0)) s))"

subsection \<open>Fixed width\<close>

text \<open>Both branches of the encoders and decoders agree.\<close>

lemma ucast_low_byte: "ucast (w AND 0xff) = (ucast w :: byte)" for w :: "'a::len word"
proof -
  have "(0xff :: 'a word) = mask 8" by (simp add: mask_eq_exp_minus_1)
  then show ?thesis unfolding \<open>0xff = mask 8\<close> by (auto intro!: bit_word_eqI simp: bit_simps dest: bit_imp_le_length)
qed

lemma to_le_unrolled:
  "to_le 4 v = [ucast v, ucast (drop_bit 8 v), ucast (drop_bit 16 v), ucast (drop_bit 24 v)]"
  "to_le 8 w = [ucast w, ucast (drop_bit 8 w), ucast (drop_bit 16 w), ucast (drop_bit 24 w),
     ucast (drop_bit 32 w), ucast (drop_bit 40 w), ucast (drop_bit 48 w), ucast (drop_bit 56 w)]"
proof -
  have 4: "(4 :: nat) = Suc (Suc (Suc (Suc 0)))" by simp
  have 8: "(8 :: nat) = Suc (Suc (Suc (Suc (Suc (Suc (Suc (Suc 0)))))))" by simp
  show "to_le 4 v = [ucast v, ucast (drop_bit 8 v), ucast (drop_bit 16 v), ucast (drop_bit 24 v)]"
    by (subst 4) (simp only: to_le.simps drop_bit_drop_bit, simp)
  show "to_le 8 w = [ucast w, ucast (drop_bit 8 w), ucast (drop_bit 16 w), ucast (drop_bit 24 w),
     ucast (drop_bit 32 w), ucast (drop_bit 40 w), ucast (drop_bit 48 w), ucast (drop_bit 56 w)]"
    by (subst 8) (simp only: to_le.simps drop_bit_drop_bit, simp)
qed

lemma fixed_portable:
  "to_le 4 v = [ucast (v AND 0xff), ucast (drop_bit 8 v AND 0xff), ucast (drop_bit 16 v AND 0xff), ucast (drop_bit 24 v AND 0xff)]"
  "to_le 8 w = [ucast (w AND 0xff), ucast (drop_bit 8 w AND 0xff), ucast (drop_bit 16 w AND 0xff), ucast (drop_bit 24 w AND 0xff),
     ucast (drop_bit 32 w AND 0xff), ucast (drop_bit 40 w AND 0xff), ucast (drop_bit 48 w AND 0xff), ucast (drop_bit 56 w AND 0xff)]"
  by (simp_all only: ucast_low_byte to_le_unrolled)

lemma DecodeFixed_Encode [simp]:
  "DecodeFixed32 (to_le 4 v @ rest) = Inr v"
  "DecodeFixed64 (to_le 8 w @ rest) = Inr w"
  by (simp_all add: DecodeFixed32_def DecodeFixed64_def kLittleEndian_def)

lemma GetFixed_Put [simp]:
  "GetFixed32 (to_le 4 v @ rest) = Some (v, rest)"
  "GetFixed64 (to_le 8 w @ rest) = Some (w, rest)"
  by (simp_all add: GetFixed32_def GetFixed64_def)

lemma fixed_simps [simp]:
  "EncodeFixed32 v = to_le 4 v" "EncodeFixed64 w = to_le 8 w"
  "PutFixed32 dst v = dst @ to_le 4 v" "PutFixed64 dst w = dst @ to_le 8 w"
  by (simp_all add: EncodeFixed32_def EncodeFixed64_def PutFixed32_def PutFixed64_def kLittleEndian_def)

lemma GetFixed_None: "GetFixed32 p = None \<longleftrightarrow> length p < 4" "GetFixed64 p = None \<longleftrightarrow> length p < 8"
  by (simp_all add: GetFixed32_def GetFixed64_def DecodeFixed32_def DecodeFixed64_def kLittleEndian_def)

subsection \<open>Variable length\<close>

text \<open>The encoding of a word of any width in groups of seven bits.\<close>

function varint :: "'a::len word \<Rightarrow> bytes" where
  "varint v = (if 8 \<le> LENGTH('a) \<and> \<not> v < 128 then ucast ((v AND 127) OR 128) # varint (drop_bit 7 v) else [ucast v])"
  by pat_completeness auto
termination by (relation "measure unat") (auto simp: drop_7_less)

declare varint.simps [simp del]

lemma varint_not_empty [simp]: "varint v \<noteq> []"
  by (subst varint.simps) simp

lemma EncodeVarint64_varint: "EncodeVarint64 v = varint v"
  by (induction v rule: EncodeVarint64.induct)
    (subst EncodeVarint64.simps, subst varint.simps, simp add: not_less)

lemma VarintLength_loop_varint: "VarintLength_loop v n = n + length (varint v) - 1"
proof (induction v n rule: VarintLength_loop.induct)
  case (1 v n)
  then show ?case by (subst VarintLength_loop.simps, subst varint.simps) (auto simp: not_less Suc_le_eq)
qed

lemma VarintLength_eq: "VarintLength v = length (EncodeVarint64 v)"
  by (simp add: VarintLength_def VarintLength_loop_varint EncodeVarint64_varint)

lemma bit_7_ints [bytes_simps]: "bit (127 :: int) n \<longleftrightarrow> n < 7" "bit (128 :: int) n \<longleftrightarrow> n = 7"
proof -
  have "bit (mask 7 :: int) n \<longleftrightarrow> n < 7" "bit ((2 :: int) ^ 7) n \<longleftrightarrow> n = 7"
    by (simp only: bit_mask_iff possible_bit_int simp_thms) (simp only: bit_exp_iff possible_bit_int, auto)
  then show "bit (127 :: int) n \<longleftrightarrow> n < 7" "bit (128 :: int) n \<longleftrightarrow> n = 7" by (simp_all add: mask_eq_exp_minus_1)
qed

lemma varint_groups:
  fixes w :: "'a::len word"
  assumes "8 \<le> LENGTH('a)"
  shows "push_bit s (w AND 127) OR push_bit (s + 7) (drop_bit 7 w) = push_bit s w"
proof (rule bit_word_eqI)
  fix n
  have "7 + (n - (s + 7)) = n - s" if "\<not> n - s < 7" using that by simp
  then show "bit (push_bit s (w AND 127) OR push_bit (s + 7) (drop_bit 7 w)) n = bit (push_bit s w) n"
    by (cases "n - s < 7") (auto simp: bit_simps bit_7_ints)
qed

lemma varint_byte:
  fixes w :: "'a::len word"
  assumes "8 \<le> LENGTH('a)"
  shows "ucast (ucast ((w AND 127) OR 128) :: byte) AND (128 :: 'a word) \<noteq> 0"
    and "ucast (ucast ((w AND 127) OR 128) :: byte) AND (127 :: 'a word) = w AND 127"
    and "w < 128 \<Longrightarrow> ucast (ucast w :: byte) = w"
    and "w < 128 \<Longrightarrow> w AND (128 :: 'a word) = 0"
proof -
  have "bit (ucast (ucast ((w AND 127) OR 128) :: byte) AND (128 :: 'a word)) 7"
    using assms by (simp add: bit_simps bit_7_ints)
  then show "ucast (ucast ((w AND 127) OR 128) :: byte) AND (128 :: 'a word) \<noteq> 0" by (metis bit_0_eq bot_apply bot_bool_def)
  show "ucast (ucast ((w AND 127) OR 128) :: byte) AND (127 :: 'a word) = w AND 127"
    by (rule bit_word_eqI) (auto simp: bit_simps bit_7_ints)
  assume "w < 128"
  then have t: "take_bit 7 w = w"
    by (simp add: take_bit_eq_mod mod_word_less)
  have w: "bit w n \<Longrightarrow> n < 7" for n by (subst (asm) t [symmetric]) (simp add: bit_simps)
  show "ucast (ucast w :: byte) = w"
    by (rule bit_word_eqI) (auto simp: bit_simps dest: w)
  show "w AND (128 :: 'a word) = 0"
    by (rule bit_word_eqI) (auto simp: bit_simps bit_7_ints dest: w)
qed

lemma varint_loop_varint:
  fixes w :: "'a::len word"
  assumes "8 \<le> LENGTH('a)" "s + 7 * (length (varint w) - 1) \<le> m"
  shows "varint_loop m s r (varint w @ rest) = Some (r OR push_bit s w, rest)"
  using assms
proof (induction w arbitrary: s r rule: varint.induct)
  case (1 w)
  show ?case
  proof (cases "w < 128")
    case True
    then have "varint w = [ucast w]" by (subst varint.simps) simp
    then show ?thesis using 1(2,3) True varint_byte(3,4) [of w] by simp
  next
    case False
    then have e: "varint w = ucast ((w AND 127) OR 128) # varint (drop_bit 7 w)"
      using 1(2) by (subst varint.simps) simp
    have "s + 7 + 7 * (length (varint (drop_bit 7 w)) - 1) \<le> m"
      using 1(3) e varint_not_empty [of "drop_bit 7 w"] by (cases "varint (drop_bit 7 w)") simp_all
    then show ?thesis
      using 1 False e varint_byte(1,2) [of w] varint_groups [of s w] by (simp add: or.assoc)
  qed
qed

lemma unat_varint_length:
  fixes w :: "'a::len word"
  assumes "8 \<le> LENGTH('a)" "unat w < 128 ^ Suc k"
  shows "length (varint w) \<le> Suc k"
  using assms
proof (induction w arbitrary: k rule: varint.induct)
  case (1 w)
  have u: "unat (128 :: 'a word) = 128"
    using unat_of_nat_small [of 128, where 'a = 'a] power_increasing [of 8 "LENGTH('a)" "2 :: nat"] 1(2) by simp
  show ?case
  proof (cases "w < 128")
    case True
    then show ?thesis by (subst varint.simps) simp
  next
    case False
    then obtain k' where k: "k = Suc k'" using 1(3) u by (cases k) (auto simp: word_less_nat_alt)
    have "unat (drop_bit 7 w) = unat w div 128" unfolding unat_drop_bit_eq by (simp add: drop_bit_eq_div)
    then have "unat (drop_bit 7 w) < 128 ^ Suc k'" using 1(3) k by (simp add: less_mult_imp_div_less)
    then have "length (varint (drop_bit 7 w)) \<le> Suc k'" using 1 False by blast
    then show ?thesis using False 1(2) k by (subst varint.simps) simp
  qed
qed

lemma varint_lengths: "length (varint (v :: u32)) \<le> 5" "length (varint (w :: u64)) \<le> 10"
  using unat_varint_length [of v 4] unat_varint_length [of w 9] unsigned_less [of v, where 'a = nat] unsigned_less [of w, where 'a = nat]
  by simp_all

lemma GetVarint64_varint [simp]: "GetVarint64 (varint w @ rest) = Some (w, rest)"
  using varint_loop_varint [of 0 w 63 0 rest] varint_lengths(2) [of w]
  by (simp add: GetVarint64_def GetVarint64Ptr_def)

lemma GetVarint32_varint [simp]: "GetVarint32 (varint w @ rest) = Some (w, rest)"
proof -
  have loop: "varint_loop 28 0 0 (varint w @ rest) = Some (w, rest)"
    using varint_loop_varint [of 0 w 28 0 rest] varint_lengths(1) [of w] by simp
  then show ?thesis
    by (cases "varint w @ rest") (auto simp: GetVarint32_def GetVarint32Ptr_def GetVarint32PtrFallback_def split: if_splits)
qed

text \<open>The unrolled encoder.\<close>

lemma ucast_or_128: "ucast (w OR 128) = (ucast ((w AND 127) OR 128) :: byte)" for w :: u32
  by (rule bit_word_eqI) (auto simp: bit_simps bit_7_ints)

lemma unat_drop: "unat (drop_bit k v) = unat v div 2 ^ k" for v :: "'a::len word"
  unfolding unat_drop_bit_eq by (simp add: drop_bit_eq_div)

lemma unat_drop_less: "unat (drop_bit k v) < 128 \<longleftrightarrow> unat v < 128 * 2 ^ k" for v :: u32
  by (simp add: unat_drop div_less_iff_less_mult del: unsigned_drop_bit_eq)

lemma drop_less:
  "drop_bit 7 v < 128 \<longleftrightarrow> v < 2 ^ 14" "drop_bit 14 v < 128 \<longleftrightarrow> v < 2 ^ 21" "drop_bit 21 v < 128 \<longleftrightarrow> v < 2 ^ 28"
  "drop_bit 28 v < 128" for v :: u32
  using unat_drop_less [of 7 v] unat_drop_less [of 14 v] unat_drop_less [of 21 v] unat_drop_less [of 28 v]
    unsigned_less [of v, where 'a = nat]
  by (simp_all add: word_less_nat_alt del: unsigned_drop_bit_eq)

lemma varint_next: "\<not> v < 128 \<Longrightarrow> varint v = ucast (v OR 128) # varint (drop_bit 7 v)" for v :: u32
  by (subst varint.simps) (simp add: ucast_or_128 [symmetric])

lemma varint_last: "v < 128 \<Longrightarrow> varint v = [ucast v]" for v :: u32
  by (subst varint.simps) simp

lemma EncodeVarint32_varint: "EncodeVarint32 v = varint v"
proof -
  have m: "v < 128 \<Longrightarrow> v < 16384" "v < 16384 \<Longrightarrow> v < 2097152" "v < 2097152 \<Longrightarrow> v < 268435456"
    by (simp_all add: word_less_nat_alt)
  have n: "\<not> v < 16384 \<Longrightarrow> \<not> v < 128" "\<not> v < 2097152 \<Longrightarrow> \<not> v < 16384" "\<not> v < 268435456 \<Longrightarrow> \<not> v < 2097152"
    using m by blast+
  show ?thesis
    by (simp add: EncodeVarint32_def varint_next varint_last drop_less drop_bit_drop_bit n)
qed

lemma varint_ucast: "varint (ucast v :: u64) = varint (v :: u32)"
proof (induction v rule: varint.induct)
  case (1 v)
  have u: "unat (ucast v :: u64) = unat v"
    using unsigned_less [of v, where 'a = nat] by (simp add: unsigned_ucast_eq take_bit_nat_eq_self)
  have b: "ucast (ucast v :: u64) = (ucast v :: byte)" "ucast ((ucast v :: u64) AND 127 OR 128) = (ucast (v AND 127 OR 128) :: byte)"
    by (auto intro!: bit_word_eqI simp: bit_simps bit_7_ints)
  have less: "(ucast v :: u64) < 128 \<longleftrightarrow> v < 128" unfolding word_less_nat_alt u by simp
  have d: "drop_bit 7 (ucast v :: u64) = ucast (drop_bit 7 v)" by (simp add: ucast_drop_bit_eq)
  show ?case
  proof (cases "v < 128")
    case True
    then show ?thesis using varint.simps [of v] varint.simps [of "ucast v :: u64"] less b by simp
  next
    case False
    then show ?thesis using 1 varint.simps [of v] varint.simps [of "ucast v :: u64"] less b d by simp
  qed
qed

lemma varint_loop_prefix:
  fixes w :: "'a::len word"
  assumes "8 \<le> LENGTH('a)" "n < length (varint w)"
  shows "varint_loop m s (r :: 'a word) (take n (varint w)) = None"
  using assms
proof (induction w arbitrary: n s r rule: varint.induct)
  case (1 w)
  show ?case
  proof (cases n)
    case (Suc k)
    have "\<not> w < 128" using 1(3) Suc varint.simps [of w] by (auto split: if_splits)
    then have e: "varint w = ucast ((w AND 127) OR 128) # varint (drop_bit 7 w)"
      using 1(2) by (subst varint.simps) simp
    have "varint_loop m s' r' (take k (varint (drop_bit 7 w))) = None" for s' and r' :: "'a word"
      using 1 e Suc \<open>\<not> w < 128\<close> by simp
    then show ?thesis using e Suc varint_byte(1) [of w] 1(2) by simp
  qed simp
qed

lemma GetVarint_prefix:
  fixes v :: u32 and w :: u64
  shows "n < length (varint v) \<Longrightarrow> GetVarint32 (take n (varint v)) = None"
  "k < length (varint w) \<Longrightarrow> GetVarint64 (take k (varint w)) = None"
proof -
  assume n: "n < length (varint v)"
  then have loop: "varint_loop 28 0 (0 :: u32) (take n (varint v)) = None" by (simp add: varint_loop_prefix)
  then show "GetVarint32 (take n (varint v)) = None"
    by (cases "take n (varint v)")
      (auto simp: GetVarint32_def GetVarint32Ptr_def GetVarint32PtrFallback_def split: if_splits)
qed (simp add: GetVarint64_def GetVarint64Ptr_def varint_loop_prefix)

lemma PutVarint_simps [simp]:
  "PutVarint32 dst v = dst @ varint v" "PutVarint64 dst w = dst @ varint w"
  by (simp_all add: PutVarint32_def PutVarint64_def EncodeVarint32_varint EncodeVarint64_varint)

lemma PutVarints_simps [simp]:
  "PutVarint32Varint32 dst v1 v2 = dst @ varint v1 @ varint v2"
  "PutVarint32Varint32Varint32 dst v1 v2 v3 = dst @ varint v1 @ varint v2 @ varint v3"
  "PutVarint64Varint64 dst w1 w2 = dst @ varint w1 @ varint w2"
  "PutVarint32Varint64 dst v1 w1 = dst @ varint v1 @ varint w1"
  "PutVarint32Varint32Varint64 dst v1 v2 w1 = dst @ varint v1 @ varint v2 @ varint w1"
  by (simp_all add: PutVarint32Varint32_def PutVarint32Varint32Varint32_def PutVarint64Varint64_def
      PutVarint32Varint64_def PutVarint32Varint32Varint64_def EncodeVarint32_varint EncodeVarint64_varint)

subsection \<open>Strings behind their length\<close>

abbreviation len32 :: "bytes \<Rightarrow> u32" where
  "len32 v \<equiv> of_nat (length v)"

lemma GetLengthPrefixedSlice_Put:
  assumes "length v < 2 ^ 32"
  shows "GetLengthPrefixedSlice (PutLengthPrefixedSlice [] v @ rest) = (Some v, rest)"
  using unat_of_nat_small [of "length v", where 'a = 32] assms
  by (simp add: GetLengthPrefixedSlice_def PutLengthPrefixedSlice_def)

lemma PutLengthPrefixedSlice_dst: "PutLengthPrefixedSlice dst v = dst @ PutLengthPrefixedSlice [] v"
  by (simp add: PutLengthPrefixedSlice_def)

lemma foldl_concat: "foldl (\<lambda>dst part. dst @ part) dst parts = dst @ concat parts"
  by (induction parts arbitrary: dst) simp_all

lemma foldl_lengths: "foldl (\<lambda>n part. n + length part) n parts = n + length (concat parts)"
  by (induction parts arbitrary: n) simp_all

lemma PutLengthPrefixedSliceParts_eq:
  "PutLengthPrefixedSliceParts dst parts = PutLengthPrefixedSlice dst (concat parts)"
  by (simp add: PutLengthPrefixedSliceParts_def PutLengthPrefixedSlice_def foldl_concat foldl_lengths)

lemma GetLengthPrefixedSlice_prefix:
  assumes "length v < 2 ^ 32" "n < length (PutLengthPrefixedSlice [] v)"
  shows "fst (GetLengthPrefixedSlice (take n (PutLengthPrefixedSlice [] v))) = None"
proof (cases "n < length (varint (len32 v))")
  case True
  then show ?thesis using GetVarint_prefix(1) [of n "len32 v"]
    by (simp add: GetLengthPrefixedSlice_def PutLengthPrefixedSlice_def)
next
  case False
  then show ?thesis using assms unat_of_nat_small [of "length v", where 'a = 32]
    by (auto simp: GetLengthPrefixedSlice_def PutLengthPrefixedSlice_def)
qed

lemma GetLengthPrefixedSlice_data_Put:
  assumes "length v < 2 ^ 32"
  shows "GetLengthPrefixedSlice_data (PutLengthPrefixedSlice [] v @ rest) = Inr v"
proof -
  let ?x = "varint (len32 v)" and ?p = "PutLengthPrefixedSlice [] v @ rest"
  have l: "length ?x \<le> 5" by (rule varint_lengths)
  then have t: "take 5 ?p = ?x @ take (5 - length ?x) (v @ rest)" by (simp add: PutLengthPrefixedSlice_def)
  have "GetVarint32Ptr (take 5 ?p) = Some (len32 v, take (5 - length ?x) (v @ rest))"
    unfolding t using GetVarint32_varint by (simp add: GetVarint32_def)
  moreover have "length (take 5 ?p) - length (take (5 - length ?x) (v @ rest)) = length ?x" unfolding t by simp
  moreover have "chunk (length ?x) (length v) ?p = v" by (simp add: PutLengthPrefixedSlice_def chunk_def)
  ultimately show ?thesis
    using unat_of_nat_small [of "length v", where 'a = 32] assms
    by (simp add: GetLengthPrefixedSlice_data_def Let_def PutLengthPrefixedSlice_def)
qed

lemma GetSliceUntil_split: "d \<notin> set a \<Longrightarrow> GetSliceUntil (a @ d # rest) d = (a, rest)"
proof -
  assume "d \<notin> set a"
  then have "takeWhile (\<lambda>c. c \<noteq> d) (a @ d # rest) = a" by (induction a) auto
  then show ?thesis by (simp add: GetSliceUntil_def)
qed

subsection \<open>Properties\<close>

text \<open>C32: Integers survive the variable-length encodings: decoding what \<open>PutVarint32\<close> or \<open>PutVarint64\<close> appended, with
  anything behind it, returns the integer and the rest; an encoding that is cut short anywhere is refused.
  The unrolled 32-bit encoder writes what the 64-bit loop writes, and \<open>VarintLength\<close> is the length, at most ten bytes.\<close>

theorem varint_codec:
  assumes "n < length (PutVarint32 [] v)" and "k < length (PutVarint64 [] w)"
  shows "GetVarint32 (PutVarint32 [] v @ rest) = Some (v, rest) \<and> GetVarint64 (PutVarint64 [] w @ rest) = Some (w, rest) \<and>
    GetVarint32 (take n (PutVarint32 [] v)) = None \<and> GetVarint64 (take k (PutVarint64 [] w)) = None \<and>
    EncodeVarint32 v = EncodeVarint64 (ucast v) \<and> VarintLength w = length (EncodeVarint64 w) \<and>
    VarintLength w \<le> kMaxVarint64Length"
  using assms varint_lengths(2) [of w]
  by (simp add: GetVarint_prefix EncodeVarint32_varint EncodeVarint64_varint varint_ucast VarintLength_eq kMaxVarint64Length_def)

theorem varint_codec_witness:
  "GetVarint32 (PutVarint32 [] 300 @ [7]) = Some (300, [7]) \<and> GetVarint32 (take 1 (PutVarint32 [] 300)) = None \<and>
   GetVarint64 (PutVarint64 [] 5 @ []) = Some (5, [])"
proof -
  have "\<not> (300 :: u32) < 128" "drop_bit 7 (300 :: u32) < 128" by (simp_all add: drop_bit_eq_div word_less_nat_alt)
  then have "length (varint (300 :: u32)) = 2" by (simp add: varint_next varint_last)
  then have "1 < length (PutVarint32 [] 300)" by simp
  moreover have "0 < length (PutVarint64 [] 5)" by simp
  ultimately show ?thesis using varint_codec [of 1 300 0 5 "[7]"] varint_codec [of 1 300 0 5 "[]"] by blast
qed

text \<open>C33: A byte string shorter than four gigabytes survives the length-prefixed encoding, also when it is written in parts and
  when it is read from trusted memory without a limit; every truncation is refused.\<close>

theorem length_prefixed_codec:
  assumes "length v < 2 ^ 32" and "n < length (PutLengthPrefixedSlice [] v)" and "v = concat parts"
  shows "GetLengthPrefixedSlice (PutLengthPrefixedSlice [] v @ rest) = (Some v, rest) \<and>
    GetLengthPrefixedSlice_data (PutLengthPrefixedSlice [] v @ rest) = Inr v \<and>
    fst (GetLengthPrefixedSlice (take n (PutLengthPrefixedSlice [] v))) = None \<and>
    PutLengthPrefixedSliceParts dst parts = dst @ PutLengthPrefixedSlice [] v"
proof (intro conjI)
  show "PutLengthPrefixedSliceParts dst parts = dst @ PutLengthPrefixedSlice [] v"
    unfolding PutLengthPrefixedSliceParts_eq assms(3) by (rule PutLengthPrefixedSlice_dst)
qed (fact GetLengthPrefixedSlice_Put [OF assms(1)] GetLengthPrefixedSlice_data_Put [OF assms(1)]
    GetLengthPrefixedSlice_prefix [OF assms(1,2)])+

theorem length_prefixed_codec_witness:
  "GetLengthPrefixedSlice (PutLengthPrefixedSlice [] [1, 2, 3] @ [9]) = (Some [1, 2, 3], [9]) \<and>
   fst (GetLengthPrefixedSlice (take 2 (PutLengthPrefixedSlice [] [1, 2, 3]))) = None \<and>
   PutLengthPrefixedSliceParts [] [[1], [2, 3]] = PutLengthPrefixedSlice [] [1, 2, 3]"
proof -
  have "2 < length (PutLengthPrefixedSlice [] [1, 2, 3])" by (simp add: PutLengthPrefixedSlice_def)
  moreover have "length [1, 2, 3 :: byte] < 2 ^ 32" "[1, 2, 3 :: byte] = concat [[1], [2, 3]]" by simp_all
  ultimately show ?thesis using length_prefixed_codec [of "[1, 2, 3]" 2 "[[1], [2, 3]]" "[9]" "[]"] by (simp only: append_Nil simp_thms)
qed

end
