(* ===== verification/InternalKey.thy ===== *)
theory InternalKey
  imports Coding
begin

text \<open>
  The keys of RocksDB: comparators (src/rocksdb-5.8/util/comparator.cc) and internal keys (src/rocksdb-5.8/db/dbformat.h, dbformat.cc), which
  are a user key followed by eight bytes that hold a sequence number and a value type. A comparator is a record of its
  virtual functions. \<open>ValueType\<close> is an \<open>unsigned char\<close> enumeration and the code casts arbitrary bytes to it, so it is a byte.
  Assertions are compiled out; an access that they exclude is a fault.

  The locale \<open>comparator\<close> states that a comparator is a total order, \<open>comparator_sep\<close> adds the contract of
  \<open>FindShortestSeparator\<close>. The lemmas show that the order of encoded internal keys is the order of parsed ones, that
  internal separators lie between their arguments, and that the buffer of an \<open>IterKey\<close> never overflows.
\<close>

subsection \<open>Comparators\<close>

record Comparator =
  cmp_Compare :: "bytes \<Rightarrow> bytes \<Rightarrow> int"
  cmp_Equal :: "bytes \<Rightarrow> bytes \<Rightarrow> bool"
  cmp_FindShortestSeparator :: "bytes \<Rightarrow> bytes \<Rightarrow> bytes"
  cmp_FindShortSuccessor :: "bytes \<Rightarrow> bytes"

text \<open>The loop that finds the first byte in which two strings differ.\<close>

fun diff_index :: "bytes \<Rightarrow> bytes \<Rightarrow> nat" where
  "diff_index (x # xs) (y # ys) = (if x = y then diff_index xs ys + 1 else 0)"
| "diff_index _ _ = 0"

text \<open>The loops that increment the first byte that is not \<open>0xff\<close> and drop what follows.\<close>

fun increment_first :: "bytes \<Rightarrow> bytes" where
  "increment_first [] = []"
| "increment_first (b # bs) = (if b < 0xff then [b + 1] else b # increment_first bs)"

definition FindShortestSeparator :: "bytes \<Rightarrow> bytes \<Rightarrow> bytes" where
  "FindShortestSeparator start limit =
     (let min_length = min (length start) (length limit);
          d = diff_index start limit
      in if d \<ge> min_length then start
         else
           let start_byte = start ! d; limit_byte = limit ! d
           in if start_byte \<ge> limit_byte then start
              else if d < length limit - 1 \<or> unat start_byte + 1 < unat limit_byte then take d start @ [start_byte + 1]
              else take (d + 1) start @ increment_first (drop (d + 1) start))"

definition FindShortSuccessor :: "bytes \<Rightarrow> bytes" where
  "FindShortSuccessor key = increment_first key"

definition BytewiseComparator :: Comparator where
  "BytewiseComparator = \<lparr>cmp_Compare = slice_compare, cmp_Equal = slice_eq,
     cmp_FindShortestSeparator = FindShortestSeparator, cmp_FindShortSuccessor = FindShortSuccessor\<rparr>"

definition ReverseBytewiseComparator :: Comparator where
  "ReverseBytewiseComparator = BytewiseComparator\<lparr>cmp_Compare := (\<lambda>a b. - slice_compare a b)\<rparr>"

subsection \<open>Internal keys\<close>

type_synonym ValueType = byte

abbreviation (input) kTypeDeletion :: ValueType where "kTypeDeletion \<equiv> 0x0"
abbreviation (input) kTypeValue :: ValueType where "kTypeValue \<equiv> 0x1"
abbreviation (input) kTypeMerge :: ValueType where "kTypeMerge \<equiv> 0x2"
abbreviation (input) kTypeLogData :: ValueType where "kTypeLogData \<equiv> 0x3"
abbreviation (input) kTypeColumnFamilyDeletion :: ValueType where "kTypeColumnFamilyDeletion \<equiv> 0x4"
abbreviation (input) kTypeColumnFamilyValue :: ValueType where "kTypeColumnFamilyValue \<equiv> 0x5"
abbreviation (input) kTypeColumnFamilyMerge :: ValueType where "kTypeColumnFamilyMerge \<equiv> 0x6"
abbreviation (input) kTypeSingleDeletion :: ValueType where "kTypeSingleDeletion \<equiv> 0x7"
abbreviation (input) kTypeColumnFamilySingleDeletion :: ValueType where "kTypeColumnFamilySingleDeletion \<equiv> 0x8"
abbreviation (input) kTypeBeginPrepareXID :: ValueType where "kTypeBeginPrepareXID \<equiv> 0x9"
abbreviation (input) kTypeEndPrepareXID :: ValueType where "kTypeEndPrepareXID \<equiv> 0xA"
abbreviation (input) kTypeCommitXID :: ValueType where "kTypeCommitXID \<equiv> 0xB"
abbreviation (input) kTypeRollbackXID :: ValueType where "kTypeRollbackXID \<equiv> 0xC"
abbreviation (input) kTypeNoop :: ValueType where "kTypeNoop \<equiv> 0xD"
abbreviation (input) kTypeColumnFamilyRangeDeletion :: ValueType where "kTypeColumnFamilyRangeDeletion \<equiv> 0xE"
abbreviation (input) kTypeRangeDeletion :: ValueType where "kTypeRangeDeletion \<equiv> 0xF"

abbreviation (input) kValueTypeForSeek :: ValueType where "kValueTypeForSeek \<equiv> kTypeSingleDeletion"
abbreviation (input) kValueTypeForSeekForPrev :: ValueType where "kValueTypeForSeekForPrev \<equiv> kTypeDeletion"

definition IsValueType :: "ValueType \<Rightarrow> bool" where
  "IsValueType t \<longleftrightarrow> t \<le> kTypeMerge \<or> t = kTypeSingleDeletion"

definition IsExtendedValueType :: "ValueType \<Rightarrow> bool" where
  "IsExtendedValueType t \<longleftrightarrow> IsValueType t \<or> t = kTypeRangeDeletion"

definition kMaxSequenceNumber :: u64 where
  "kMaxSequenceNumber = push_bit 56 1 - 1"

definition kDisableGlobalSequenceNumber :: u64 where
  "kDisableGlobalSequenceNumber = 0xFFFFFFFFFFFFFFFF"

record ParsedInternalKey =
  user_key :: bytes
  sequence :: u64
  vtype :: ValueType

definition ParsedInternalKey_clear :: "ParsedInternalKey \<Rightarrow> ParsedInternalKey" where
  "ParsedInternalKey_clear k = k\<lparr>user_key := [], sequence := 0, vtype := kTypeDeletion\<rparr>"

definition InternalKeyEncodingLength :: "ParsedInternalKey \<Rightarrow> nat" where
  "InternalKeyEncodingLength key = length (user_key key) + 8"

definition PackSequenceAndType :: "u64 \<Rightarrow> ValueType \<Rightarrow> u64" where
  "PackSequenceAndType s t = push_bit 8 s OR ucast t"

definition UnPackSequenceAndType :: "u64 \<Rightarrow> u64 \<times> ValueType" where
  "UnPackSequenceAndType packed = (drop_bit 8 packed, ucast (packed AND 0xff))"

definition AppendInternalKey :: "bytes \<Rightarrow> ParsedInternalKey \<Rightarrow> bytes" where
  "AppendInternalKey result key = PutFixed64 (result @ user_key key) (PackSequenceAndType (sequence key) (vtype key))"

definition AppendInternalKeyFooter :: "bytes \<Rightarrow> u64 \<Rightarrow> ValueType \<Rightarrow> bytes" where
  "AppendInternalKeyFooter result s t = PutFixed64 result (PackSequenceAndType s t)"

definition ExtractUserKey :: "bytes \<Rightarrow> bytes res" where
  "ExtractUserKey internal_key =
     (if length internal_key \<ge> 8 then Inr (take (length internal_key - 8) internal_key) else Inl Over_Read)"

definition footer_num :: "bytes \<Rightarrow> u64 res" where
  "footer_num internal_key =
     (if length internal_key \<ge> 8 then DecodeFixed64 (drop (length internal_key - 8) internal_key) else Inl Over_Read)"

definition ExtractValueType :: "bytes \<Rightarrow> ValueType res" where
  "ExtractValueType internal_key = rbind (footer_num internal_key) (\<lambda>num. Inr (ucast (num AND 0xff)))"

definition GetInternalKeySeqno :: "bytes \<Rightarrow> u64 res" where
  "GetInternalKeySeqno internal_key = rbind (footer_num internal_key) (\<lambda>num. Inr (drop_bit 8 num))"

definition ParseInternalKey :: "bytes \<Rightarrow> ParsedInternalKey option" where
  "ParseInternalKey internal_key =
     (let n = length internal_key
      in if n < 8 then None
         else (case footer_num internal_key of
                 Inl e \<Rightarrow> None
               | Inr num \<Rightarrow>
                   let c = ucast (num AND 0xff)
                   in if IsExtendedValueType c
                      then Some \<lparr>user_key = take (n - 8) internal_key, sequence = drop_bit 8 num, vtype = c\<rparr>
                      else None))"

definition UpdateInternalKey :: "bytes \<Rightarrow> u64 \<Rightarrow> ValueType \<Rightarrow> bytes res" where
  "UpdateInternalKey ikey s t =
     (if length ikey \<ge> 8 then Inr (overwrite ikey (length ikey - 8) (EncodeFixed64 (push_bit 8 s OR ucast t)))
      else Inl Heap_Overflow)"

text \<open>The class \<open>InternalKey\<close> is its string \<open>rep_\<close>.\<close>

definition InternalKey_new :: "bytes \<Rightarrow> u64 \<Rightarrow> ValueType \<Rightarrow> bytes" where
  "InternalKey_new uk s t = AppendInternalKey [] \<lparr>user_key = uk, sequence = s, vtype = t\<rparr>"

definition SetMaxPossibleForUserKey :: "bytes \<Rightarrow> bytes \<Rightarrow> bytes" where
  "SetMaxPossibleForUserKey rep uk =
     AppendInternalKey rep \<lparr>user_key = uk, sequence = kMaxSequenceNumber, vtype = kValueTypeForSeek\<rparr>"

definition SetMinPossibleForUserKey :: "bytes \<Rightarrow> bytes \<Rightarrow> bytes" where
  "SetMinPossibleForUserKey rep uk = AppendInternalKey rep \<lparr>user_key = uk, sequence = 0, vtype = 0\<rparr>"

definition InternalKey_Valid :: "bytes \<Rightarrow> bool" where
  "InternalKey_Valid rep \<longleftrightarrow> ParseInternalKey rep \<noteq> None"

definition InternalKey_SetFrom :: "bytes \<Rightarrow> ParsedInternalKey \<Rightarrow> bytes" where
  "InternalKey_SetFrom rep p = AppendInternalKey [] p"

definition ConvertFromUserKey :: "bytes \<Rightarrow> u64 \<Rightarrow> ValueType \<Rightarrow> bytes" where
  "ConvertFromUserKey rep s t = AppendInternalKeyFooter rep s t"

subsection \<open>The comparator of internal keys\<close>

definition InternalKeyComparator_Compare :: "Comparator \<Rightarrow> bytes \<Rightarrow> bytes \<Rightarrow> int res" where
  "InternalKeyComparator_Compare C akey bkey =
     rbind (ExtractUserKey akey) (\<lambda>a. rbind (ExtractUserKey bkey) (\<lambda>b.
     let r = cmp_Compare C a b
     in if r = 0 then
          rbind (footer_num akey) (\<lambda>anum. rbind (footer_num bkey) (\<lambda>bnum.
          Inr (if anum > bnum then -1 else if anum < bnum then 1 else r)))
        else Inr r))"

definition InternalKeyComparator_Compare_parsed :: "Comparator \<Rightarrow> ParsedInternalKey \<Rightarrow> ParsedInternalKey \<Rightarrow> int" where
  "InternalKeyComparator_Compare_parsed C a b =
     (let r = cmp_Compare C (user_key a) (user_key b)
      in if r = 0 then
           if sequence a > sequence b then -1
           else if sequence a < sequence b then 1
           else if vtype a > vtype b then -1
           else if vtype a < vtype b then 1
           else r
         else r)"

definition InternalKeyComparator_FindShortestSeparator :: "Comparator \<Rightarrow> bytes \<Rightarrow> bytes \<Rightarrow> bytes res" where
  "InternalKeyComparator_FindShortestSeparator C start limit =
     rbind (ExtractUserKey start) (\<lambda>user_start. rbind (ExtractUserKey limit) (\<lambda>user_limit.
     let tmp = cmp_FindShortestSeparator C user_start user_limit
     in Inr (if length tmp \<le> length user_start \<and> cmp_Compare C user_start tmp < 0
             then PutFixed64 tmp (PackSequenceAndType kMaxSequenceNumber kValueTypeForSeek)
             else start)))"

definition InternalKeyComparator_FindShortSuccessor :: "Comparator \<Rightarrow> bytes \<Rightarrow> bytes res" where
  "InternalKeyComparator_FindShortSuccessor C key =
     rbind (ExtractUserKey key) (\<lambda>uk.
     let tmp = cmp_FindShortSuccessor C uk
     in Inr (if length tmp \<le> length uk \<and> cmp_Compare C uk tmp < 0
             then PutFixed64 tmp (PackSequenceAndType kMaxSequenceNumber kValueTypeForSeek)
             else key))"

subsection \<open>Lookup keys\<close>

text \<open>The buffer from \<open>start_\<close> to \<open>end_\<close> and the offset of \<open>kstart_\<close> in it.\<close>

record LookupKey =
  lk_data :: bytes
  kstart :: nat

definition LookupKey_new :: "bytes \<Rightarrow> u64 \<Rightarrow> LookupKey" where
  "LookupKey_new uk s =
     (let klength = EncodeVarint32 (of_nat (length uk + 8))
      in \<lparr>lk_data = klength @ uk @ EncodeFixed64 (PackSequenceAndType s kValueTypeForSeek), kstart = length klength\<rparr>)"

definition memtable_key :: "LookupKey \<Rightarrow> bytes" where
  "memtable_key k = lk_data k"

definition internal_key :: "LookupKey \<Rightarrow> bytes" where
  "internal_key k = drop (kstart k) (lk_data k)"

definition LookupKey_user_key :: "LookupKey \<Rightarrow> bytes" where
  "LookupKey_user_key k = take (length (lk_data k) - kstart k - 8) (drop (kstart k) (lk_data k))"

subsection \<open>Range tombstones\<close>

record RangeTombstone =
  rt_start :: bytes
  rt_end :: bytes
  rt_seq :: u64

definition RangeTombstone_parsed :: "ParsedInternalKey \<Rightarrow> bytes \<Rightarrow> RangeTombstone" where
  "RangeTombstone_parsed parsed_key v = \<lparr>rt_start = user_key parsed_key, rt_end = v, rt_seq = sequence parsed_key\<rparr>"

definition Serialize :: "RangeTombstone \<Rightarrow> bytes \<times> bytes" where
  "Serialize t = (InternalKey_new (rt_start t) (rt_seq t) kTypeRangeDeletion, rt_end t)"

definition SerializeKey :: "RangeTombstone \<Rightarrow> bytes" where
  "SerializeKey t = InternalKey_new (rt_start t) (rt_seq t) kTypeRangeDeletion"

definition SerializeEndKey :: "RangeTombstone \<Rightarrow> bytes" where
  "SerializeEndKey t = InternalKey_new (rt_end t) (rt_seq t) kTypeRangeDeletion"

subsection \<open>The key of an iterator\<close>

text \<open>
  \<open>ik_buf\<close> is the memory of \<open>buf_\<close>, so \<open>buf_size_\<close> is its length; \<open>ik_ext\<close> is the memory that \<open>key_\<close> points to when the key is
  pinned. Fresh memory holds arbitrary bytes \<open>u\<close>.
\<close>

record IterKey =
  ik_buf :: bytes
  ik_ext :: "bytes option"
  key_size :: nat
  is_user_key :: bool

definition IterKey_new :: "(nat \<Rightarrow> byte) \<Rightarrow> IterKey" where
  "IterKey_new u = \<lparr>ik_buf = map u [0..<32], ik_ext = None, key_size = 0, is_user_key = True\<rparr>"

definition key_mem :: "IterKey \<Rightarrow> bytes" where
  "key_mem k = (case ik_ext k of Some m \<Rightarrow> m | None \<Rightarrow> ik_buf k)"

definition IsKeyPinned :: "IterKey \<Rightarrow> bool" where
  "IsKeyPinned k \<longleftrightarrow> ik_ext k \<noteq> None"

definition IterKey_GetInternalKey :: "IterKey \<Rightarrow> bytes" where
  "IterKey_GetInternalKey k = take (key_size k) (key_mem k)"

definition IterKey_GetUserKey :: "IterKey \<Rightarrow> bytes res" where
  "IterKey_GetUserKey k =
     (if is_user_key k then Inr (take (key_size k) (key_mem k))
      else if key_size k \<ge> 8 then Inr (take (key_size k - 8) (key_mem k))
      else Inl Over_Read)"

definition IterKey_Clear :: "IterKey \<Rightarrow> IterKey" where
  "IterKey_Clear k = k\<lparr>key_size := 0\<rparr>"

definition EnlargeBufferIfNeeded :: "(nat \<Rightarrow> byte) \<Rightarrow> nat \<Rightarrow> IterKey \<Rightarrow> IterKey" where
  "EnlargeBufferIfNeeded u n k = (if n > length (ik_buf k) then k\<lparr>ik_buf := map u [0..<n], key_size := 0\<rparr> else k)"

definition copy_to_buf :: "nat \<Rightarrow> bytes \<Rightarrow> IterKey \<Rightarrow> IterKey res" where
  "copy_to_buf off d k =
     (if off + length d \<le> length (ik_buf k) then Inr (k\<lparr>ik_buf := overwrite (ik_buf k) off d\<rparr>) else Inl Heap_Overflow)"

definition TrimAppend :: "(nat \<Rightarrow> byte) \<Rightarrow> nat \<Rightarrow> bytes \<Rightarrow> nat \<Rightarrow> IterKey \<Rightarrow> IterKey res" where
  "TrimAppend u shared_len non_shared_data non_shared_len k =
     (let total_size = shared_len + non_shared_len
      in if shared_len > length (key_mem k) \<or> non_shared_len > length non_shared_data then Inl Over_Read
         else
           rbind (if IsKeyPinned k then copy_to_buf 0 (take shared_len (key_mem k)) (EnlargeBufferIfNeeded u total_size k)
                  else if total_size > length (ik_buf k)
                  then Inr (k\<lparr>ik_buf := overwrite (map u [0..<total_size]) 0 (take shared_len (key_mem k))\<rparr>)
                  else Inr k) (\<lambda>k1.
           rbind (copy_to_buf shared_len (take non_shared_len non_shared_data) k1) (\<lambda>k2.
           Inr (k2\<lparr>ik_ext := None, key_size := total_size\<rparr>))))"

definition SetKeyImpl :: "(nat \<Rightarrow> byte) \<Rightarrow> bytes \<Rightarrow> bool \<Rightarrow> IterKey \<Rightarrow> IterKey res" where
  "SetKeyImpl u key copy k =
     (if copy
      then rbind (copy_to_buf 0 key (EnlargeBufferIfNeeded u (length key) k)) (\<lambda>k1.
        Inr (k1\<lparr>ik_ext := None, key_size := length key\<rparr>))
      else Inr (k\<lparr>ik_ext := Some key, key_size := length key\<rparr>))"

definition IterKey_SetUserKey :: "(nat \<Rightarrow> byte) \<Rightarrow> bytes \<Rightarrow> bool \<Rightarrow> IterKey \<Rightarrow> IterKey res" where
  "IterKey_SetUserKey u key copy k = SetKeyImpl u key copy (k\<lparr>is_user_key := True\<rparr>)"

definition IterKey_SetInternalKey :: "(nat \<Rightarrow> byte) \<Rightarrow> bytes \<Rightarrow> bool \<Rightarrow> IterKey \<Rightarrow> IterKey res" where
  "IterKey_SetInternalKey u key copy k = SetKeyImpl u key copy (k\<lparr>is_user_key := False\<rparr>)"

definition IterKey_SetInternalKey_parsed ::
    "(nat \<Rightarrow> byte) \<Rightarrow> bytes \<Rightarrow> ParsedInternalKey \<Rightarrow> IterKey \<Rightarrow> (ParsedInternalKey \<times> IterKey) res" where
  "IterKey_SetInternalKey_parsed u key ikey k =
     (if length key < 8 then Inl Over_Read
      else rbind (IterKey_SetInternalKey u key True k) (\<lambda>k1.
        Inr (ikey\<lparr>user_key := take (length key - 8) (key_mem k1)\<rparr>, k1)))"

definition OwnKey :: "(nat \<Rightarrow> byte) \<Rightarrow> IterKey \<Rightarrow> IterKey res" where
  "OwnKey u k =
     (let n = key_size k; k1 = EnlargeBufferIfNeeded u n k
      in rbind (copy_to_buf 0 (take n (key_mem k)) (k1\<lparr>key_size := n\<rparr>)) (\<lambda>k2. Inr (k2\<lparr>ik_ext := None\<rparr>)))"

definition IterKey_UpdateInternalKey :: "u64 \<Rightarrow> ValueType \<Rightarrow> IterKey \<Rightarrow> IterKey res" where
  "IterKey_UpdateInternalKey s t k =
     (if key_size k \<ge> 8 then copy_to_buf (key_size k - 8) (EncodeFixed64 (push_bit 8 s OR ucast t)) k
      else Inl Heap_Overflow)"

definition IterKey_SetInternalKey_parts ::
    "(nat \<Rightarrow> byte) \<Rightarrow> bytes \<Rightarrow> bytes \<Rightarrow> u64 \<Rightarrow> ValueType \<Rightarrow> IterKey \<Rightarrow> IterKey res" where
  "IterKey_SetInternalKey_parts u key_prefix uk s t k =
     (let psize = length key_prefix; usize = length uk
      in rbind (if psize > 0 then copy_to_buf 0 key_prefix (EnlargeBufferIfNeeded u (psize + usize + 8) k)
                else Inr (EnlargeBufferIfNeeded u (psize + usize + 8) k)) (\<lambda>k1.
         rbind (copy_to_buf psize uk k1) (\<lambda>k2.
         rbind (copy_to_buf (usize + psize) (EncodeFixed64 (PackSequenceAndType s t)) k2) (\<lambda>k3.
         Inr (k3\<lparr>ik_ext := None, key_size := psize + usize + 8, is_user_key := False\<rparr>)))))"

subsection \<open>The byte order\<close>

lemma diff_index_prefix:
  "diff_index s l \<le> length s" "diff_index s l \<le> length l" "take (diff_index s l) s = take (diff_index s l) l"
  by (induction s l rule: diff_index.induct) auto

lemma diff_index_differs:
  "diff_index s l < length s \<Longrightarrow> diff_index s l < length l \<Longrightarrow> s ! diff_index s l \<noteq> l ! diff_index s l"
  by (induction s l rule: diff_index.induct) auto

lemma lex_less_append [simp]: "lex_less (p @ a) (p @ b) \<longleftrightarrow> lex_less a b"
  by (induction p) simp_all

lemma increment_first_le: "increment_first k = k \<or> lex_less k (increment_first k)"
proof (induction k)
  case (Cons b bs)
  have "b < b + 1" if "b < 0xff" using that by (simp add: word_less_nat_alt unat_add_small)
  then show ?case using Cons by auto
qed simp

lemma increment_first_length: "length (increment_first k) \<le> length k"
  by (induction k) simp_all

lemma split_at_diff:
  assumes "diff_index s l < length s" "diff_index s l < length l"
  obtains p a as b bs where "s = p @ a # as" "l = p @ b # bs" "a \<noteq> b" "length p = diff_index s l"
    "s ! diff_index s l = a" "l ! diff_index s l = b"
proof -
  let ?d = "diff_index s l"
  have "s = take ?d s @ s ! ?d # drop (Suc ?d) s" "l = take ?d s @ l ! ?d # drop (Suc ?d) l"
    using assms id_take_nth_drop diff_index_prefix(3) by metis+
  then show thesis using that [of "take ?d s" "s ! ?d" _ "l ! ?d"] diff_index_differs [OF assms] assms by auto
qed

lemma lex_less_diff:
  assumes "lex_less s l" "diff_index s l < length s"
  obtains p a as b bs where "s = p @ a # as" "l = p @ b # bs" "a < b" "length p = diff_index s l"
    "s ! diff_index s l = a" "l ! diff_index s l = b" "diff_index s l < length l"
proof -
  have "diff_index s l < length l" using assms
    by (induction s l rule: diff_index.induct) (auto split: if_splits)
  then show thesis using split_at_diff [OF assms(2)] assms(1) that by (metis lex_less.simps(3) lex_less_append)
qed

text \<open>A separator is not before its first argument, before the limit, and not longer.\<close>

lemma FindShortestSeparator_between:
  assumes "lex_less s l"
  shows "FindShortestSeparator s l = s \<or> lex_less s (FindShortestSeparator s l)"
    and "lex_less (FindShortestSeparator s l) l" and "length (FindShortestSeparator s l) \<le> length s"
proof -
  let ?d = "diff_index s l" and ?r = "FindShortestSeparator s l"
  have "(?r = s \<or> lex_less s ?r) \<and> lex_less ?r l \<and> length ?r \<le> length s"
  proof (cases "?d < length s")
    case False
    then show ?thesis using assms by (auto simp: FindShortestSeparator_def Let_def)
  next
    case True
    then obtain p a as b bs where e: "s = p @ a # as" "l = p @ b # bs" "a < b" "length p = ?d"
      "s ! ?d = a" "l ! ?d = b" "?d < length l" by (rule lex_less_diff [OF assms])
    have up: "unat (a + 1) = unat a + 1" using e(3) unsigned_less [of b, where 'a = nat]
      by (simp add: word_less_nat_alt unat_add_small)
    then have le: "a < a + 1" "a + 1 = b \<or> a + 1 < b" using e(3) word_unat_eq_iff [of "a + 1" b] by (auto simp: word_less_nat_alt)
    have n: "\<not> b \<le> a" using e(3) by simp
    show ?thesis
    proof (cases "?d < length l - 1 \<or> unat a + 1 < unat b")
      case True
      then have r: "?r = p @ [a + 1]" using e n by (simp add: FindShortestSeparator_def Let_def)
      have "bs \<noteq> [] \<or> a + 1 < b" using True e(2,4) up by (auto simp: word_less_nat_alt)
      then have "lex_less ?r l" using r e(2) le by (cases bs) auto
      then show ?thesis using r e(1) le by simp
    next
      case False
      then have r: "?r = p @ a # increment_first as" using e n by (simp add: FindShortestSeparator_def Let_def)
      then show ?thesis using e(1-3) increment_first_le [of as] increment_first_length [of as] by auto
    qed
  qed
  then show "?r = s \<or> lex_less s ?r" "lex_less ?r l" "length ?r \<le> length s" by blast+
qed

lemma FindShortestSeparator_reverse: "lex_less l s \<Longrightarrow> FindShortestSeparator s l = s"
proof (cases "diff_index s l < length s \<and> diff_index s l < length l")
  case True
  assume ls: "lex_less l s"
  obtain p a as b bs where "s = p @ a # as" "l = p @ b # bs" "s ! diff_index s l = a" "l ! diff_index s l = b" "a \<noteq> b"
    using split_at_diff [of s l] True by metis
  then show ?thesis using ls by (auto simp: FindShortestSeparator_def Let_def)
qed (auto simp: FindShortestSeparator_def Let_def)

subsection \<open>What a comparator promises\<close>

locale comparator =
  fixes C :: Comparator
  assumes compare_0: "cmp_Compare C a b = 0 \<longleftrightarrow> a = b"
    and compare_swap: "cmp_Compare C a b < 0 \<longleftrightarrow> cmp_Compare C b a > 0"
    and compare_trans: "cmp_Compare C a b < 0 \<Longrightarrow> cmp_Compare C b c < 0 \<Longrightarrow> cmp_Compare C a c < 0"
    and equal_iff: "cmp_Equal C a b \<longleftrightarrow> a = b"

locale comparator_sep = comparator +
  assumes separator: "cmp_Compare C s l < 0 \<Longrightarrow>
      cmp_Compare C s (cmp_FindShortestSeparator C s l) \<le> 0 \<and> cmp_Compare C (cmp_FindShortestSeparator C s l) l < 0"
    and separator_same: "cmp_FindShortestSeparator C s s = s"

lemma diff_index_same [simp]: "diff_index s s = length s"
  by (induction s) simp_all

lemma FindShortestSeparator_same [simp]: "FindShortestSeparator s s = s"
  by (simp add: FindShortestSeparator_def)

lemma lex_less_asym: "lex_less a b \<Longrightarrow> \<not> lex_less b a"
  using lex_less_trans lex_less_irrefl by blast

lemma slice_compare_refl [simp]: "slice_compare a a = 0"
  by (simp add: slice_compare_cases)

lemma slice_compare_pos: "slice_compare a b > 0 \<longleftrightarrow> lex_less b a"
  using lex_less_total [of a b] lex_less_asym [of a b] by (auto simp: slice_compare_cases)

interpretation bytewise: comparator_sep BytewiseComparator
proof
  fix s l assume "cmp_Compare BytewiseComparator s l < 0"
  then show "cmp_Compare BytewiseComparator s (cmp_FindShortestSeparator BytewiseComparator s l) \<le> 0 \<and>
      cmp_Compare BytewiseComparator (cmp_FindShortestSeparator BytewiseComparator s l) l < 0"
    using FindShortestSeparator_between [of s l] by (auto simp: BytewiseComparator_def slice_compare_signs)
qed (auto simp: BytewiseComparator_def slice_compare_signs slice_compare_pos dest: lex_less_trans)

interpretation reverse_bytewise: comparator_sep ReverseBytewiseComparator
proof
  fix s l assume "cmp_Compare ReverseBytewiseComparator s l < 0"
  then show "cmp_Compare ReverseBytewiseComparator s (cmp_FindShortestSeparator ReverseBytewiseComparator s l) \<le> 0 \<and>
      cmp_Compare ReverseBytewiseComparator (cmp_FindShortestSeparator ReverseBytewiseComparator s l) l < 0"
    using FindShortestSeparator_reverse [of l s]
    by (auto simp: ReverseBytewiseComparator_def BytewiseComparator_def slice_compare_signs slice_compare_pos)
qed (auto simp: ReverseBytewiseComparator_def BytewiseComparator_def slice_compare_signs slice_compare_pos dest: lex_less_trans)

subsection \<open>Encoded internal keys\<close>

lemma unat_Pack:
  assumes "s \<le> kMaxSequenceNumber"
  shows "unat (PackSequenceAndType s t) = unat s * 256 + unat t"
proof -
  have s: "unat s < 2 ^ 56" using assms by (simp add: kMaxSequenceNumber_def word_le_nat_alt)
  have t: "unat t < 256" using unsigned_less [of t, where 'a = nat] by simp
  have "unat (push_bit 8 s) = unat s * 256" using s by (simp add: unsigned_push_bit_eq take_bit_nat_eq_self push_bit_nat_def)
  moreover have "unat (ucast t :: u64) = unat t" using t by (simp add: unsigned_ucast_eq take_bit_nat_eq_self)
  moreover have "PackSequenceAndType s t = push_bit 8 s + ucast t"
    unfolding PackSequenceAndType_def by (rule disjunctive_add [symmetric]) (auto simp: bit_simps dest: bit_imp_le_length)
  ultimately show ?thesis using s t by (simp add: unat_add_small)
qed

lemma UnPack_Pack:
  assumes "s \<le> kMaxSequenceNumber"
  shows "UnPackSequenceAndType (PackSequenceAndType s t) = (s, t)"
proof -
  have s: "unat s < 2 ^ 56" using assms by (simp add: kMaxSequenceNumber_def word_le_nat_alt)
  have t: "unat t < 256" using unsigned_less [of t, where 'a = nat] by simp
  have "unat (drop_bit 8 (PackSequenceAndType s t)) = unat s" using t by (simp add: unat_drop unat_Pack [OF assms] del: unsigned_drop_bit_eq)
  then have "drop_bit 8 (PackSequenceAndType s t) = s" by (simp only: word_unat_eq_iff)
  moreover have "ucast (PackSequenceAndType s t AND 0xff) = t"
    unfolding ucast_low_byte PackSequenceAndType_def by (rule bit_word_eqI) (auto simp: bit_simps)
  ultimately show ?thesis by (simp add: UnPackSequenceAndType_def)
qed

lemma Pack_less:
  assumes "s \<le> kMaxSequenceNumber" "s' \<le> kMaxSequenceNumber"
  shows "PackSequenceAndType s t < PackSequenceAndType s' t' \<longleftrightarrow> s < s' \<or> s = s' \<and> t < t'"
  using unsigned_less [of t, where 'a = nat] unsigned_less [of t', where 'a = nat]
  by (auto simp: word_less_nat_alt unat_Pack assms word_unat_eq_iff)

text \<open>A parsed key that can be encoded.\<close>

definition ikey_ok :: "ParsedInternalKey \<Rightarrow> bool" where
  "ikey_ok k \<longleftrightarrow> sequence k \<le> kMaxSequenceNumber \<and> IsExtendedValueType (vtype k)"

definition encode_ikey :: "ParsedInternalKey \<Rightarrow> bytes" where
  "encode_ikey k = user_key k @ to_le 8 (PackSequenceAndType (sequence k) (vtype k))"

lemma AppendInternalKey_eq: "AppendInternalKey r k = r @ encode_ikey k"
  by (simp add: AppendInternalKey_def encode_ikey_def)

lemma internal_key_parts [simp]:
  "ExtractUserKey (u @ to_le 8 (n :: u64)) = Inr u" "footer_num (u @ to_le 8 n) = Inr n"
  using DecodeFixed_Encode(2) [of n "[]"] by (simp_all add: ExtractUserKey_def footer_num_def)

lemma ParseInternalKey_encode:
  assumes "ikey_ok k"
  shows "ParseInternalKey (encode_ikey k) = Some k"
proof -
  have "UnPackSequenceAndType (PackSequenceAndType (sequence k) (vtype k)) = (sequence k, vtype k)"
    using assms by (intro UnPack_Pack) (simp add: ikey_ok_def)
  then show ?thesis using assms
    by (simp add: ParseInternalKey_def encode_ikey_def UnPackSequenceAndType_def ikey_ok_def Let_def)
qed

lemma ParseInternalKey_Some:
  assumes "ParseInternalKey x = Some k"
  shows "ikey_ok k" "x = encode_ikey k"
proof -
  have l: "length x \<ge> 8" using assms by (simp add: ParseInternalKey_def Let_def split: if_splits)
  define n where "n = (of_le (drop (length x - 8) x) :: u64)"
  have n: "footer_num x = Inr n"
    using l by (simp add: footer_num_def DecodeFixed64_def n_def kLittleEndian_def)
  have k: "k = \<lparr>user_key = take (length x - 8) x, sequence = drop_bit 8 n, vtype = ucast (n AND 0xff)\<rparr>"
    "IsExtendedValueType (ucast (n AND 0xff))"
    using assms l n by (auto simp: ParseInternalKey_def Let_def split: if_splits)
  have "unat (drop_bit 8 n) < 2 ^ 56" using unsigned_less [of n, where 'a = nat] by (simp add: unat_drop del: unsigned_drop_bit_eq)
  then have "drop_bit 8 n \<le> kMaxSequenceNumber" by (simp add: kMaxSequenceNumber_def word_le_nat_alt)
  then show "ikey_ok k" using k by (simp add: ikey_ok_def)
  have "PackSequenceAndType (drop_bit 8 n) (ucast n) = n"
    unfolding PackSequenceAndType_def by (rule bit_word_eqI) (auto simp: bit_simps)
  moreover have "to_le 8 n = drop (length x - 8) x"
    using l to_le_of_le [of "drop (length x - 8) x", where 'a = 64] by (simp add: n_def)
  ultimately show "x = encode_ikey k" using k(1) by (simp add: encode_ikey_def ucast_low_byte)
qed

lemma ikey_split:
  assumes "length x \<ge> 8"
  obtains u n where "x = u @ to_le 8 (n :: u64)"
proof -
  have "x = take (length x - 8) x @ to_le 8 (of_le (drop (length x - 8) x) :: u64)"
    using assms to_le_of_le [of "drop (length x - 8) x", where 'a = 64] by simp
  then show thesis by (rule that)
qed

lemma Compare_parts:
  "InternalKeyComparator_Compare C (u @ to_le 8 (n :: u64)) (v @ to_le 8 m) =
     Inr (if cmp_Compare C u v = 0 then if n > m then -1 else if n < m then 1 else 0 else cmp_Compare C u v)"
  by (simp add: InternalKeyComparator_Compare_def Let_def)

text \<open>The order of encoded keys is the order of parsed keys.\<close>

lemma Compare_encode:
  assumes "ikey_ok a" "ikey_ok b"
  shows "InternalKeyComparator_Compare C (encode_ikey a) (encode_ikey b) = Inr (InternalKeyComparator_Compare_parsed C a b)"
  using assms
  by (auto simp: encode_ikey_def Compare_parts InternalKeyComparator_Compare_parsed_def Let_def ikey_ok_def Pack_less not_less
      dest: order.asym)

context comparator_sep
begin

lemma internal_separator:
  assumes "InternalKeyComparator_Compare C start limit = Inr c" "c < 0" "length start \<ge> 8" "length limit \<ge> 8"
  shows "\<exists>r c1 c2. InternalKeyComparator_FindShortestSeparator C start limit = Inr r \<and> length r \<le> length start \<and>
    InternalKeyComparator_Compare C start r = Inr c1 \<and> c1 \<le> 0 \<and> InternalKeyComparator_Compare C r limit = Inr c2 \<and> c2 < 0"
proof -
  obtain us n where s: "start = us @ to_le 8 (n :: u64)" by (rule ikey_split [OF assms(3)])
  obtain ul m where l: "limit = ul @ to_le 8 (m :: u64)" by (rule ikey_split [OF assms(4)])
  let ?tmp = "cmp_FindShortestSeparator C us ul"
  show ?thesis
  proof (cases "length ?tmp \<le> length us \<and> cmp_Compare C us ?tmp < 0")
    case True
    have "us \<noteq> ul" using True separator_same compare_0 [of us us] by auto
    then have "cmp_Compare C us ul < 0" using assms(1,2) s l compare_0 by (auto simp: Compare_parts split: if_splits)
    then have "cmp_Compare C ?tmp ul < 0" using separator by blast
    then show ?thesis
      using True by (auto simp: InternalKeyComparator_FindShortestSeparator_def s l Let_def Compare_parts)
  next
    case False
    have "cmp_Compare C us us = 0" by (simp add: compare_0)
    then show ?thesis using False assms(1,2)
      by (auto simp: InternalKeyComparator_FindShortestSeparator_def s l Let_def Compare_parts)
  qed
qed

end

context comparator
begin

lemma internal_successor:
  assumes "length key \<ge> 8"
  shows "\<exists>r c. InternalKeyComparator_FindShortSuccessor C key = Inr r \<and> length r \<le> length key \<and>
    InternalKeyComparator_Compare C key r = Inr c \<and> c \<le> 0"
proof -
  obtain u n where k: "key = u @ to_le 8 (n :: u64)" by (rule ikey_split [OF assms])
  have "cmp_Compare C u u = 0" by (simp add: compare_0)
  then show ?thesis by (auto simp: InternalKeyComparator_FindShortSuccessor_def k Let_def Compare_parts)
qed

end

subsection \<open>Lookup keys and range tombstones\<close>

lemma LookupKey_parts:
  "internal_key (LookupKey_new uk s) = encode_ikey \<lparr>user_key = uk, sequence = s, vtype = kValueTypeForSeek\<rparr>"
  "LookupKey_user_key (LookupKey_new uk s) = uk"
  "memtable_key (LookupKey_new uk s) = PutLengthPrefixedSlice [] (internal_key (LookupKey_new uk s))"
  by (simp_all add: LookupKey_new_def internal_key_def LookupKey_user_key_def memtable_key_def Let_def encode_ikey_def
      PutLengthPrefixedSlice_def EncodeVarint32_varint)

lemma RangeTombstone_roundtrip:
  assumes "rt_seq t \<le> kMaxSequenceNumber" "Serialize t = (k, v)"
  obtains p where "ParseInternalKey k = Some p" "RangeTombstone_parsed p v = t"
proof -
  let ?p = "\<lparr>user_key = rt_start t, sequence = rt_seq t, vtype = kTypeRangeDeletion\<rparr>"
  have "ikey_ok ?p" using assms(1) by (simp add: ikey_ok_def IsExtendedValueType_def)
  then have "ParseInternalKey k = Some ?p" "RangeTombstone_parsed ?p v = t"
    using assms(2) ParseInternalKey_encode [of ?p]
    by (auto simp: Serialize_def InternalKey_new_def AppendInternalKey_eq RangeTombstone_parsed_def)
  then show thesis by (rule that)
qed

subsection \<open>Iterator keys\<close>

definition iterkey_ok :: "IterKey \<Rightarrow> bool" where
  "iterkey_ok k \<longleftrightarrow> key_size k \<le> length (key_mem k)"

lemma IterKey_new_ok [simp]: "iterkey_ok (IterKey_new u)"
  by (simp add: iterkey_ok_def IterKey_new_def)

lemma Enlarge_simps [simp]:
  "n \<le> length (ik_buf (EnlargeBufferIfNeeded u n k))" "ik_ext (EnlargeBufferIfNeeded u n k) = ik_ext k"
  "is_user_key (EnlargeBufferIfNeeded u n k) = is_user_key k"
  by (simp_all add: EnlargeBufferIfNeeded_def)

lemma copy_to_buf_ok:
  assumes "off + length d \<le> length (ik_buf k)"
  shows "copy_to_buf off d k = Inr (k\<lparr>ik_buf := overwrite (ik_buf k) off d\<rparr>)"
  using assms by (simp add: copy_to_buf_def)

lemma TrimAppend_ok:
  assumes "iterkey_ok k" "shared \<le> key_size k" "n \<le> length d"
  obtains k' where "TrimAppend u shared d n k = Inr k'" "iterkey_ok k'" "is_user_key k' = is_user_key k"
    "IterKey_GetInternalKey k' = take shared (IterKey_GetInternalKey k) @ take n d" "\<not> IsKeyPinned k'"
proof -
  have m: "shared \<le> length (key_mem k)" using assms by (simp add: iterkey_ok_def)
  have v: "take shared (IterKey_GetInternalKey k) = take shared (key_mem k)"
    using assms(2) by (simp add: IterKey_GetInternalKey_def min_def)
  obtain k1 where k1: "(if IsKeyPinned k then copy_to_buf 0 (take shared (key_mem k)) (EnlargeBufferIfNeeded u (shared + n) k)
      else if shared + n > length (ik_buf k)
      then Inr (k\<lparr>ik_buf := overwrite (map u [0..<shared + n]) 0 (take shared (key_mem k))\<rparr>) else Inr k) = Inr k1"
    "shared + n \<le> length (ik_buf k1)" "take shared (ik_buf k1) = take shared (key_mem k)" "is_user_key k1 = is_user_key k"
  proof (cases "IsKeyPinned k")
    case True
    let ?k = "EnlargeBufferIfNeeded u (shared + n) k"
    have "shared + n \<le> length (ik_buf ?k)" by simp
    then have l: "shared \<le> length (ik_buf ?k)" by linarith
    show ?thesis
      by (rule that [of "?k\<lparr>ik_buf := overwrite (ik_buf ?k) 0 (take shared (key_mem k))\<rparr>"])
        (use True m l in \<open>simp_all add: copy_to_buf_ok overwrite_def\<close>)
  next
    case False
    then have b: "key_mem k = ik_buf k" by (simp add: IsKeyPinned_def key_mem_def)
    show ?thesis
    proof (cases "shared + n > length (ik_buf k)")
      case True
      show ?thesis
        by (rule that [of "k\<lparr>ik_buf := overwrite (map u [0..<shared + n]) 0 (take shared (key_mem k))\<rparr>"])
          (use True False m in \<open>simp_all add: overwrite_def\<close>)
    qed (use that [of k] False b in simp)
  qed
  let ?k2 = "k1\<lparr>ik_buf := overwrite (ik_buf k1) shared (take n d)\<rparr>"
  have "TrimAppend u shared d n k = Inr (?k2\<lparr>ik_ext := None, key_size := shared + n\<rparr>)"
    using m assms(3) k1 by (simp add: TrimAppend_def Let_def copy_to_buf_ok)
  moreover have "take (shared + n) (overwrite (ik_buf k1) shared (take n d)) = take shared (key_mem k) @ take n d"
    using take_overwrite [of shared "take n d" "ik_buf k1"] k1(2,3) assms(3) by simp
  ultimately show thesis
    using that [of "?k2\<lparr>ik_ext := None, key_size := shared + n\<rparr>"] k1(2,4) assms(3) v
    by (simp add: iterkey_ok_def key_mem_def IterKey_GetInternalKey_def IsKeyPinned_def)
qed

lemma SetKeyImpl_ok:
  obtains k' where "SetKeyImpl u key copy k = Inr k'" "iterkey_ok k'" "IterKey_GetInternalKey k' = key"
    "is_user_key k' = is_user_key k" "IsKeyPinned k' \<longleftrightarrow> \<not> copy"
proof (cases copy)
  case True
  let ?k = "EnlargeBufferIfNeeded u (length key) k"
  have l: "length key \<le> length (ik_buf ?k)" by simp
  show thesis
    by (rule that [of "?k\<lparr>ik_buf := overwrite (ik_buf ?k) 0 key, ik_ext := None, key_size := length key\<rparr>"])
      (use True l in \<open>simp_all add: SetKeyImpl_def copy_to_buf_ok iterkey_ok_def key_mem_def IterKey_GetInternalKey_def
          IsKeyPinned_def overwrite_def\<close>)
next
  case False
  then show thesis
    by (intro that [of "k\<lparr>ik_ext := Some key, key_size := length key\<rparr>"])
      (simp_all add: SetKeyImpl_def iterkey_ok_def key_mem_def IterKey_GetInternalKey_def IsKeyPinned_def)
qed

lemma OwnKey_ok:
  assumes "iterkey_ok k" "IsKeyPinned k"
  obtains k' where "OwnKey u k = Inr k'" "iterkey_ok k'" "IterKey_GetInternalKey k' = IterKey_GetInternalKey k"
    "\<not> IsKeyPinned k'"
proof -
  let ?k = "EnlargeBufferIfNeeded u (key_size k) k"
  have l: "key_size k \<le> length (ik_buf ?k)" by simp
  have m: "key_size k \<le> length (key_mem k)" using assms by (simp add: iterkey_ok_def)
  let ?k' = "?k\<lparr>key_size := key_size k, ik_buf := overwrite (ik_buf ?k) 0 (take (key_size k) (key_mem k)), ik_ext := None\<rparr>"
  show thesis
    by (rule that [of ?k'])
      (use l m in \<open>simp_all add: OwnKey_def Let_def copy_to_buf_ok iterkey_ok_def key_mem_def IterKey_GetInternalKey_def
          IsKeyPinned_def overwrite_def split: option.splits\<close>)
qed

lemma SetInternalKey_parts_ok:
  obtains k' where "IterKey_SetInternalKey_parts u pre uk s t k = Inr k'" "iterkey_ok k'" "\<not> IsKeyPinned k'"
    "IterKey_GetInternalKey k' = pre @ encode_ikey \<lparr>user_key = uk, sequence = s, vtype = t\<rparr>" "\<not> is_user_key k'"
proof -
  let ?n = "length pre + length uk + 8" and ?f = "to_le 8 (PackSequenceAndType s t)"
  let ?k = "EnlargeBufferIfNeeded u ?n k"
  have l: "?n \<le> length (ik_buf ?k)" by (rule Enlarge_simps)
  let ?b = "overwrite (overwrite (overwrite (ik_buf ?k) 0 pre) (length pre) uk) (length uk + length pre) ?f"
  have "take ?n (overwrite (overwrite (overwrite B 0 pre) (length pre) uk) (length uk + length pre) ?f) = pre @ uk @ ?f \<and>
      length (overwrite (overwrite (overwrite B 0 pre) (length pre) uk) (length uk + length pre) ?f) = length B"
    if "?n \<le> length B" for B
    using that by (simp add: overwrite_def)
  then have b: "take ?n ?b = pre @ uk @ ?f" "length ?b = length (ik_buf ?k)" using l by blast+
  have "IterKey_SetInternalKey_parts u pre uk s t k = Inr (?k\<lparr>ik_buf := ?b, ik_ext := None, key_size := ?n, is_user_key := False\<rparr>)"
  proof -
    have first: "(if length pre > 0 then copy_to_buf 0 pre K else Inr K) = Inr (K\<lparr>ik_buf := overwrite (ik_buf K) 0 pre\<rparr>)"
      if "?n \<le> length (ik_buf K)" for K
      using that by (cases pre) (simp_all add: copy_to_buf_def overwrite_def)
    have "length (overwrite (ik_buf ?k) 0 pre) = length (ik_buf ?k)"
      "length (overwrite (overwrite (ik_buf ?k) 0 pre) (length pre) uk) = length (ik_buf ?k)"
      using l by (simp_all del: Enlarge_simps)
    then show ?thesis
      unfolding IterKey_SetInternalKey_parts_def Let_def first [OF l]
      using l by (simp add: copy_to_buf_def del: Enlarge_simps)
  qed
  then show thesis
    using l b that by (simp add: iterkey_ok_def key_mem_def IterKey_GetInternalKey_def IsKeyPinned_def encode_ikey_def)
qed

subsection \<open>Properties\<close>

text \<open>The reverse comparator inherits a successor that comes before its argument.\<close>

lemma reverse_successor_before:
  "b < 0xff \<Longrightarrow> cmp_Compare ReverseBytewiseComparator (cmp_FindShortSuccessor ReverseBytewiseComparator (b # k)) (b # k) < 0"
proof -
  assume b: "b < 0xff"
  then have "increment_first (b # k) \<noteq> b # k" by simp
  then have "lex_less (b # k) (increment_first (b # k))" using increment_first_le by blast
  then show ?thesis
    by (simp only: ReverseBytewiseComparator_def BytewiseComparator_def Comparator.simps FindShortSuccessor_def
        neg_less_0_iff_less slice_compare_pos)
qed

text \<open>C36: Internal keys with a 56-bit sequence number and a value type of user operations survive encoding; whatever parses is the
  encoding of what it parses to; and the order of two encodings is the order of the keys: by user key, then newest
  first, then by decreasing type.\<close>

theorem internal_key_codec:
  assumes "sequence a \<le> kMaxSequenceNumber" and "IsExtendedValueType (vtype a)"
    and "sequence b \<le> kMaxSequenceNumber" and "IsExtendedValueType (vtype b)" and "ParseInternalKey x = Some c"
  shows "ParseInternalKey (AppendInternalKey [] a) = Some a \<and> AppendInternalKey [] c = x \<and>
    InternalKeyComparator_Compare C (AppendInternalKey [] a) (AppendInternalKey [] b) =
      Inr (InternalKeyComparator_Compare_parsed C a b)"
proof -
  have ok: "ikey_ok a" "ikey_ok b" using assms by (simp_all add: ikey_ok_def)
  show ?thesis
    using ParseInternalKey_encode [OF ok(1)] ParseInternalKey_Some(2) [OF assms(5)] Compare_encode [OF ok]
    by (simp add: AppendInternalKey_eq)
qed

theorem internal_key_codec_witness:
  "\<exists>c. ParseInternalKey (InternalKey_new [5] 7 kTypeValue) = Some c \<and>
   InternalKeyComparator_Compare BytewiseComparator (InternalKey_new [5] 7 kTypeValue) (InternalKey_new [5] 8 kTypeDeletion) = Inr 1"
proof -
  let ?a = "\<lparr>user_key = [5], sequence = 7, vtype = kTypeValue\<rparr>" and ?b = "\<lparr>user_key = [5], sequence = 8, vtype = kTypeDeletion\<rparr>"
  have a: "sequence ?a \<le> kMaxSequenceNumber" "IsExtendedValueType (vtype ?a)"
    and b: "sequence ?b \<le> kMaxSequenceNumber" "IsExtendedValueType (vtype ?b)"
    by (simp_all add: kMaxSequenceNumber_def IsExtendedValueType_def IsValueType_def word_le_nat_alt)
  have p: "ParseInternalKey (encode_ikey ?a) = Some ?a"
    by (rule ParseInternalKey_encode) (use a in \<open>simp add: ikey_ok_def\<close>)
  have c: "InternalKeyComparator_Compare_parsed BytewiseComparator ?a ?b = 1"
    by (simp add: InternalKeyComparator_Compare_parsed_def BytewiseComparator_def)
  show ?thesis
    unfolding InternalKey_new_def using internal_key_codec [OF a b p, of BytewiseComparator] unfolding c by blast
qed

text \<open>C37: The shortened key that \<open>FindShortestSeparator\<close> of the internal comparator leaves in an index block lies between its
  arguments, for the byte order and for its reverse: not before the start, strictly before the limit, and not
  longer than the start. The successor of a key is never before it.\<close>

theorem internal_separator_between:
  assumes "C = BytewiseComparator \<or> C = ReverseBytewiseComparator"
    and "length start \<ge> 8" and "length limit \<ge> 8" and "InternalKeyComparator_Compare C start limit = Inr c" and "c < 0"
  shows "(\<exists>r c1 c2. InternalKeyComparator_FindShortestSeparator C start limit = Inr r \<and> length r \<le> length start \<and>
      InternalKeyComparator_Compare C start r = Inr c1 \<and> c1 \<le> 0 \<and> InternalKeyComparator_Compare C r limit = Inr c2 \<and> c2 < 0) \<and>
    (\<exists>r c1. InternalKeyComparator_FindShortSuccessor C start = Inr r \<and> length r \<le> length start \<and>
      InternalKeyComparator_Compare C start r = Inr c1 \<and> c1 \<le> 0)"
  using assms(1) bytewise.internal_separator [OF _ assms(5,2,3)] reverse_bytewise.internal_separator [OF _ assms(5,2,3)]
    bytewise.internal_successor [OF assms(2)] reverse_bytewise.internal_successor [OF assms(2)] assms(4) by blast

theorem internal_separator_between_witness:
  "\<exists>r c1 c2. InternalKeyComparator_FindShortestSeparator BytewiseComparator (InternalKey_new [1, 2, 3] 9 1) (InternalKey_new [4] 9 1) = Inr r \<and>
     InternalKeyComparator_Compare BytewiseComparator (InternalKey_new [1, 2, 3] 9 1) r = Inr c1 \<and> c1 \<le> 0 \<and>
     InternalKeyComparator_Compare BytewiseComparator r (InternalKey_new [4] 9 1) = Inr c2 \<and> c2 < 0"
proof -
  have "length (InternalKey_new [1, 2, 3] 9 1) \<ge> 8" "length (InternalKey_new [4] 9 1) \<ge> 8"
    by (simp_all add: InternalKey_new_def AppendInternalKey_def)
  moreover have "InternalKeyComparator_Compare BytewiseComparator (InternalKey_new [1, 2, 3] 9 1) (InternalKey_new [4] 9 1) = Inr (-1)"
    using Compare_parts [of BytewiseComparator "[1, 2, 3]" _ "[4]"]
    by (simp add: InternalKey_new_def AppendInternalKey_eq encode_ikey_def BytewiseComparator_def)
  ultimately show ?thesis
    using internal_separator_between [of BytewiseComparator "InternalKey_new [1, 2, 3] 9 1" "InternalKey_new [4] 9 1" "-1"] by auto
qed

end
