(* ===== verification/WriteBatch.thy ===== *)
theory WriteBatch
  imports InternalKey "HOL-Library.Sublist"
begin

text \<open>
  The write batch of RocksDB, src/rocksdb-5.8/db/write_batch.cc with write_batch_internal.h: the unit in which \<open>Put\<close> and \<open>Delete\<close> of
  the stores reach the log and the memtable. A batch is its string \<open>rep_\<close> (a sequence number, a count, records), its
  flags, its size limit and its save points. A reader of a batch is a record of the virtual functions of
  \<open>WriteBatch::Handler\<close> on a state. A column family handle is its identifier, or None for a null pointer.

  The lemmas relate a batch to the list of its entries: every operation appends its entry or leaves the batch as it was,
  \<open>Iterate\<close> presents exactly the entries in order, save points restore them, and a truncated batch is reported as corrupt.
\<close>

abbreviation (input) DEFERRED :: u32 where "DEFERRED \<equiv> 1"
abbreviation (input) HAS_PUT :: u32 where "HAS_PUT \<equiv> 2"
abbreviation (input) HAS_DELETE :: u32 where "HAS_DELETE \<equiv> 4"
abbreviation (input) HAS_SINGLE_DELETE :: u32 where "HAS_SINGLE_DELETE \<equiv> 8"
abbreviation (input) HAS_MERGE :: u32 where "HAS_MERGE \<equiv> 16"
abbreviation (input) HAS_BEGIN_PREPARE :: u32 where "HAS_BEGIN_PREPARE \<equiv> 32"
abbreviation (input) HAS_END_PREPARE :: u32 where "HAS_END_PREPARE \<equiv> 64"
abbreviation (input) HAS_COMMIT :: u32 where "HAS_COMMIT \<equiv> 128"
abbreviation (input) HAS_ROLLBACK :: u32 where "HAS_ROLLBACK \<equiv> 256"
abbreviation (input) HAS_DELETE_RANGE :: u32 where "HAS_DELETE_RANGE \<equiv> 512"

abbreviation (input) kHeader :: nat where "kHeader \<equiv> 12"

record SavePoint =
  sp_size :: nat
  sp_count :: u32
  sp_flags :: u32

definition SavePoint_cleared :: SavePoint where
  "SavePoint_cleared = \<lparr>sp_size = 0, sp_count = 0, sp_flags = 0\<rparr>"

definition is_cleared :: "SavePoint \<Rightarrow> bool" where
  "is_cleared s \<longleftrightarrow> sp_size s = 0 \<and> sp_count s = 0 \<and> sp_flags s = 0"

record WriteBatch =
  rep :: bytes
  content_flags :: u32
  max_bytes :: nat
  save_points :: "SavePoint list option"
  wal_term_point :: SavePoint

definition WriteBatch_new :: "nat \<Rightarrow> WriteBatch" where
  "WriteBatch_new mb = \<lparr>rep = replicate kHeader 0, content_flags = 0, max_bytes = mb, save_points = None,
     wal_term_point = SavePoint_cleared\<rparr>"

definition WriteBatch_of_rep :: "bytes \<Rightarrow> WriteBatch" where
  "WriteBatch_of_rep r = \<lparr>rep = r, content_flags = DEFERRED, max_bytes = 0, save_points = None,
     wal_term_point = SavePoint_cleared\<rparr>"

definition WriteBatch_Clear :: "WriteBatch \<Rightarrow> WriteBatch" where
  "WriteBatch_Clear b = b\<lparr>rep := replicate kHeader 0, content_flags := 0, save_points := map_option (\<lambda>_. []) (save_points b),
     wal_term_point := SavePoint_cleared\<rparr>"

subsection \<open>The header\<close>

definition Count :: "WriteBatch \<Rightarrow> u32 res" where
  "Count b = DecodeFixed32 (drop 8 (rep b))"

definition SetCount :: "WriteBatch \<Rightarrow> u32 \<Rightarrow> WriteBatch res" where
  "SetCount b n =
     (if length (rep b) \<ge> 12 then Inr (b\<lparr>rep := overwrite (rep b) 8 (EncodeFixed32 n)\<rparr>) else Inl Heap_Overflow)"

definition Sequence :: "WriteBatch \<Rightarrow> u64 res" where
  "Sequence b = DecodeFixed64 (rep b)"

definition SetSequence :: "WriteBatch \<Rightarrow> u64 \<Rightarrow> WriteBatch res" where
  "SetSequence b s =
     (if length (rep b) \<ge> 8 then Inr (b\<lparr>rep := overwrite (rep b) 0 (EncodeFixed64 s)\<rparr>) else Inl Heap_Overflow)"

subsection \<open>Adding entries\<close>

definition LocalSavePoint :: "WriteBatch \<Rightarrow> SavePoint res" where
  "LocalSavePoint b = rbind (Count b) (\<lambda>c. Inr \<lparr>sp_size = length (rep b), sp_count = c, sp_flags = content_flags b\<rparr>)"

definition commit :: "SavePoint \<Rightarrow> WriteBatch \<Rightarrow> (RStatus \<times> WriteBatch) res" where
  "commit save b =
     (if max_bytes b \<noteq> 0 \<and> length (rep b) > max_bytes b then
        rbind (SetCount (b\<lparr>rep := take (sp_size save) (rep b)\<rparr>) (sp_count save)) (\<lambda>b'.
        Inr (SMemoryLimit, b'\<lparr>content_flags := sp_flags save\<rparr>))
      else Inr (SOk, b))"

text \<open>What every record of an update starts with: one more entry, the tag, and the column family unless it is the default.\<close>

definition add_tag :: "ValueType \<Rightarrow> ValueType \<Rightarrow> u32 \<Rightarrow> WriteBatch \<Rightarrow> WriteBatch res" where
  "add_tag tag cf_tag column_family_id b =
     rbind (Count b) (\<lambda>c. rbind (SetCount b (c + 1)) (\<lambda>b.
     Inr (if column_family_id = 0 then b\<lparr>rep := rep b @ [tag]\<rparr>
          else b\<lparr>rep := PutVarint32 (rep b @ [cf_tag]) column_family_id\<rparr>)))"

definition or_flags :: "u32 \<Rightarrow> WriteBatch \<Rightarrow> WriteBatch" where
  "or_flags f b = b\<lparr>content_flags := content_flags b OR f\<rparr>"

definition WriteBatchInternal_Put :: "u32 \<Rightarrow> bytes \<Rightarrow> bytes \<Rightarrow> WriteBatch \<Rightarrow> (RStatus \<times> WriteBatch) res" where
  "WriteBatchInternal_Put cf key v b =
     rbind (LocalSavePoint b) (\<lambda>save. rbind (add_tag kTypeValue kTypeColumnFamilyValue cf b) (\<lambda>b.
     let r = PutLengthPrefixedSlice (rep b) key;
         r = PutLengthPrefixedSlice r v
     in commit save (or_flags HAS_PUT (b\<lparr>rep := r\<rparr>))))"

definition WriteBatchInternal_Put_parts :: "u32 \<Rightarrow> bytes list \<Rightarrow> bytes list \<Rightarrow> WriteBatch \<Rightarrow> (RStatus \<times> WriteBatch) res" where
  "WriteBatchInternal_Put_parts cf key v b =
     rbind (LocalSavePoint b) (\<lambda>save. rbind (add_tag kTypeValue kTypeColumnFamilyValue cf b) (\<lambda>b.
     let r = PutLengthPrefixedSliceParts (rep b) key;
         r = PutLengthPrefixedSliceParts r v
     in commit save (or_flags HAS_PUT (b\<lparr>rep := r\<rparr>))))"

definition WriteBatchInternal_Delete :: "u32 \<Rightarrow> bytes \<Rightarrow> WriteBatch \<Rightarrow> (RStatus \<times> WriteBatch) res" where
  "WriteBatchInternal_Delete cf key b =
     rbind (LocalSavePoint b) (\<lambda>save. rbind (add_tag kTypeDeletion kTypeColumnFamilyDeletion cf b) (\<lambda>b.
     commit save (or_flags HAS_DELETE (b\<lparr>rep := PutLengthPrefixedSlice (rep b) key\<rparr>))))"

definition WriteBatchInternal_Delete_parts :: "u32 \<Rightarrow> bytes list \<Rightarrow> WriteBatch \<Rightarrow> (RStatus \<times> WriteBatch) res" where
  "WriteBatchInternal_Delete_parts cf key b =
     rbind (LocalSavePoint b) (\<lambda>save. rbind (add_tag kTypeDeletion kTypeColumnFamilyDeletion cf b) (\<lambda>b.
     commit save (or_flags HAS_DELETE (b\<lparr>rep := PutLengthPrefixedSliceParts (rep b) key\<rparr>))))"

definition WriteBatchInternal_SingleDelete :: "u32 \<Rightarrow> bytes \<Rightarrow> WriteBatch \<Rightarrow> (RStatus \<times> WriteBatch) res" where
  "WriteBatchInternal_SingleDelete cf key b =
     rbind (LocalSavePoint b) (\<lambda>save. rbind (add_tag kTypeSingleDeletion kTypeColumnFamilySingleDeletion cf b) (\<lambda>b.
     commit save (or_flags HAS_SINGLE_DELETE (b\<lparr>rep := PutLengthPrefixedSlice (rep b) key\<rparr>))))"

definition WriteBatchInternal_SingleDelete_parts :: "u32 \<Rightarrow> bytes list \<Rightarrow> WriteBatch \<Rightarrow> (RStatus \<times> WriteBatch) res" where
  "WriteBatchInternal_SingleDelete_parts cf key b =
     rbind (LocalSavePoint b) (\<lambda>save. rbind (add_tag kTypeSingleDeletion kTypeColumnFamilySingleDeletion cf b) (\<lambda>b.
     commit save (or_flags HAS_SINGLE_DELETE (b\<lparr>rep := PutLengthPrefixedSliceParts (rep b) key\<rparr>))))"

definition WriteBatchInternal_DeleteRange :: "u32 \<Rightarrow> bytes \<Rightarrow> bytes \<Rightarrow> WriteBatch \<Rightarrow> (RStatus \<times> WriteBatch) res" where
  "WriteBatchInternal_DeleteRange cf begin_key end_key b =
     rbind (LocalSavePoint b) (\<lambda>save. rbind (add_tag kTypeRangeDeletion kTypeColumnFamilyRangeDeletion cf b) (\<lambda>b.
     let r = PutLengthPrefixedSlice (rep b) begin_key;
         r = PutLengthPrefixedSlice r end_key
     in commit save (or_flags HAS_DELETE_RANGE (b\<lparr>rep := r\<rparr>))))"

definition WriteBatchInternal_DeleteRange_parts :: "u32 \<Rightarrow> bytes list \<Rightarrow> bytes list \<Rightarrow> WriteBatch \<Rightarrow> (RStatus \<times> WriteBatch) res" where
  "WriteBatchInternal_DeleteRange_parts cf begin_key end_key b =
     rbind (LocalSavePoint b) (\<lambda>save. rbind (add_tag kTypeRangeDeletion kTypeColumnFamilyRangeDeletion cf b) (\<lambda>b.
     let r = PutLengthPrefixedSliceParts (rep b) begin_key;
         r = PutLengthPrefixedSliceParts r end_key
     in commit save (or_flags HAS_DELETE_RANGE (b\<lparr>rep := r\<rparr>))))"

definition WriteBatchInternal_Merge :: "u32 \<Rightarrow> bytes \<Rightarrow> bytes \<Rightarrow> WriteBatch \<Rightarrow> (RStatus \<times> WriteBatch) res" where
  "WriteBatchInternal_Merge cf key v b =
     rbind (LocalSavePoint b) (\<lambda>save. rbind (add_tag kTypeMerge kTypeColumnFamilyMerge cf b) (\<lambda>b.
     let r = PutLengthPrefixedSlice (rep b) key;
         r = PutLengthPrefixedSlice r v
     in commit save (or_flags HAS_MERGE (b\<lparr>rep := r\<rparr>))))"

definition WriteBatchInternal_Merge_parts :: "u32 \<Rightarrow> bytes list \<Rightarrow> bytes list \<Rightarrow> WriteBatch \<Rightarrow> (RStatus \<times> WriteBatch) res" where
  "WriteBatchInternal_Merge_parts cf key v b =
     rbind (LocalSavePoint b) (\<lambda>save. rbind (add_tag kTypeMerge kTypeColumnFamilyMerge cf b) (\<lambda>b.
     let r = PutLengthPrefixedSliceParts (rep b) key;
         r = PutLengthPrefixedSliceParts r v
     in commit save (or_flags HAS_MERGE (b\<lparr>rep := r\<rparr>))))"

definition PutLogData :: "bytes \<Rightarrow> WriteBatch \<Rightarrow> (RStatus \<times> WriteBatch) res" where
  "PutLogData blob b =
     rbind (LocalSavePoint b) (\<lambda>save. commit save (b\<lparr>rep := PutLengthPrefixedSlice (rep b @ [kTypeLogData]) blob\<rparr>))"

definition InsertNoop :: "WriteBatch \<Rightarrow> RStatus \<times> WriteBatch" where
  "InsertNoop b = (SOk, b\<lparr>rep := rep b @ [kTypeNoop]\<rparr>)"

definition MarkEndPrepare :: "bytes \<Rightarrow> WriteBatch \<Rightarrow> (RStatus \<times> WriteBatch) res" where
  "MarkEndPrepare xid b =
     (let b = b\<lparr>save_points := map_option (\<lambda>_. []) (save_points b)\<rparr>
      in if length (rep b) \<le> 12 then Inl Heap_Overflow
         else
           let r = (rep b)[12 := kTypeBeginPrepareXID];
               r = PutLengthPrefixedSlice (r @ [kTypeEndPrepareXID]) xid
           in Inr (SOk, or_flags (HAS_END_PREPARE OR HAS_BEGIN_PREPARE) (b\<lparr>rep := r\<rparr>)))"

definition MarkCommit :: "bytes \<Rightarrow> WriteBatch \<Rightarrow> RStatus \<times> WriteBatch" where
  "MarkCommit xid b = (SOk, or_flags HAS_COMMIT (b\<lparr>rep := PutLengthPrefixedSlice (rep b @ [kTypeCommitXID]) xid\<rparr>))"

definition MarkRollback :: "bytes \<Rightarrow> WriteBatch \<Rightarrow> RStatus \<times> WriteBatch" where
  "MarkRollback xid b = (SOk, or_flags HAS_ROLLBACK (b\<lparr>rep := PutLengthPrefixedSlice (rep b @ [kTypeRollbackXID]) xid\<rparr>))"

text \<open>The public functions take a column family handle.\<close>

definition GetColumnFamilyID :: "u32 option \<Rightarrow> u32" where
  "GetColumnFamilyID column_family = (case column_family of None \<Rightarrow> 0 | Some i \<Rightarrow> i)"

definition WriteBatch_Put :: "u32 option \<Rightarrow> bytes \<Rightarrow> bytes \<Rightarrow> WriteBatch \<Rightarrow> (RStatus \<times> WriteBatch) res" where
  "WriteBatch_Put column_family key v = WriteBatchInternal_Put (GetColumnFamilyID column_family) key v"

definition WriteBatch_Delete :: "u32 option \<Rightarrow> bytes \<Rightarrow> WriteBatch \<Rightarrow> (RStatus \<times> WriteBatch) res" where
  "WriteBatch_Delete column_family key = WriteBatchInternal_Delete (GetColumnFamilyID column_family) key"

definition WriteBatch_SingleDelete :: "u32 option \<Rightarrow> bytes \<Rightarrow> WriteBatch \<Rightarrow> (RStatus \<times> WriteBatch) res" where
  "WriteBatch_SingleDelete column_family key = WriteBatchInternal_SingleDelete (GetColumnFamilyID column_family) key"

definition WriteBatch_DeleteRange :: "u32 option \<Rightarrow> bytes \<Rightarrow> bytes \<Rightarrow> WriteBatch \<Rightarrow> (RStatus \<times> WriteBatch) res" where
  "WriteBatch_DeleteRange column_family k k' = WriteBatchInternal_DeleteRange (GetColumnFamilyID column_family) k k'"

definition WriteBatch_Merge :: "u32 option \<Rightarrow> bytes \<Rightarrow> bytes \<Rightarrow> WriteBatch \<Rightarrow> (RStatus \<times> WriteBatch) res" where
  "WriteBatch_Merge column_family key v = WriteBatchInternal_Merge (GetColumnFamilyID column_family) key v"

subsection \<open>Save points\<close>

text \<open>The top of the stack is the first element.\<close>

definition SetSavePoint :: "WriteBatch \<Rightarrow> WriteBatch res" where
  "SetSavePoint b =
     (let st = (case save_points b of None \<Rightarrow> [] | Some st \<Rightarrow> st)
      in rbind (Count b) (\<lambda>c.
           Inr (b\<lparr>save_points := Some (\<lparr>sp_size = length (rep b), sp_count = c, sp_flags = content_flags b\<rparr> # st)\<rparr>)))"

definition resize :: "nat \<Rightarrow> bytes \<Rightarrow> bytes" where
  "resize n s = take n s @ replicate (n - length s) 0"

definition RollbackToSavePoint :: "WriteBatch \<Rightarrow> (RStatus \<times> WriteBatch) res" where
  "RollbackToSavePoint b =
     (case save_points b of
        Some (savepoint # st) \<Rightarrow>
          let b = b\<lparr>save_points := Some st\<rparr>
          in if sp_size savepoint = length (rep b) then Inr (SOk, b)
             else if sp_size savepoint = 0 then Inr (SOk, WriteBatch_Clear b)
             else rbind (SetCount (b\<lparr>rep := resize (sp_size savepoint) (rep b)\<rparr>) (sp_count savepoint)) (\<lambda>b.
               Inr (SOk, b\<lparr>content_flags := sp_flags savepoint\<rparr>))
      | _ \<Rightarrow> Inr (SNotFound, b))"

definition PopSavePoint :: "WriteBatch \<Rightarrow> RStatus \<times> WriteBatch" where
  "PopSavePoint b =
     (case save_points b of
        Some (savepoint # st) \<Rightarrow> (SOk, b\<lparr>save_points := Some st\<rparr>)
      | _ \<Rightarrow> (SNotFound, b))"

definition MarkWalTerminationPoint :: "WriteBatch \<Rightarrow> WriteBatch res" where
  "MarkWalTerminationPoint b =
     rbind (Count b) (\<lambda>c.
     Inr (b\<lparr>wal_term_point := \<lparr>sp_size = length (rep b), sp_count = c, sp_flags = content_flags b\<rparr>\<rparr>))"

subsection \<open>Joining batches\<close>

definition SetContents :: "bytes \<Rightarrow> WriteBatch \<Rightarrow> RStatus \<times> WriteBatch" where
  "SetContents contents b = (SOk, b\<lparr>rep := contents, content_flags := DEFERRED\<rparr>)"

definition Append :: "WriteBatch \<Rightarrow> WriteBatch \<Rightarrow> bool \<Rightarrow> (RStatus \<times> WriteBatch) res" where
  "Append dst src wal_only =
     (let batch_end = wal_term_point src
      in rbind (if wal_only \<and> \<not> is_cleared batch_end
                then if kHeader \<le> sp_size batch_end \<and> sp_size batch_end \<le> length (rep src)
                     then Inr (sp_size batch_end - kHeader, sp_count batch_end, sp_flags batch_end)
                     else Inl Over_Read
                else if kHeader \<le> length (rep src)
                     then rbind (Count src) (\<lambda>c. Inr (length (rep src) - kHeader, c, content_flags src))
                     else Inl Over_Read) (\<lambda>(src_len, src_count, src_flags).
         rbind (Count dst) (\<lambda>c. rbind (SetCount dst (c + src_count)) (\<lambda>dst.
         Inr (SOk, dst\<lparr>rep := rep dst @ chunk kHeader src_len (rep src), content_flags := content_flags dst OR src_flags\<rparr>)))))"

definition AppendedByteSize :: "nat \<Rightarrow> nat \<Rightarrow> nat" where
  "AppendedByteSize leftByteSize rightByteSize =
     (if leftByteSize = 0 \<or> rightByteSize = 0 then leftByteSize + rightByteSize
      else leftByteSize + rightByteSize - kHeader)"

subsection \<open>Reading a batch\<close>

definition ReadKeyFromWriteBatchEntry :: "bytes \<Rightarrow> bool \<Rightarrow> (bytes option \<times> bytes) res" where
  "ReadKeyFromWriteBatchEntry input cf_record =
     (case input of
        [] \<Rightarrow> Inl Over_Read
      | _ # input \<Rightarrow>
          Inr (if cf_record
               then (case GetVarint32 input of
                       None \<Rightarrow> (None, input)
                     | Some (cf, input) \<Rightarrow> GetLengthPrefixedSlice input)
               else GetLengthPrefixedSlice input))"

record wb_record =
  r_tag :: ValueType
  r_cf :: u32
  r_key :: bytes
  r_value :: bytes
  r_blob :: bytes
  r_xid :: bytes

definition wb_record_new :: "ValueType \<Rightarrow> wb_record" where
  "wb_record_new t = \<lparr>r_tag = t, r_cf = 0, r_key = [], r_value = [], r_blob = [], r_xid = []\<rparr>"

text \<open>The steps of \<open>ReadRecordFromWriteBatch\<close>: a column family, a key, a key and a value, a blob, a transaction name.\<close>

definition get_cf :: "string \<Rightarrow> wb_record \<times> bytes \<Rightarrow> RStatus + wb_record \<times> bytes" where
  "get_cf msg = (\<lambda>(r, input).
     case GetVarint32 input of None \<Rightarrow> Inl (SCorruption msg) | Some (cf, input) \<Rightarrow> Inr (r\<lparr>r_cf := cf\<rparr>, input))"

definition get_string :: "string \<Rightarrow> (bytes \<Rightarrow> wb_record \<Rightarrow> wb_record) \<Rightarrow> wb_record \<times> bytes \<Rightarrow> RStatus + wb_record \<times> bytes" where
  "get_string msg upd = (\<lambda>(r, input).
     case GetLengthPrefixedSlice input of (None, input) \<Rightarrow> Inl (SCorruption msg) | (Some s, input) \<Rightarrow> Inr (upd s r, input))"

definition also_get :: "RStatus + 'a \<Rightarrow> ('a \<Rightarrow> RStatus + 'b) \<Rightarrow> RStatus + 'b" where
  "also_get m f = (case m of Inl s \<Rightarrow> Inl s | Inr x \<Rightarrow> f x)"

definition get_key :: "string \<Rightarrow> wb_record \<times> bytes \<Rightarrow> RStatus + wb_record \<times> bytes" where
  "get_key msg = get_string msg (\<lambda>s r. r\<lparr>r_key := s\<rparr>)"

definition get_key_value :: "string \<Rightarrow> wb_record \<times> bytes \<Rightarrow> RStatus + wb_record \<times> bytes" where
  "get_key_value msg x = also_get (get_key msg x) (get_string msg (\<lambda>s r. r\<lparr>r_value := s\<rparr>))"

definition ReadRecordFromWriteBatch :: "bytes \<Rightarrow> (RStatus + wb_record \<times> bytes) res" where
  "ReadRecordFromWriteBatch input =
     (case input of
        [] \<Rightarrow> Inl Over_Read
      | tag # input \<Rightarrow>
          let x = (wb_record_new tag, input)
          in Inr (
            if tag = kTypeColumnFamilyValue then also_get (get_cf ''bad WriteBatch Put'' x) (get_key_value ''bad WriteBatch Put'')
            else if tag = kTypeValue then get_key_value ''bad WriteBatch Put'' x
            else if tag = kTypeColumnFamilyDeletion \<or> tag = kTypeColumnFamilySingleDeletion
            then also_get (get_cf ''bad WriteBatch Delete'' x) (get_key ''bad WriteBatch Delete'')
            else if tag = kTypeDeletion \<or> tag = kTypeSingleDeletion then get_key ''bad WriteBatch Delete'' x
            else if tag = kTypeColumnFamilyRangeDeletion
            then also_get (get_cf ''bad WriteBatch DeleteRange'' x) (get_key_value ''bad WriteBatch DeleteRange'')
            else if tag = kTypeRangeDeletion then get_key_value ''bad WriteBatch DeleteRange'' x
            else if tag = kTypeColumnFamilyMerge
            then also_get (get_cf ''bad WriteBatch Merge'' x) (get_key_value ''bad WriteBatch Merge'')
            else if tag = kTypeMerge then get_key_value ''bad WriteBatch Merge'' x
            else if tag = kTypeLogData then get_string ''bad WriteBatch Blob'' (\<lambda>s r. r\<lparr>r_blob := s\<rparr>) x
            else if tag = kTypeNoop \<or> tag = kTypeBeginPrepareXID then Inr x
            else if tag = kTypeEndPrepareXID then get_string ''bad EndPrepare XID'' (\<lambda>s r. r\<lparr>r_xid := s\<rparr>) x
            else if tag = kTypeCommitXID then get_string ''bad Commit XID'' (\<lambda>s r. r\<lparr>r_xid := s\<rparr>) x
            else if tag = kTypeRollbackXID then get_string ''bad Rollback XID'' (\<lambda>s r. r\<lparr>r_xid := s\<rparr>) x
            else Inl (SCorruption ''unknown WriteBatch tag'')))"

record 'h Handler =
  h_PutCF :: "u32 \<Rightarrow> bytes \<Rightarrow> bytes \<Rightarrow> 'h \<Rightarrow> RStatus \<times> 'h"
  h_DeleteCF :: "u32 \<Rightarrow> bytes \<Rightarrow> 'h \<Rightarrow> RStatus \<times> 'h"
  h_SingleDeleteCF :: "u32 \<Rightarrow> bytes \<Rightarrow> 'h \<Rightarrow> RStatus \<times> 'h"
  h_DeleteRangeCF :: "u32 \<Rightarrow> bytes \<Rightarrow> bytes \<Rightarrow> 'h \<Rightarrow> RStatus \<times> 'h"
  h_MergeCF :: "u32 \<Rightarrow> bytes \<Rightarrow> bytes \<Rightarrow> 'h \<Rightarrow> RStatus \<times> 'h"
  h_LogData :: "bytes \<Rightarrow> 'h \<Rightarrow> 'h"
  h_MarkBeginPrepare :: "'h \<Rightarrow> RStatus \<times> 'h"
  h_MarkEndPrepare :: "bytes \<Rightarrow> 'h \<Rightarrow> RStatus \<times> 'h"
  h_MarkCommit :: "bytes \<Rightarrow> 'h \<Rightarrow> RStatus \<times> 'h"
  h_MarkRollback :: "bytes \<Rightarrow> 'h \<Rightarrow> RStatus \<times> 'h"
  h_Continue :: "'h \<Rightarrow> bool"

text \<open>The switch of \<open>Iterate\<close>: the status, whether the record counts, and the state of the reader.\<close>

definition dispatch :: "'h Handler \<Rightarrow> wb_record \<Rightarrow> 'h \<Rightarrow> RStatus \<times> bool \<times> 'h" where
  "dispatch H r h =
     (let counted = (\<lambda>(s, h'). (s, True, h')); uncounted = (\<lambda>(s, h'). (SOk, False, h'))
      in if r_tag r = kTypeColumnFamilyValue \<or> r_tag r = kTypeValue then counted (h_PutCF H (r_cf r) (r_key r) (r_value r) h)
         else if r_tag r = kTypeColumnFamilyDeletion \<or> r_tag r = kTypeDeletion then counted (h_DeleteCF H (r_cf r) (r_key r) h)
         else if r_tag r = kTypeColumnFamilySingleDeletion \<or> r_tag r = kTypeSingleDeletion
         then counted (h_SingleDeleteCF H (r_cf r) (r_key r) h)
         else if r_tag r = kTypeColumnFamilyRangeDeletion \<or> r_tag r = kTypeRangeDeletion
         then counted (h_DeleteRangeCF H (r_cf r) (r_key r) (r_value r) h)
         else if r_tag r = kTypeColumnFamilyMerge \<or> r_tag r = kTypeMerge
         then counted (h_MergeCF H (r_cf r) (r_key r) (r_value r) h)
         else if r_tag r = kTypeLogData then (SOk, False, h_LogData H (r_blob r) h)
         else if r_tag r = kTypeBeginPrepareXID then uncounted (h_MarkBeginPrepare H h)
         else if r_tag r = kTypeEndPrepareXID then uncounted (h_MarkEndPrepare H (r_xid r) h)
         else if r_tag r = kTypeCommitXID then uncounted (h_MarkCommit H (r_xid r) h)
         else if r_tag r = kTypeRollbackXID then uncounted (h_MarkRollback H (r_xid r) h)
         else if r_tag r = kTypeNoop then (SOk, False, h)
         else (SCorruption ''unknown WriteBatch tag'', False, h))"

lemma GetVarint_rest:
  "GetVarint32 p = Some (v, q) \<Longrightarrow> length q < length p"
proof -
  have loop: "varint_loop m s r p = Some (v, q) \<Longrightarrow> length q < length p" for m s r
    by (induction m s r p rule: varint_loop.induct) (auto split: if_splits)
  show "GetVarint32 p = Some (v, q) \<Longrightarrow> length q < length p"
    using loop [of 28 0 0]
    by (auto simp: GetVarint32_def GetVarint32Ptr_def GetVarint32PtrFallback_def split: list.splits if_splits)
qed

lemma GetLengthPrefixedSlice_rest: "GetLengthPrefixedSlice p = (Some s, q) \<Longrightarrow> length q < length p"
  by (auto simp: GetLengthPrefixedSlice_def split: option.splits if_splits dest!: GetVarint_rest)

lemma get_rest:
  "get_cf m (r, p) = Inr (r', q) \<Longrightarrow> length q \<le> length p"
  "get_string m u (r, p) = Inr (r', q) \<Longrightarrow> length q \<le> length p"
  by (auto simp: get_cf_def get_string_def split: option.splits prod.splits dest: GetVarint_rest GetLengthPrefixedSlice_rest)

lemma get_kv_rest:
  "get_key m (r, p) = Inr (r', q) \<Longrightarrow> length q \<le> length p"
  "get_key_value m (r, p) = Inr (r', q) \<Longrightarrow> length q \<le> length p"
  by (auto simp: get_key_def get_key_value_def also_get_def split: sum.splits prod.splits dest!: get_rest)

lemma ReadRecord_rest:
  assumes "ReadRecordFromWriteBatch p = Inr (Inr (r, q))"
  shows "length q < length p"
proof (cases p)
  case (Cons tag input)
  then have "length q \<le> length input"
    using assms
    by (auto simp: ReadRecordFromWriteBatch_def Let_def also_get_def split: if_splits sum.splits prod.splits
        dest!: get_rest get_kv_rest)
  then show ?thesis using Cons by simp
qed (use assms in \<open>simp add: ReadRecordFromWriteBatch_def\<close>)

function iterate_loop :: "'h Handler \<Rightarrow> bytes \<Rightarrow> u32 \<Rightarrow> 'h \<Rightarrow> (RStatus \<times> u32 \<times> 'h) res" where
  "iterate_loop H input found h =
     (if input \<noteq> [] \<and> h_Continue H h then
        (case ReadRecordFromWriteBatch input of
           Inl f \<Rightarrow> Inl f
         | Inr (Inl s) \<Rightarrow> Inr (s, found, h)
         | Inr (Inr (r, input')) \<Rightarrow>
             (case dispatch H r h of (s, counts, h') \<Rightarrow>
                let found' = (if counts then found + 1 else found)
                in if s = SOk then iterate_loop H input' found' h' else Inr (s, found', h')))
      else Inr (SOk, found, h))"
  by pat_completeness auto
termination by (relation "measure (\<lambda>(H, input, found, h). length input)") (auto dest: ReadRecord_rest)

declare iterate_loop.simps [simp del]

definition Iterate :: "'h Handler \<Rightarrow> WriteBatch \<Rightarrow> 'h \<Rightarrow> (RStatus \<times> 'h) res" where
  "Iterate H b h =
     (if length (rep b) < kHeader then Inr (SCorruption ''malformed WriteBatch (too small)'', h)
      else rbind (iterate_loop H (drop kHeader (rep b)) 0 h) (\<lambda>(s, found, h').
        if s \<noteq> SOk then Inr (s, h')
        else rbind (Count b) (\<lambda>c.
          Inr (if found \<noteq> c then SCorruption ''WriteBatch has wrong count'' else SOk, h'))))"

text \<open>The reader that computes the flags of a batch.\<close>

definition BatchContentClassifier :: "u32 Handler" where
  "BatchContentClassifier =
     \<lparr>h_PutCF = (\<lambda>_ _ _ f. (SOk, f OR HAS_PUT)), h_DeleteCF = (\<lambda>_ _ f. (SOk, f OR HAS_DELETE)),
      h_SingleDeleteCF = (\<lambda>_ _ f. (SOk, f OR HAS_SINGLE_DELETE)), h_DeleteRangeCF = (\<lambda>_ _ _ f. (SOk, f OR HAS_DELETE_RANGE)),
      h_MergeCF = (\<lambda>_ _ _ f. (SOk, f OR HAS_MERGE)), h_LogData = (\<lambda>_ f. f),
      h_MarkBeginPrepare = (\<lambda>f. (SOk, f OR HAS_BEGIN_PREPARE)), h_MarkEndPrepare = (\<lambda>_ f. (SOk, f OR HAS_END_PREPARE)),
      h_MarkCommit = (\<lambda>_ f. (SOk, f OR HAS_COMMIT)), h_MarkRollback = (\<lambda>_ f. (SOk, f OR HAS_ROLLBACK)),
      h_Continue = (\<lambda>_. True)\<rparr>"

definition ComputeContentFlags :: "WriteBatch \<Rightarrow> (u32 \<times> WriteBatch) res" where
  "ComputeContentFlags b =
     (let rv = content_flags b
      in if rv AND DEFERRED \<noteq> 0
         then rbind (Iterate BatchContentClassifier b 0) (\<lambda>(s, f). Inr (f, b\<lparr>content_flags := f\<rparr>))
         else Inr (rv, b))"

definition has_flag :: "u32 \<Rightarrow> WriteBatch \<Rightarrow> (bool \<times> WriteBatch) res" where
  "has_flag f b = rbind (ComputeContentFlags b) (\<lambda>(rv, b'). Inr (rv AND f \<noteq> 0, b'))"

definition HasPut :: "WriteBatch \<Rightarrow> (bool \<times> WriteBatch) res" where "HasPut = has_flag HAS_PUT"
definition HasDelete :: "WriteBatch \<Rightarrow> (bool \<times> WriteBatch) res" where "HasDelete = has_flag HAS_DELETE"
definition HasSingleDelete :: "WriteBatch \<Rightarrow> (bool \<times> WriteBatch) res" where "HasSingleDelete = has_flag HAS_SINGLE_DELETE"
definition HasDeleteRange :: "WriteBatch \<Rightarrow> (bool \<times> WriteBatch) res" where "HasDeleteRange = has_flag HAS_DELETE_RANGE"
definition HasMerge :: "WriteBatch \<Rightarrow> (bool \<times> WriteBatch) res" where "HasMerge = has_flag HAS_MERGE"
definition HasBeginPrepare :: "WriteBatch \<Rightarrow> (bool \<times> WriteBatch) res" where "HasBeginPrepare = has_flag HAS_BEGIN_PREPARE"
definition HasEndPrepare :: "WriteBatch \<Rightarrow> (bool \<times> WriteBatch) res" where "HasEndPrepare = has_flag HAS_END_PREPARE"
definition HasCommit :: "WriteBatch \<Rightarrow> (bool \<times> WriteBatch) res" where "HasCommit = has_flag HAS_COMMIT"
definition HasRollback :: "WriteBatch \<Rightarrow> (bool \<times> WriteBatch) res" where "HasRollback = has_flag HAS_ROLLBACK"

subsection \<open>The entries of a batch\<close>

datatype wb_entry = EPut u32 bytes bytes | EDelete u32 bytes | ESingleDelete u32 bytes | EDeleteRange u32 bytes bytes
  | EMerge u32 bytes bytes | ELogData bytes | ENoop | EBeginPrepare | EEndPrepare bytes | ECommit bytes | ERollback bytes

definition enc_tag :: "ValueType \<Rightarrow> ValueType \<Rightarrow> u32 \<Rightarrow> bytes" where
  "enc_tag t ct cf = (if cf = 0 then [t] else ct # varint cf)"

abbreviation lps :: "bytes \<Rightarrow> bytes" where
  "lps s \<equiv> PutLengthPrefixedSlice [] s"

fun enc_entry :: "wb_entry \<Rightarrow> bytes" where
  "enc_entry (EPut cf k v) = enc_tag kTypeValue kTypeColumnFamilyValue cf @ lps k @ lps v"
| "enc_entry (EDelete cf k) = enc_tag kTypeDeletion kTypeColumnFamilyDeletion cf @ lps k"
| "enc_entry (ESingleDelete cf k) = enc_tag kTypeSingleDeletion kTypeColumnFamilySingleDeletion cf @ lps k"
| "enc_entry (EDeleteRange cf k v) = enc_tag kTypeRangeDeletion kTypeColumnFamilyRangeDeletion cf @ lps k @ lps v"
| "enc_entry (EMerge cf k v) = enc_tag kTypeMerge kTypeColumnFamilyMerge cf @ lps k @ lps v"
| "enc_entry (ELogData s) = kTypeLogData # lps s"
| "enc_entry ENoop = [kTypeNoop]"
| "enc_entry EBeginPrepare = [kTypeBeginPrepareXID]"
| "enc_entry (EEndPrepare x) = kTypeEndPrepareXID # lps x"
| "enc_entry (ECommit x) = kTypeCommitXID # lps x"
| "enc_entry (ERollback x) = kTypeRollbackXID # lps x"

fun entry_small :: "wb_entry \<Rightarrow> bool" where
  "entry_small (EPut cf k v) = (length k < 2 ^ 32 \<and> length v < 2 ^ 32)"
| "entry_small (EDelete cf k) = (length k < 2 ^ 32)"
| "entry_small (ESingleDelete cf k) = (length k < 2 ^ 32)"
| "entry_small (EDeleteRange cf k v) = (length k < 2 ^ 32 \<and> length v < 2 ^ 32)"
| "entry_small (EMerge cf k v) = (length k < 2 ^ 32 \<and> length v < 2 ^ 32)"
| "entry_small (ELogData s) = (length s < 2 ^ 32)"
| "entry_small ENoop = True"
| "entry_small EBeginPrepare = True"
| "entry_small (EEndPrepare x) = (length x < 2 ^ 32)"
| "entry_small (ECommit x) = (length x < 2 ^ 32)"
| "entry_small (ERollback x) = (length x < 2 ^ 32)"

fun counted :: "wb_entry \<Rightarrow> bool" where
  "counted (EPut cf k v) = True"
| "counted (EDelete cf k) = True"
| "counted (ESingleDelete cf k) = True"
| "counted (EDeleteRange cf k v) = True"
| "counted (EMerge cf k v) = True"
| "counted _ = False"

text \<open>What a reader does with an entry.\<close>

fun present :: "'h Handler \<Rightarrow> wb_entry \<Rightarrow> 'h \<Rightarrow> RStatus \<times> 'h" where
  "present H (EPut cf k v) h = h_PutCF H cf k v h"
| "present H (EDelete cf k) h = h_DeleteCF H cf k h"
| "present H (ESingleDelete cf k) h = h_SingleDeleteCF H cf k h"
| "present H (EDeleteRange cf k v) h = h_DeleteRangeCF H cf k v h"
| "present H (EMerge cf k v) h = h_MergeCF H cf k v h"
| "present H (ELogData s) h = (SOk, h_LogData H s h)"
| "present H ENoop h = (SOk, h)"
| "present H EBeginPrepare h = (SOk, snd (h_MarkBeginPrepare H h))"
| "present H (EEndPrepare x) h = (SOk, snd (h_MarkEndPrepare H x h))"
| "present H (ECommit x) h = (SOk, snd (h_MarkCommit H x h))"
| "present H (ERollback x) h = (SOk, snd (h_MarkRollback H x h))"

fun run_entries :: "'h Handler \<Rightarrow> wb_entry list \<Rightarrow> 'h \<Rightarrow> RStatus \<times> nat \<times> 'h" where
  "run_entries H [] h = (SOk, 0, h)"
| "run_entries H (e # es) h =
     (if h_Continue H h then
        (case present H e h of (s, h') \<Rightarrow>
           if s = SOk then (case run_entries H es h' of (s', n, h'') \<Rightarrow> (s', (if counted e then n + 1 else n), h''))
           else (s, if counted e then 1 else 0, h'))
      else (SOk, 0, h))"

lemma lps_read [simp]: "length s < 2 ^ 32 \<Longrightarrow> GetLengthPrefixedSlice (lps s @ rest) = (Some s, rest)"
  by (rule GetLengthPrefixedSlice_Put)

lemma get_string_lps [simp]: "length s < 2 ^ 32 \<Longrightarrow> get_string m u (r, lps s @ rest) = Inr (u s r, rest)"
  by (simp add: get_string_def)

lemma get_cf_varint [simp]: "get_cf m (r, varint cf @ rest) = Inr (r\<lparr>r_cf := cf\<rparr>, rest)"
  by (simp add: get_cf_def)

lemma also_get_simps [simp]: "also_get (Inr x) f = f x" "also_get (Inl s) f = Inl s"
  by (simp_all add: also_get_def)

lemma get_kv_lps [simp]:
  "length k < 2 ^ 32 \<Longrightarrow> get_key m (r, lps k @ rest) = Inr (r\<lparr>r_key := k\<rparr>, rest)"
  "length k < 2 ^ 32 \<Longrightarrow> length v < 2 ^ 32 \<Longrightarrow> get_key_value m (r, lps k @ lps v @ rest) = Inr (r\<lparr>r_key := k, r_value := v\<rparr>, rest)"
  by (simp_all add: get_key_def get_key_value_def)

text \<open>Reading an encoded entry and handing it to the reader.\<close>

lemma read_entry:
  assumes "entry_small e"
  obtains r where "ReadRecordFromWriteBatch (enc_entry e @ rest) = Inr (Inr (r, rest))"
    "dispatch H r h = (fst (present H e h), counted e, snd (present H e h))"
proof -
  have "\<exists>r. ReadRecordFromWriteBatch (enc_entry e @ rest) = Inr (Inr (r, rest)) \<and>
      dispatch H r h = (fst (present H e h), counted e, snd (present H e h))"
    using assms
    by (cases e) (simp_all add: ReadRecordFromWriteBatch_def Let_def enc_tag_def wb_record_new_def dispatch_def split: prod.splits)
  then show thesis using that by blast
qed

abbreviation enc_entries :: "wb_entry list \<Rightarrow> bytes" where
  "enc_entries es \<equiv> concat (map enc_entry es)"

abbreviation n_counted :: "wb_entry list \<Rightarrow> nat" where
  "n_counted es \<equiv> length (filter counted es)"

lemma enc_entry_not_empty [simp]: "enc_entry e \<noteq> []"
  by (cases e) (simp_all add: enc_tag_def)

lemma iterate_loop_entries:
  assumes "list_all entry_small es"
  shows "iterate_loop H (enc_entries es) found h =
    Inr (case run_entries H es h of (s, n, h') \<Rightarrow> (s, found + of_nat n, h'))"
  using assms
proof (induction es arbitrary: found h)
  case Nil
  show ?case by (subst iterate_loop.simps) simp
next
  case (Cons e es)
  obtain r where r: "ReadRecordFromWriteBatch (enc_entry e @ enc_entries es) = Inr (Inr (r, enc_entries es))"
    "dispatch H r h = (fst (present H e h), counted e, snd (present H e h))"
    using read_entry [of e "enc_entries es" H h] Cons.prems by auto
  show ?case
    by (subst iterate_loop.simps) (use r Cons in \<open>auto simp: Let_def split: prod.splits\<close>)
qed

lemma run_entries_count: "run_entries H es h = (s, n, h') \<Longrightarrow> n \<le> n_counted es"
proof (induction es arbitrary: h s n h')
  case (Cons e es)
  obtain s1 h1 where p: "present H e h = (s1, h1)" by (cases "present H e h")
  obtain s2 n2 h2 where r: "run_entries H es h1 = (s2, n2, h2)" by (cases "run_entries H es h1")
  show ?case using Cons.prems Cons.IH [OF r] p r by (auto split: if_splits)
qed simp

definition wb_bytes :: "u64 \<Rightarrow> wb_entry list \<Rightarrow> bytes" where
  "wb_bytes s es = to_le 8 s @ to_le 4 (of_nat (n_counted es) :: u32) @ enc_entries es"

lemma length_wb_bytes [simp]: "length (wb_bytes s es) = 12 + length (enc_entries es)"
  by (simp add: wb_bytes_def)

lemma drop_wb_bytes [simp]: "drop 12 (wb_bytes s es) = enc_entries es"
  by (simp add: wb_bytes_def)

lemma Count_bytes: "rep b = wb_bytes s es \<Longrightarrow> Count b = Inr (of_nat (n_counted es))"
  by (simp add: Count_def wb_bytes_def)

lemma overwrite_count:
  "overwrite (to_le 8 (s :: u64) @ to_le 4 (c :: u32) @ x) 8 (to_le 4 (d :: u32)) = to_le 8 s @ to_le 4 d @ x"
  by (simp add: overwrite_def)

lemma SetCount_bytes: "rep b = to_le 8 (s :: u64) @ to_le 4 (c :: u32) @ x \<Longrightarrow> SetCount b d = Inr (b\<lparr>rep := to_le 8 s @ to_le 4 d @ x\<rparr>)"
  by (simp add: SetCount_def overwrite_count)

lemma Iterate_entries:
  assumes "rep b = wb_bytes s es" "list_all entry_small es" "n_counted es < 2 ^ 32"
  shows "Iterate H b h = Inr (case run_entries H es h of (st, n, h') \<Rightarrow>
    (if st \<noteq> SOk then st else if n = n_counted es then SOk else SCorruption ''WriteBatch has wrong count'', h'))"
proof -
  obtain st n h' where r: "run_entries H es h = (st, n, h')" by (cases "run_entries H es h")
  have "(of_nat n :: u32) = of_nat (n_counted es) \<longleftrightarrow> n = n_counted es"
    using run_entries_count [OF r] assms(3) by (intro of_nat_inject_small) simp_all
  then show ?thesis
    using assms r by (simp add: Iterate_def Count_bytes iterate_loop_entries)
qed

text \<open>A reader that never stops and never fails sees all entries.\<close>

lemma run_entries_all:
  assumes "\<And>h. h_Continue H h" "\<And>e h. e \<in> set es \<Longrightarrow> fst (present H e h) = SOk"
  shows "run_entries H es h = (SOk, n_counted es, fold (\<lambda>e h. snd (present H e h)) es h)"
  using assms(2)
proof (induction es arbitrary: h)
  case (Cons e es)
  have "fst (present H e h) = SOk" using Cons.prems by simp
  then show ?case using Cons assms(1) by (simp add: case_prod_beta)
qed simp

subsection \<open>Flags\<close>

fun entry_flag :: "wb_entry \<Rightarrow> u32" where
  "entry_flag (EPut cf k v) = HAS_PUT"
| "entry_flag (EDelete cf k) = HAS_DELETE"
| "entry_flag (ESingleDelete cf k) = HAS_SINGLE_DELETE"
| "entry_flag (EDeleteRange cf k v) = HAS_DELETE_RANGE"
| "entry_flag (EMerge cf k v) = HAS_MERGE"
| "entry_flag (ELogData s) = 0"
| "entry_flag ENoop = 0"
| "entry_flag EBeginPrepare = HAS_BEGIN_PREPARE"
| "entry_flag (EEndPrepare x) = HAS_END_PREPARE"
| "entry_flag (ECommit x) = HAS_COMMIT"
| "entry_flag (ERollback x) = HAS_ROLLBACK"

definition flags_of :: "wb_entry list \<Rightarrow> u32" where
  "flags_of es = fold (\<lambda>e f. f OR entry_flag e) es 0"

lemma fold_flags: "fold (\<lambda>e f. f OR entry_flag e) es g = g OR flags_of es"
proof -
  have "fold (\<lambda>e f. f OR entry_flag e) es (g OR h) = g OR fold (\<lambda>e f. f OR entry_flag e) es h" for g h
    by (induction es arbitrary: h) (simp_all add: or.assoc)
  from this [of g 0] show ?thesis by (simp add: flags_of_def)
qed

lemma flags_of_simps [simp]: "flags_of [] = 0" "flags_of (e # es) = entry_flag e OR flags_of es"
  "flags_of (es @ fs) = flags_of es OR flags_of fs"
proof -
  show "flags_of [] = 0" by (simp add: flags_of_def)
  have "flags_of (e # es) = fold (\<lambda>e f. f OR entry_flag e) es (entry_flag e)" by (simp add: flags_of_def)
  then show "flags_of (e # es) = entry_flag e OR flags_of es" by (simp only: fold_flags)
  have "flags_of (es @ fs) = fold (\<lambda>e f. f OR entry_flag e) fs (flags_of es)" by (simp add: flags_of_def)
  then show "flags_of (es @ fs) = flags_of es OR flags_of fs" by (simp only: fold_flags)
qed

lemma classifier_present: "present BatchContentClassifier e f = (SOk, f OR entry_flag e)"
  by (cases e) (simp_all add: BatchContentClassifier_def)

lemma classify:
  assumes "rep b = wb_bytes s es" "list_all entry_small es" "n_counted es < 2 ^ 32"
  shows "Iterate BatchContentClassifier b 0 = Inr (SOk, flags_of es)"
proof -
  have "h_Continue BatchContentClassifier h" for h by (simp add: BatchContentClassifier_def)
  then have "run_entries BatchContentClassifier es 0 = (SOk, n_counted es, flags_of es)"
    by (simp add: run_entries_all classifier_present flags_of_def)
  then show ?thesis unfolding Iterate_entries [OF assms] by simp
qed

subsection \<open>The specification: a list of entries with save points\<close>

record batch_spec =
  b_entries :: "wb_entry list"
  b_saves :: "wb_entry list list"
  b_limit :: nat

text \<open>An entry is refused when the batch would outgrow its limit.\<close>

definition spec_add :: "wb_entry \<Rightarrow> batch_spec \<Rightarrow> RStatus \<times> batch_spec" where
  "spec_add e a =
     (if b_limit a \<noteq> 0 \<and> 12 + length (enc_entries (b_entries a @ [e])) > b_limit a then (SMemoryLimit, a)
      else (SOk, a\<lparr>b_entries := b_entries a @ [e]\<rparr>))"

definition spec_rollback :: "batch_spec \<Rightarrow> RStatus \<times> batch_spec" where
  "spec_rollback a =
     (case b_saves a of [] \<Rightarrow> (SNotFound, a) | es # st \<Rightarrow> (SOk, a\<lparr>b_entries := es, b_saves := st\<rparr>))"

definition spec_pop :: "batch_spec \<Rightarrow> RStatus \<times> batch_spec" where
  "spec_pop a = (case b_saves a of [] \<Rightarrow> (SNotFound, a) | es # st \<Rightarrow> (SOk, a\<lparr>b_saves := st\<rparr>))"

definition point_of :: "wb_entry list \<Rightarrow> SavePoint" where
  "point_of es = \<lparr>sp_size = 12 + length (enc_entries es), sp_count = of_nat (n_counted es), sp_flags = flags_of es\<rparr>"

definition saved :: "WriteBatch \<Rightarrow> SavePoint list" where
  "saved b = (case save_points b of None \<Rightarrow> [] | Some st \<Rightarrow> st)"

definition wb_rel :: "u64 \<Rightarrow> WriteBatch \<Rightarrow> batch_spec \<Rightarrow> bool" where
  "wb_rel s b a \<longleftrightarrow> rep b = wb_bytes s (b_entries a) \<and> content_flags b = flags_of (b_entries a) \<and>
     list_all entry_small (b_entries a) \<and> max_bytes b = b_limit a \<and> saved b = map point_of (b_saves a) \<and>
     sorted_wrt (\<lambda>x y. prefix y x) (b_entries a # b_saves a)"

lemma wb_relD:
  assumes "wb_rel s b a"
  shows "rep b = wb_bytes s (b_entries a)" "content_flags b = flags_of (b_entries a)" "list_all entry_small (b_entries a)"
    "max_bytes b = b_limit a" "saved b = map point_of (b_saves a)" "sorted_wrt (\<lambda>x y. prefix y x) (b_entries a # b_saves a)"
    "LocalSavePoint b = Inr (point_of (b_entries a))"
  using assms Count_bytes [of b s "b_entries a"] by (auto simp: wb_rel_def LocalSavePoint_def point_of_def)

lemma wb_rel_new: "wb_rel 0 (WriteBatch_new mb) \<lparr>b_entries = [], b_saves = [], b_limit = mb\<rparr>"
proof -
  have "to_le 8 (0 :: u64) = replicate 8 0" "to_le 4 (0 :: u32) = replicate 4 0" by (simp_all add: to_le_unrolled numeral_eq_Suc)
  then have "wb_bytes 0 [] = replicate 12 0" by (simp add: wb_bytes_def replicate_add [symmetric])
  then show ?thesis by (simp add: wb_rel_def WriteBatch_new_def saved_def)
qed

lemma prefix_chain:
  "sorted_wrt (\<lambda>x y. prefix y x) (es # st) \<Longrightarrow> sorted_wrt (\<lambda>x y. prefix y x) ((es @ [e]) # st)"
  by auto

lemma wb_bytes_add:
  "wb_bytes s (es @ [e]) = to_le 8 s @ to_le 4 (if counted e then of_nat (n_counted es) + 1 else of_nat (n_counted es) :: u32) @
     enc_entries es @ enc_entry e"
  by (simp add: wb_bytes_def add.commute)

text \<open>Committing an entry that was appended to a batch.\<close>

lemma commit_entry:
  assumes "wb_rel s b a" "entry_small e"
    "b' = b\<lparr>rep := wb_bytes s (b_entries a @ [e]), content_flags := flags_of (b_entries a @ [e])\<rparr>"
  shows "\<exists>b'' a'. commit (point_of (b_entries a)) b' = Inr (fst (spec_add e a), b'') \<and> snd (spec_add e a) = a' \<and> wb_rel s b'' a'"
proof -
  note r = wb_relD [OF assms(1)]
  let ?es = "b_entries a"
  show ?thesis
  proof (cases "b_limit a \<noteq> 0 \<and> 12 + length (enc_entries (?es @ [e])) > b_limit a")
    case True
    let ?c = "if counted e then of_nat (n_counted ?es) + 1 else of_nat (n_counted ?es) :: u32"
    have t: "take (12 + length (enc_entries ?es)) (wb_bytes s (?es @ [e])) = to_le 8 s @ to_le 4 ?c @ enc_entries ?es"
      unfolding wb_bytes_add by simp
    have "commit (point_of ?es) b' = Inr (SMemoryLimit, b)"
      using True assms(3) r t
      by (simp add: commit_def point_of_def SetCount_def overwrite_count) (simp add: wb_bytes_def)
    then show ?thesis using True assms(1) by (simp add: spec_add_def)
  next
    case False
    then have "commit (point_of ?es) b' = Inr (SOk, b')" "spec_add e a = (SOk, a\<lparr>b_entries := ?es @ [e]\<rparr>)"
      using assms(3) r by (auto simp: commit_def spec_add_def)
    moreover have "wb_rel s b' (a\<lparr>b_entries := ?es @ [e]\<rparr>)"
      using assms(2,3) r prefix_chain [OF r(6), of e] by (simp add: wb_rel_def saved_def)
    ultimately show ?thesis by simp
  qed
qed

lemma add_entry:
  assumes "wb_rel s b a" "entry_small e" "counted e" "enc_entry e = enc_tag t ct cf @ body" "entry_flag e = f"
  shows "\<exists>b'. rbind (LocalSavePoint b) (\<lambda>save. rbind (add_tag t ct cf b) (\<lambda>b.
      commit save (or_flags f (b\<lparr>rep := rep b @ body\<rparr>)))) = Inr (fst (spec_add e a), b') \<and> wb_rel s b' (snd (spec_add e a))"
proof -
  note r = wb_relD [OF assms(1)]
  let ?es = "b_entries a"
  have sc: "SetCount b (of_nat (n_counted ?es) + 1) = Inr (b\<lparr>rep := to_le 8 s @ to_le 4 (of_nat (n_counted ?es) + 1 :: u32) @ enc_entries ?es\<rparr>)"
    by (rule SetCount_bytes [where c = "of_nat (n_counted ?es)"]) (simp add: r(1) wb_bytes_def)
  have at: "add_tag t ct cf b =
      Inr (b\<lparr>rep := to_le 8 s @ to_le 4 (of_nat (n_counted ?es) + 1 :: u32) @ enc_entries ?es @ enc_tag t ct cf\<rparr>)"
    using Count_bytes [OF r(1)] sc by (simp add: add_tag_def enc_tag_def)
  let ?b = "b\<lparr>rep := wb_bytes s (?es @ [e]), content_flags := flags_of (?es @ [e])\<rparr>"
  have "rbind (LocalSavePoint b) (\<lambda>save. rbind (add_tag t ct cf b) (\<lambda>b.
      commit save (or_flags f (b\<lparr>rep := rep b @ body\<rparr>)))) = commit (point_of ?es) ?b"
    using r(2,7) at assms(3-5) by (simp add: or_flags_def wb_bytes_add)
  then show ?thesis using commit_entry [OF assms(1,2) refl] by auto
qed

lemma add_log_data:
  assumes "wb_rel s b a" "length x < 2 ^ 32"
  shows "\<exists>b'. PutLogData x b = Inr (fst (spec_add (ELogData x) a), b') \<and> wb_rel s b' (snd (spec_add (ELogData x) a))"
proof -
  note r = wb_relD [OF assms(1)]
  let ?es = "b_entries a"
  have u: "b\<lparr>rep := y, content_flags := flags_of ?es\<rparr> = b\<lparr>rep := y\<rparr>" for y using r(2) by (cases b) simp
  have "PutLogData x b = commit (point_of ?es) (b\<lparr>rep := wb_bytes s (?es @ [ELogData x]), content_flags := flags_of (?es @ [ELogData x])\<rparr>)"
    using r(1,7) by (simp add: PutLogData_def wb_bytes_add u) (simp add: wb_bytes_def PutLengthPrefixedSlice_dst [of "_ @ _"])
  then show ?thesis using commit_entry [OF assms(1) _ refl, of "ELogData x"] assms(2) by auto
qed

text \<open>The markers are appended without a check of the limit.\<close>

lemma add_marker:
  assumes "wb_rel s b a" "entry_small e" "\<not> counted e"
  shows "wb_rel s (or_flags (entry_flag e) (b\<lparr>rep := rep b @ enc_entry e\<rparr>)) (a\<lparr>b_entries := b_entries a @ [e]\<rparr>)"
  using wb_relD [OF assms(1)] assms(2,3) prefix_chain
  by (simp add: wb_rel_def or_flags_def wb_bytes_add saved_def) (simp add: wb_bytes_def)

lemma set_save_point:
  assumes "wb_rel s b a"
  shows "\<exists>b'. SetSavePoint b = Inr b' \<and> wb_rel s b' (a\<lparr>b_saves := b_entries a # b_saves a\<rparr>)"
proof -
  note r = wb_relD [OF assms]
  have "SetSavePoint b = Inr (b\<lparr>save_points := Some (point_of (b_entries a) # saved b)\<rparr>)"
    using Count_bytes [OF r(1)] r(1,2) by (simp add: SetSavePoint_def Let_def saved_def point_of_def)
  then show ?thesis using r by (auto simp: wb_rel_def saved_def)
qed

lemma enc_entries_prefix:
  assumes "prefix xs ys" "length (enc_entries xs) = length (enc_entries ys)"
  shows "xs = ys"
proof -
  obtain zs where "ys = xs @ zs" using assms(1) by (auto simp: prefix_def)
  then show ?thesis using assms(2) by (cases zs) auto
qed

lemma saved_cases:
  "saved b = [] \<longleftrightarrow> save_points b = None \<or> save_points b = Some []" "saved b = p # st \<longleftrightarrow> save_points b = Some (p # st)"
  by (auto simp: saved_def split: option.splits)

lemma rollback_ok:
  assumes "wb_rel s b a"
  shows "\<exists>b'. RollbackToSavePoint b = Inr (fst (spec_rollback a), b') \<and> wb_rel s b' (snd (spec_rollback a))"
proof (cases "b_saves a")
  case Nil
  then have "saved b = []" using wb_relD(5) [OF assms] by simp
  then have "RollbackToSavePoint b = Inr (SNotFound, b)" by (auto simp: RollbackToSavePoint_def saved_cases)
  then show ?thesis using Nil assms by (simp add: spec_rollback_def)
next
  case (Cons es st)
  note r = wb_relD [OF assms]
  have sp: "save_points b = Some (point_of es # map point_of st)" using r(5) Cons by (simp add: saved_cases(2) [symmetric])
  obtain fs where fs: "b_entries a = es @ fs" using r(6) Cons by (auto simp: prefix_def)
  let ?b = "b\<lparr>save_points := Some (map point_of st)\<rparr>"
  have "RollbackToSavePoint b = Inr (SOk, ?b\<lparr>rep := wb_bytes s es, content_flags := flags_of es\<rparr>)"
  proof (cases "fs = []")
    case True
    then show ?thesis using sp r(1,2) fs by (simp add: RollbackToSavePoint_def point_of_def)
  next
    case False
    then have l: "length (enc_entries es) < length (enc_entries (b_entries a))" using fs by (cases fs) simp_all
    have "resize (12 + length (enc_entries es)) (wb_bytes s (b_entries a)) =
        to_le 8 s @ to_le 4 (of_nat (n_counted (b_entries a)) :: u32) @ enc_entries es"
      using fs by (simp add: resize_def wb_bytes_def)
    then show ?thesis using sp r(1) l
      by (simp add: RollbackToSavePoint_def point_of_def Let_def SetCount_def overwrite_count) (simp add: wb_bytes_def)
  qed
  moreover have "wb_rel s (?b\<lparr>rep := wb_bytes s es, content_flags := flags_of es\<rparr>) (a\<lparr>b_entries := es, b_saves := st\<rparr>)"
    using r Cons fs by (auto simp: wb_rel_def saved_def)
  ultimately show ?thesis using Cons by (simp add: spec_rollback_def)
qed

lemma pop_ok:
  assumes "wb_rel s b a"
  shows "fst (PopSavePoint b) = fst (spec_pop a)" "wb_rel s (snd (PopSavePoint b)) (snd (spec_pop a))"
proof -
  note r = wb_relD [OF assms]
  have "fst (PopSavePoint b) = fst (spec_pop a) \<and> wb_rel s (snd (PopSavePoint b)) (snd (spec_pop a))"
  proof (cases "b_saves a")
    case Nil
    then have "saved b = []" using r(5) by simp
    then show ?thesis using Nil assms by (auto simp: PopSavePoint_def spec_pop_def saved_cases)
  next
    case (Cons es st)
    then have "save_points b = Some (point_of es # map point_of st)" using r(5) by (simp add: saved_cases(2) [symmetric])
    then show ?thesis using Cons r by (auto simp: PopSavePoint_def spec_pop_def wb_rel_def saved_def)
  qed
  then show "fst (PopSavePoint b) = fst (spec_pop a)" "wb_rel s (snd (PopSavePoint b)) (snd (spec_pop a))" by simp_all
qed

lemma clear_ok:
  assumes "wb_rel 0 b a"
  shows "wb_rel 0 (WriteBatch_Clear b) \<lparr>b_entries = [], b_saves = [], b_limit = b_limit a\<rparr>"
  using wb_rel_new [of "max_bytes b"] wb_relD(4) [OF assms]
  by (auto simp: wb_rel_def WriteBatch_Clear_def WriteBatch_new_def saved_def split: option.splits)

lemma end_prepare_ok:
  assumes "wb_rel s b a" "b_entries a = ENoop # es" "length x < 2 ^ 32"
  shows "\<exists>b'. MarkEndPrepare x b = Inr (SOk, b') \<and>
    wb_rel s b' (a\<lparr>b_entries := EBeginPrepare # es @ [EEndPrepare x], b_saves := []\<rparr>)"
proof -
  note r = wb_relD [OF assms(1)]
  let ?h = "to_le 8 s @ to_le 4 (of_nat (n_counted es) :: u32)"
  have w: "rep b = ?h @ kTypeNoop # enc_entries es" using r(1) assms(2) by (simp add: wb_bytes_def)
  then have u: "(rep b)[12 := kTypeBeginPrepareXID] = ?h @ kTypeBeginPrepareXID # enc_entries es"
    using list_update_length [of ?h kTypeNoop "enc_entries es" kTypeBeginPrepareXID] by simp
  let ?es = "EBeginPrepare # es @ [EEndPrepare x]"
  let ?b = "b\<lparr>save_points := map_option (\<lambda>_. []) (save_points b), rep := wb_bytes s ?es, content_flags := flags_of ?es\<rparr>"
  have l: "\<not> length (rep b) \<le> 12" using w by simp
  have p: "PutLengthPrefixedSlice ((rep b)[12 := kTypeBeginPrepareXID] @ [kTypeEndPrepareXID]) x = wb_bytes s ?es"
    unfolding u PutLengthPrefixedSlice_dst [of "_ @ _"] by (simp add: wb_bytes_def)
  have f: "flags_of es OR (HAS_END_PREPARE OR HAS_BEGIN_PREPARE) = flags_of ?es"
    unfolding flags_of_simps entry_flag.simps or.right_neutral by (simp only: or.commute or.left_commute or.assoc)
  have c: "content_flags b = flags_of es" using r(2) assms(2) by simp
  have "MarkEndPrepare x b = Inr (SOk, ?b)"
    using l p f c by (simp add: MarkEndPrepare_def Let_def or_flags_def del: flags_of_simps)
  moreover have "wb_rel s ?b (a\<lparr>b_entries := ?es, b_saves := []\<rparr>)"
    using r(3,4) assms(2,3) by (auto simp: wb_rel_def saved_def split: option.splits)
  ultimately show ?thesis by blast
qed

subsection \<open>Programs on a batch\<close>

datatype wb_op =
    OPut "u32 option" bytes bytes | OPutParts u32 "bytes list" "bytes list"
  | ODelete "u32 option" bytes | ODeleteParts u32 "bytes list"
  | OSingleDelete "u32 option" bytes | OSingleDeleteParts u32 "bytes list"
  | ODeleteRange "u32 option" bytes bytes | ODeleteRangeParts u32 "bytes list" "bytes list"
  | OMerge "u32 option" bytes bytes | OMergeParts u32 "bytes list" "bytes list"
  | OLogData bytes | ONoop | OEndPrepare bytes | OCommit bytes | ORollbackXID bytes
  | OSetSavePoint | ORollback | OPop | OClear

fun wb_exec :: "wb_op \<Rightarrow> WriteBatch \<Rightarrow> (RStatus \<times> WriteBatch) res" where
  "wb_exec (OPut cf k v) b = WriteBatch_Put cf k v b"
| "wb_exec (OPutParts cf k v) b = WriteBatchInternal_Put_parts cf k v b"
| "wb_exec (ODelete cf k) b = WriteBatch_Delete cf k b"
| "wb_exec (ODeleteParts cf k) b = WriteBatchInternal_Delete_parts cf k b"
| "wb_exec (OSingleDelete cf k) b = WriteBatch_SingleDelete cf k b"
| "wb_exec (OSingleDeleteParts cf k) b = WriteBatchInternal_SingleDelete_parts cf k b"
| "wb_exec (ODeleteRange cf k v) b = WriteBatch_DeleteRange cf k v b"
| "wb_exec (ODeleteRangeParts cf k v) b = WriteBatchInternal_DeleteRange_parts cf k v b"
| "wb_exec (OMerge cf k v) b = WriteBatch_Merge cf k v b"
| "wb_exec (OMergeParts cf k v) b = WriteBatchInternal_Merge_parts cf k v b"
| "wb_exec (OLogData x) b = PutLogData x b"
| "wb_exec ONoop b = Inr (InsertNoop b)"
| "wb_exec (OEndPrepare x) b = MarkEndPrepare x b"
| "wb_exec (OCommit x) b = Inr (MarkCommit x b)"
| "wb_exec (ORollbackXID x) b = Inr (MarkRollback x b)"
| "wb_exec OSetSavePoint b = rbind (SetSavePoint b) (\<lambda>b'. Inr (SOk, b'))"
| "wb_exec ORollback b = RollbackToSavePoint b"
| "wb_exec OPop b = Inr (PopSavePoint b)"
| "wb_exec OClear b = Inr (SOk, WriteBatch_Clear b)"

fun op_entry :: "wb_op \<Rightarrow> wb_entry" where
  "op_entry (OPut cf k v) = EPut (GetColumnFamilyID cf) k v"
| "op_entry (OPutParts cf k v) = EPut cf (concat k) (concat v)"
| "op_entry (ODelete cf k) = EDelete (GetColumnFamilyID cf) k"
| "op_entry (ODeleteParts cf k) = EDelete cf (concat k)"
| "op_entry (OSingleDelete cf k) = ESingleDelete (GetColumnFamilyID cf) k"
| "op_entry (OSingleDeleteParts cf k) = ESingleDelete cf (concat k)"
| "op_entry (ODeleteRange cf k v) = EDeleteRange (GetColumnFamilyID cf) k v"
| "op_entry (ODeleteRangeParts cf k v) = EDeleteRange cf (concat k) (concat v)"
| "op_entry (OMerge cf k v) = EMerge (GetColumnFamilyID cf) k v"
| "op_entry (OMergeParts cf k v) = EMerge cf (concat k) (concat v)"
| "op_entry (OLogData x) = ELogData x"
| "op_entry (OEndPrepare x) = EEndPrepare x"
| "op_entry (OCommit x) = ECommit x"
| "op_entry (ORollbackXID x) = ERollback x"
| "op_entry _ = ENoop"

fun spec_exec :: "wb_op \<Rightarrow> batch_spec \<Rightarrow> RStatus \<times> batch_spec" where
  "spec_exec ONoop a = (SOk, a\<lparr>b_entries := b_entries a @ [ENoop]\<rparr>)"
| "spec_exec (OEndPrepare x) a = (SOk, a\<lparr>b_entries := EBeginPrepare # tl (b_entries a) @ [EEndPrepare x], b_saves := []\<rparr>)"
| "spec_exec (OCommit x) a = (SOk, a\<lparr>b_entries := b_entries a @ [ECommit x]\<rparr>)"
| "spec_exec (ORollbackXID x) a = (SOk, a\<lparr>b_entries := b_entries a @ [ERollback x]\<rparr>)"
| "spec_exec OSetSavePoint a = (SOk, a\<lparr>b_saves := b_entries a # b_saves a\<rparr>)"
| "spec_exec ORollback a = spec_rollback a"
| "spec_exec OPop a = spec_pop a"
| "spec_exec OClear a = (SOk, \<lparr>b_entries = [], b_saves = [], b_limit = b_limit a\<rparr>)"
| "spec_exec op a = spec_add (op_entry op) a"

text \<open>Strings of less than four gigabytes, and an end marker only where the first record is the one that it rewrites.\<close>

fun op_ok :: "wb_op \<Rightarrow> batch_spec \<Rightarrow> bool" where
  "op_ok (OEndPrepare x) a \<longleftrightarrow> entry_small (EEndPrepare x) \<and> b_entries a \<noteq> [] \<and> hd (b_entries a) = ENoop"
| "op_ok op a \<longleftrightarrow> entry_small (op_entry op)"

lemma parts_app: "PutLengthPrefixedSliceParts x y = x @ lps (concat y)"
  unfolding PutLengthPrefixedSliceParts_eq by (rule PutLengthPrefixedSlice_dst)

lemmas slice_app = PutLengthPrefixedSlice_dst [of "rep _"] PutLengthPrefixedSlice_dst [of "_ @ _"]

lemma exec_ok:
  assumes "wb_rel 0 b a" "op_ok op a"
  shows "\<exists>b'. wb_exec op b = Inr (fst (spec_exec op a), b') \<and> wb_rel 0 b' (snd (spec_exec op a))"
proof (cases op)
  case (OEndPrepare x)
  then obtain es where "b_entries a = ENoop # es" "length x < 2 ^ 32" using assms(2) by (cases "b_entries a") auto
  then show ?thesis using end_prepare_ok [OF assms(1)] OEndPrepare by simp
next
  case (OPut cf k v)
  then show ?thesis
    using add_entry [OF assms(1), of "op_entry op" kTypeValue kTypeColumnFamilyValue "GetColumnFamilyID cf" "lps k @ lps v" HAS_PUT] assms(2)
    by (simp add: WriteBatch_Put_def WriteBatchInternal_Put_def Let_def slice_app)
next
  case (OPutParts cf k v)
  then show ?thesis
    using add_entry [OF assms(1), of "op_entry op" kTypeValue kTypeColumnFamilyValue cf "lps (concat k) @ lps (concat v)" HAS_PUT] assms(2)
    by (simp add: WriteBatchInternal_Put_parts_def Let_def parts_app)
next
  case (ODelete cf k)
  then show ?thesis
    using add_entry [OF assms(1), of "op_entry op" kTypeDeletion kTypeColumnFamilyDeletion "GetColumnFamilyID cf" "lps k" HAS_DELETE] assms(2)
    by (simp add: WriteBatch_Delete_def WriteBatchInternal_Delete_def slice_app)
next
  case (ODeleteParts cf k)
  then show ?thesis
    using add_entry [OF assms(1), of "op_entry op" kTypeDeletion kTypeColumnFamilyDeletion cf "lps (concat k)" HAS_DELETE] assms(2)
    by (simp add: WriteBatchInternal_Delete_parts_def parts_app)
next
  case (OSingleDelete cf k)
  then show ?thesis
    using add_entry [OF assms(1), of "op_entry op" kTypeSingleDeletion kTypeColumnFamilySingleDeletion "GetColumnFamilyID cf" "lps k"
        HAS_SINGLE_DELETE] assms(2)
    by (simp add: WriteBatch_SingleDelete_def WriteBatchInternal_SingleDelete_def slice_app)
next
  case (OSingleDeleteParts cf k)
  then show ?thesis
    using add_entry [OF assms(1), of "op_entry op" kTypeSingleDeletion kTypeColumnFamilySingleDeletion cf "lps (concat k)"
        HAS_SINGLE_DELETE] assms(2)
    by (simp add: WriteBatchInternal_SingleDelete_parts_def parts_app)
next
  case (ODeleteRange cf k v)
  then show ?thesis
    using add_entry [OF assms(1), of "op_entry op" kTypeRangeDeletion kTypeColumnFamilyRangeDeletion "GetColumnFamilyID cf" "lps k @ lps v"
        HAS_DELETE_RANGE] assms(2)
    by (simp add: WriteBatch_DeleteRange_def WriteBatchInternal_DeleteRange_def Let_def slice_app)
next
  case (ODeleteRangeParts cf k v)
  then show ?thesis
    using add_entry [OF assms(1), of "op_entry op" kTypeRangeDeletion kTypeColumnFamilyRangeDeletion cf "lps (concat k) @ lps (concat v)"
        HAS_DELETE_RANGE] assms(2)
    by (simp add: WriteBatchInternal_DeleteRange_parts_def Let_def parts_app)
next
  case (OMerge cf k v)
  then show ?thesis
    using add_entry [OF assms(1), of "op_entry op" kTypeMerge kTypeColumnFamilyMerge "GetColumnFamilyID cf" "lps k @ lps v" HAS_MERGE] assms(2)
    by (simp add: WriteBatch_Merge_def WriteBatchInternal_Merge_def Let_def slice_app)
next
  case (OMergeParts cf k v)
  then show ?thesis
    using add_entry [OF assms(1), of "op_entry op" kTypeMerge kTypeColumnFamilyMerge cf "lps (concat k) @ lps (concat v)" HAS_MERGE] assms(2)
    by (simp add: WriteBatchInternal_Merge_parts_def Let_def parts_app)
next
  case (OLogData x)
  then show ?thesis using add_log_data [OF assms(1)] assms(2) by simp
next
  case ONoop
  have "or_flags 0 b' = b'" for b' by (simp add: or_flags_def)
  then show ?thesis using add_marker [OF assms(1), of ENoop] ONoop by (simp add: InsertNoop_def)
next
  case (OCommit x)
  then show ?thesis using add_marker [OF assms(1), of "ECommit x"] assms(2) by (simp add: MarkCommit_def slice_app)
next
  case (ORollbackXID x)
  then show ?thesis using add_marker [OF assms(1), of "ERollback x"] assms(2) by (simp add: MarkRollback_def slice_app)
next
  case OSetSavePoint
  then show ?thesis using set_save_point [OF assms(1)] by auto
next
  case ORollback
  then show ?thesis using rollback_ok [OF assms(1)] by simp
next
  case OPop
  then show ?thesis using pop_ok [OF assms(1)] by (cases "PopSavePoint b") simp
next
  case OClear
  then show ?thesis using clear_ok [OF assms(1)] by simp
qed

primrec wb_run :: "wb_op list \<Rightarrow> WriteBatch \<Rightarrow> (RStatus list \<times> WriteBatch) res" where
  "wb_run [] b = Inr ([], b)"
| "wb_run (op # ops) b = rbind (wb_exec op b) (\<lambda>(st, b'). rbind (wb_run ops b') (\<lambda>(sts, b''). Inr (st # sts, b'')))"

primrec spec_run :: "wb_op list \<Rightarrow> batch_spec \<Rightarrow> RStatus list \<times> batch_spec" where
  "spec_run [] a = ([], a)"
| "spec_run (op # ops) a =
     (case spec_exec op a of (st, a') \<Rightarrow> case spec_run ops a' of (sts, a'') \<Rightarrow> (st # sts, a''))"

primrec ops_ok :: "wb_op list \<Rightarrow> batch_spec \<Rightarrow> bool" where
  "ops_ok [] a \<longleftrightarrow> True"
| "ops_ok (op # ops) a \<longleftrightarrow> op_ok op a \<and> ops_ok ops (snd (spec_exec op a))"

lemma run_ok:
  assumes "wb_rel 0 b a" "ops_ok ops a"
  shows "\<exists>b'. wb_run ops b = Inr (fst (spec_run ops a), b') \<and> wb_rel 0 b' (snd (spec_run ops a))"
  using assms
proof (induction ops arbitrary: b a)
  case (Cons op ops)
  obtain b1 where b1: "wb_exec op b = Inr (fst (spec_exec op a), b1)" "wb_rel 0 b1 (snd (spec_exec op a))"
    using exec_ok [OF Cons.prems(1)] Cons.prems(2) by auto
  obtain b2 where "wb_run ops b1 = Inr (fst (spec_run ops (snd (spec_exec op a))), b2)"
    "wb_rel 0 b2 (snd (spec_run ops (snd (spec_exec op a))))"
    using Cons.IH [OF b1(2)] Cons.prems(2) by auto
  then show ?case using b1 by (simp add: case_prod_beta)
qed simp

text \<open>The number of entries is at most the number of operations.\<close>

definition spec_bound :: "nat \<Rightarrow> batch_spec \<Rightarrow> bool" where
  "spec_bound n a \<longleftrightarrow> n_counted (b_entries a) \<le> n \<and> (\<forall>x \<in> set (b_saves a). n_counted x \<le> n)"

lemma spec_bound_exec: "spec_bound n a \<Longrightarrow> spec_bound (Suc n) (snd (spec_exec op a))"
proof -
  assume a: "spec_bound n a"
  have "n_counted (tl xs) \<le> n_counted xs" for xs by (cases xs) simp_all
  then have "n_counted (tl (b_entries a)) \<le> Suc n" using a by (meson le_SucI le_trans spec_bound_def)
  moreover have "n_counted x \<le> Suc n" if "x \<in> set (b_saves a)" for x using a that by (simp add: spec_bound_def le_SucI)
  ultimately show ?thesis using a
    by (cases op) (auto simp: spec_bound_def spec_add_def spec_rollback_def spec_pop_def split: list.splits)
qed

lemma spec_bound_run: "spec_bound n a \<Longrightarrow> spec_bound (n + length ops) (snd (spec_run ops a))"
proof (induction ops arbitrary: n a)
  case (Cons op ops)
  show ?case using Cons.IH [OF spec_bound_exec [OF Cons.prems, of op]] by (simp add: case_prod_beta)
qed simp

text \<open>The reader that lists what it sees.\<close>

definition recorder :: "wb_entry list Handler" where
  "recorder =
     \<lparr>h_PutCF = (\<lambda>cf k v es. (SOk, es @ [EPut cf k v])), h_DeleteCF = (\<lambda>cf k es. (SOk, es @ [EDelete cf k])),
      h_SingleDeleteCF = (\<lambda>cf k es. (SOk, es @ [ESingleDelete cf k])),
      h_DeleteRangeCF = (\<lambda>cf k v es. (SOk, es @ [EDeleteRange cf k v])), h_MergeCF = (\<lambda>cf k v es. (SOk, es @ [EMerge cf k v])),
      h_LogData = (\<lambda>x es. es @ [ELogData x]), h_MarkBeginPrepare = (\<lambda>es. (SOk, es @ [EBeginPrepare])),
      h_MarkEndPrepare = (\<lambda>x es. (SOk, es @ [EEndPrepare x])), h_MarkCommit = (\<lambda>x es. (SOk, es @ [ECommit x])),
      h_MarkRollback = (\<lambda>x es. (SOk, es @ [ERollback x])), h_Continue = (\<lambda>_. True)\<rparr>"

lemma recorder_present: "present recorder e es = (SOk, es @ filter (\<lambda>e. e \<noteq> ENoop) [e])"
  by (cases e) (simp_all add: recorder_def)

lemma recorder_run: "run_entries recorder es fs = (SOk, n_counted es, fs @ filter (\<lambda>e. e \<noteq> ENoop) es)"
proof -
  have "h_Continue recorder h" for h by (simp add: recorder_def)
  then have "run_entries recorder es fs = (SOk, n_counted es, fold (\<lambda>e h. snd (present recorder e h)) es fs)"
    by (simp add: run_entries_all recorder_present)
  moreover have "fold (\<lambda>e h. snd (present recorder e h)) es fs = fs @ filter (\<lambda>e. e \<noteq> ENoop) es"
    by (induction es arbitrary: fs) (simp_all add: recorder_present)
  ultimately show ?thesis by simp
qed

text \<open>Joining two batches.\<close>

lemma Append_ok:
  assumes "rep dst = wb_bytes s es" "rep src = wb_bytes s' fs"
  shows "\<exists>d. Append dst src False = Inr (SOk, d) \<and> rep d = wb_bytes s (es @ fs) \<and> content_flags d = content_flags dst OR content_flags src"
proof -
  have "SetCount dst (of_nat (n_counted es) + of_nat (n_counted fs)) =
      Inr (dst\<lparr>rep := to_le 8 s @ to_le 4 (of_nat (n_counted es) + of_nat (n_counted fs) :: u32) @ enc_entries es\<rparr>)"
    using assms(1) by (simp add: SetCount_def wb_bytes_def overwrite_count)
  then show ?thesis
    using Count_bytes [OF assms(1)] Count_bytes [OF assms(2)] assms
    by (simp add: Append_def Let_def chunk_def) (simp add: wb_bytes_def)
qed

lemma AppendedByteSize_ok:
  "AppendedByteSize (length (wb_bytes s es)) (length (wb_bytes s' fs)) = length (wb_bytes s (es @ fs))"
  by (simp add: AppendedByteSize_def)

subsection \<open>Truncated batches\<close>

lemma get_short:
  assumes "length k < 2 ^ 32" "n < length (lps k)"
  shows "get_string m u (r, take n (lps k)) = Inl (SCorruption m)" "get_key m (r, take n (lps k)) = Inl (SCorruption m)"
  using GetLengthPrefixedSlice_prefix [OF assms]
  by (auto simp: get_string_def get_key_def split: prod.splits)

lemma get_short_value:
  assumes "length k < 2 ^ 32" "length v < 2 ^ 32" "n < length (lps k @ lps v)"
  shows "get_key_value m (r, take n (lps k @ lps v)) = Inl (SCorruption m)"
proof (cases "n < length (lps k)")
  case True
  then show ?thesis using get_short(2) [OF assms(1) True] by (simp add: get_key_value_def)
next
  case False
  then have "take n (lps k @ lps v) = lps k @ take (n - length (lps k)) (lps v)" by simp
  then show ?thesis using get_short(1) [OF assms(2), of "n - length (lps k)"] assms(1,3) False
    by (simp add: get_key_value_def)
qed

lemma get_short_cf:
  fixes cf :: u32
  assumes "n < length (varint cf)"
  shows "get_cf m (r, take n (varint cf)) = Inl (SCorruption m)"
  using GetVarint_prefix(1) [OF assms] by (simp add: get_cf_def)

lemma take_tag:
  assumes "0 < n"
  shows "take n (enc_tag t ct cf @ body) =
    (if cf = 0 then t # take (n - 1) body
     else ct # (if n - 1 < length (varint cf) then take (n - 1) (varint cf) else varint cf @ take (n - 1 - length (varint cf)) body))"
  using assms by (cases n) (auto simp: enc_tag_def)

lemma read_short_tag:
  fixes cf :: u32
  assumes n: "0 < n" "n < length (enc_tag t ct cf @ body)"
    and t: "\<And>p. ReadRecordFromWriteBatch (t # p) = Inr (g t p)"
    and ct: "\<And>p. ReadRecordFromWriteBatch (ct # p) = Inr (also_get (get_cf m (wb_record_new ct, p)) g')"
    and g: "\<And>k. k < length body \<Longrightarrow> g t (take k body) = Inl (SCorruption m)"
    and g': "\<And>k r. k < length body \<Longrightarrow> g' (r, take k body) = Inl (SCorruption m)"
  shows "ReadRecordFromWriteBatch (take n (enc_tag t ct cf @ body)) = Inr (Inl (SCorruption m))"
proof (cases "cf = 0")
  case True
  then show ?thesis using n t g [of "n - 1"] unfolding take_tag [OF n(1)] by (simp add: enc_tag_def)
next
  case False
  then show ?thesis
    using n ct g' [of "n - 1 - length (varint cf)"] get_short_cf [of "n - 1" cf] unfolding take_tag [OF n(1)]
    by (auto simp: enc_tag_def)
qed

lemma read_short_marker:
  assumes "0 < n" "n < length (t # lps x)" "length x < 2 ^ 32"
    "\<And>p. ReadRecordFromWriteBatch (t # p) = Inr (get_string m u (wb_record_new t, p))"
  shows "ReadRecordFromWriteBatch (take n (t # lps x)) = Inr (Inl (SCorruption m))"
  using assms get_short(1) [OF assms(3), of "n - 1"] by (cases n) auto

lemma read_short:
  assumes "entry_small e" "0 < n" "n < length (enc_entry e)"
  shows "\<exists>m. ReadRecordFromWriteBatch (take n (enc_entry e)) = Inr (Inl (SCorruption m))"
proof (cases e)
  case (EPut cf k v)
  then show ?thesis
    using assms read_short_tag [of n kTypeValue kTypeColumnFamilyValue cf "lps k @ lps v" "\<lambda>t p. get_key_value ''bad WriteBatch Put'' (wb_record_new t, p)"
        "''bad WriteBatch Put''" "get_key_value ''bad WriteBatch Put''"]
    by (auto simp: ReadRecordFromWriteBatch_def get_short_value simp del: append_assoc take_append)
next
  case (EDelete cf k)
  then show ?thesis
    using assms read_short_tag [of n kTypeDeletion kTypeColumnFamilyDeletion cf "lps k" "\<lambda>t p. get_key ''bad WriteBatch Delete'' (wb_record_new t, p)"
        "''bad WriteBatch Delete''" "get_key ''bad WriteBatch Delete''"]
    by (auto simp: ReadRecordFromWriteBatch_def get_short simp del: append_assoc take_append)
next
  case (ESingleDelete cf k)
  then show ?thesis
    using assms read_short_tag [of n kTypeSingleDeletion kTypeColumnFamilySingleDeletion cf "lps k"
        "\<lambda>t p. get_key ''bad WriteBatch Delete'' (wb_record_new t, p)" "''bad WriteBatch Delete''" "get_key ''bad WriteBatch Delete''"]
    by (auto simp: ReadRecordFromWriteBatch_def get_short simp del: append_assoc take_append)
next
  case (EDeleteRange cf k v)
  then show ?thesis
    using assms read_short_tag [of n kTypeRangeDeletion kTypeColumnFamilyRangeDeletion cf "lps k @ lps v"
        "\<lambda>t p. get_key_value ''bad WriteBatch DeleteRange'' (wb_record_new t, p)" "''bad WriteBatch DeleteRange''"
        "get_key_value ''bad WriteBatch DeleteRange''"]
    by (auto simp: ReadRecordFromWriteBatch_def get_short_value simp del: append_assoc take_append)
next
  case (EMerge cf k v)
  then show ?thesis
    using assms read_short_tag [of n kTypeMerge kTypeColumnFamilyMerge cf "lps k @ lps v" "\<lambda>t p. get_key_value ''bad WriteBatch Merge'' (wb_record_new t, p)"
        "''bad WriteBatch Merge''" "get_key_value ''bad WriteBatch Merge''"]
    by (auto simp: ReadRecordFromWriteBatch_def get_short_value simp del: append_assoc take_append)
next
  case (ELogData x)
  then show ?thesis using assms read_short_marker [of n kTypeLogData x "''bad WriteBatch Blob''" "\<lambda>s r. r\<lparr>r_blob := s\<rparr>"]
    by (auto simp: ReadRecordFromWriteBatch_def simp del: append_assoc take_append)
next
  case (EEndPrepare x)
  then show ?thesis using assms read_short_marker [of n kTypeEndPrepareXID x "''bad EndPrepare XID''" "\<lambda>s r. r\<lparr>r_xid := s\<rparr>"]
    by (auto simp: ReadRecordFromWriteBatch_def)
next
  case (ECommit x)
  then show ?thesis using assms read_short_marker [of n kTypeCommitXID x "''bad Commit XID''" "\<lambda>s r. r\<lparr>r_xid := s\<rparr>"]
    by (auto simp: ReadRecordFromWriteBatch_def)
next
  case (ERollback x)
  then show ?thesis using assms read_short_marker [of n kTypeRollbackXID x "''bad Rollback XID''" "\<lambda>s r. r\<lparr>r_xid := s\<rparr>"]
    by (auto simp: ReadRecordFromWriteBatch_def)
qed (use assms in simp_all)

lemma iterate_loop_prefix:
  assumes "list_all entry_small es" "\<And>h. h_Continue H h" "\<And>e h. fst (present H e h) = SOk"
  shows "iterate_loop H (enc_entries es @ rest) found h =
    iterate_loop H rest (found + of_nat (n_counted es)) (fold (\<lambda>e h. snd (present H e h)) es h)"
  using assms(1)
proof (induction es arbitrary: found h)
  case (Cons e es)
  obtain r where r: "ReadRecordFromWriteBatch (enc_entry e @ enc_entries es @ rest) = Inr (Inr (r, enc_entries es @ rest))"
    "dispatch H r h = (fst (present H e h), counted e, snd (present H e h))"
    using read_entry [of e "enc_entries es @ rest" H h] Cons.prems by auto
  have "iterate_loop H (enc_entries (e # es) @ rest) found h =
      iterate_loop H (enc_entries es @ rest) (if counted e then found + 1 else found) (snd (present H e h))"
    by (subst iterate_loop.simps) (use r assms in \<open>simp add: Let_def\<close>)
  then show ?case using Cons by (simp add: add.assoc)
qed simp

lemma take_entries:
  assumes "n < length (enc_entries es)"
  obtains es1 e es2 j where "es = es1 @ e # es2" "take n (enc_entries es) = enc_entries es1 @ take j (enc_entry e)" "j < length (enc_entry e)"
  using assms
proof (induction es arbitrary: n thesis)
  case (Cons x es)
  show ?case
  proof (cases "n < length (enc_entry x)")
    case True
    then show ?thesis using Cons.prems(1) [of "[]" x es n] by simp
  next
    case False
    then have "n - length (enc_entry x) < length (enc_entries es)" using Cons.prems(2) by simp
    then obtain es1 e es2 j where "es = es1 @ e # es2"
      "take (n - length (enc_entry x)) (enc_entries es) = enc_entries es1 @ take j (enc_entry e)" "j < length (enc_entry e)"
      using Cons.IH by blast
    then show ?thesis using Cons.prems(1) [of "x # es1" e es2 j] False by simp
  qed
qed simp

lemma Iterate_truncated:
  assumes "rep b = take n (wb_bytes s es)" "n < length (wb_bytes s es)" "list_all entry_small es" "list_all counted es"
    "length es < 2 ^ 32" "\<And>h. h_Continue H h" "\<And>e h. fst (present H e h) = SOk"
  shows "\<exists>m h'. Iterate H b h = Inr (SCorruption m, h')"
proof (cases "n < 12")
  case True
  then show ?thesis using assms(1) by (simp add: Iterate_def)
next
  case False
  let ?fold = "\<lambda>es. fold (\<lambda>e h. snd (present H e h)) es h"
  have c: "n_counted es = length es" using assms(4) by (simp add: list_all_iff)
  have rb: "rep b = to_le 8 s @ to_le 4 (of_nat (length es) :: u32) @ take (n - 12) (enc_entries es)"
    using assms(1) False c by (simp add: wb_bytes_def)
  have cnt: "Count b = Inr (of_nat (length es))" unfolding Count_def rb by simp
  obtain es1 e es2 j where e: "es = es1 @ e # es2" "take (n - 12) (enc_entries es) = enc_entries es1 @ take j (enc_entry e)"
    "j < length (enc_entry e)"
  proof (rule take_entries [of "n - 12" es])
    show "n - 12 < length (enc_entries es)" using assms(2) False by simp
  qed (rule that)
  have c1: "n_counted es1 = length es1" using assms(4) e(1) by (simp add: list_all_iff)
  have loop: "iterate_loop H (drop 12 (rep b)) 0 h = iterate_loop H (take j (enc_entry e)) (of_nat (length es1)) (?fold es1)"
    using iterate_loop_prefix [of es1 H "take j (enc_entry e)" 0 h] assms(3,6,7) e rb c1 by simp
  show ?thesis
  proof (cases "j = 0")
    case True
    then have "iterate_loop H (drop 12 (rep b)) 0 h = Inr (SOk, of_nat (length es1), ?fold es1)"
      unfolding loop by (simp add: iterate_loop.simps)
    moreover have "(of_nat (length es1) :: u32) \<noteq> of_nat (length es)"
      using of_nat_inject_small [of "length es1" "length es", where 'a = 32] assms(5) e(1) by simp
    ultimately show ?thesis using cnt rb by (simp add: Iterate_def)
  next
    case False
    then obtain m where "ReadRecordFromWriteBatch (take j (enc_entry e)) = Inr (Inl (SCorruption m))"
      using read_short [of e j] assms(3) e by auto
    then have "iterate_loop H (drop 12 (rep b)) 0 h = Inr (SCorruption m, of_nat (length es1), ?fold es1)"
      unfolding loop using False assms(6) by (subst iterate_loop.simps) simp
    then show ?thesis using rb by (simp add: Iterate_def)
  qed
qed

subsection \<open>Properties\<close>

text \<open>C34: Every program of batch operations (updates of all kinds with their variants in parts, markers, save points, rollbacks,
  clearing) behaves as a list of entries with a stack of saved lists: all statuses agree, an update that would exceed the
  size limit changes nothing, a rollback restores exactly the entries at the save point, and afterwards \<open>Iterate\<close>
  presents exactly the entries of the list, in order, and reports success; the flags of the batch are those of its entries.\<close>

theorem batch_refines_list:
  assumes "ops_ok ops \<lparr>b_entries = [], b_saves = [], b_limit = mb\<rparr>" and "length ops < 2 ^ 32"
    and "spec_run ops \<lparr>b_entries = [], b_saves = [], b_limit = mb\<rparr> = (sts, a)"
  shows "\<exists>b. wb_run ops (WriteBatch_new mb) = Inr (sts, b) \<and>
    Iterate recorder b [] = Inr (SOk, filter (\<lambda>e. e \<noteq> ENoop) (b_entries a)) \<and>
    ComputeContentFlags (WriteBatch_of_rep (rep b)) = Inr (content_flags b, b\<lparr>max_bytes := 0, save_points := None,
      wal_term_point := SavePoint_cleared\<rparr>)"
proof -
  let ?a = "\<lparr>b_entries = [], b_saves = [], b_limit = mb\<rparr>"
  obtain b where b: "wb_run ops (WriteBatch_new mb) = Inr (sts, b)" "wb_rel 0 b a"
    using run_ok [OF wb_rel_new assms(1)] assms(3) by auto
  note r = wb_relD [OF b(2)]
  have "spec_bound 0 ?a" by (simp add: spec_bound_def)
  then have n: "n_counted (b_entries a) < 2 ^ 32"
    using spec_bound_run [of 0 ?a ops] assms(2,3) by (simp add: spec_bound_def)
  have it: "Iterate recorder b [] = Inr (SOk, filter (\<lambda>e. e \<noteq> ENoop) (b_entries a))"
    using Iterate_entries [OF r(1,3) n, of recorder "[]"] by (simp add: recorder_run)
  have "Iterate BatchContentClassifier (WriteBatch_of_rep (rep b)) 0 = Inr (SOk, flags_of (b_entries a))"
    by (rule classify [OF _ r(3) n]) (simp add: WriteBatch_of_rep_def r(1))
  then have "ComputeContentFlags (WriteBatch_of_rep (rep b)) =
      Inr (content_flags b, b\<lparr>max_bytes := 0, save_points := None, wal_term_point := SavePoint_cleared\<rparr>)"
    using r(2) by (cases b) (simp add: ComputeContentFlags_def WriteBatch_of_rep_def)
  then show ?thesis using b(1) it by blast
qed

theorem batch_refines_list_witness:
  "\<exists>b. wb_run [OPut None [1] [2], OSetSavePoint, ODelete (Some 3) [4], ORollback, OMerge None [5] []] (WriteBatch_new 0) =
       Inr ([SOk, SOk, SOk, SOk, SOk], b) \<and> Iterate recorder b [] = Inr (SOk, [EPut 0 [1] [2], EMerge 0 [5] []])"
proof -
  let ?ops = "[OPut None [1] [2], OSetSavePoint, ODelete (Some 3) [4], ORollback, OMerge None [5] []]"
  have "ops_ok ?ops \<lparr>b_entries = [], b_saves = [], b_limit = 0\<rparr>" "length ?ops < 2 ^ 32"
    "spec_run ?ops \<lparr>b_entries = [], b_saves = [], b_limit = 0\<rparr> =
       ([SOk, SOk, SOk, SOk, SOk], \<lparr>b_entries = [EPut 0 [1] [2], EMerge 0 [5] []], b_saves = [], b_limit = 0\<rparr>)"
    by (simp_all add: spec_add_def spec_rollback_def GetColumnFamilyID_def)
  then show ?thesis using batch_refines_list [of ?ops 0] by fastforce
qed



end
