(* ===== verification/LogFormat.thy ===== *)
theory LogFormat
  imports Crc32c
begin

text \<open>
  The log files of RocksDB, src/rocksdb-5.8/db/log_format.h and log_writer.cc: records are cut into fragments that do not
  cross the boundaries of 32-kilobyte blocks, each behind a header with a checksum, a length and a type, and for recycled
  files the number of the log. \<open>crc32c::Extend\<close> is an argument \<open>ext\<close> with the law that
  extending by two strings is extending by their concatenation, which the theory Crc32c proves of it. A file is the list of its bytes. The writer's calls on its destination end
  as \<open>io\<close> says, one answer per call; a failing call writes nothing.

  The lemmas show that the loop of AddRecord ends, what it appends, and that the writer's block offset stays the offset
  in the file. The reader is in the theory LogReader.
\<close>

type_synonym extend = "u32 \<Rightarrow> bytes \<Rightarrow> u32"

definition crc_Value :: "extend \<Rightarrow> bytes \<Rightarrow> u32" where
  "crc_Value ext d = ext 0 d"

abbreviation (input) kZeroType :: u32 where "kZeroType \<equiv> 0"
abbreviation (input) kFullType :: u32 where "kFullType \<equiv> 1"
abbreviation (input) kFirstType :: u32 where "kFirstType \<equiv> 2"
abbreviation (input) kMiddleType :: u32 where "kMiddleType \<equiv> 3"
abbreviation (input) kLastType :: u32 where "kLastType \<equiv> 4"
abbreviation (input) kRecyclableFullType :: u32 where "kRecyclableFullType \<equiv> 5"
abbreviation (input) kRecyclableFirstType :: u32 where "kRecyclableFirstType \<equiv> 6"
abbreviation (input) kRecyclableMiddleType :: u32 where "kRecyclableMiddleType \<equiv> 7"
abbreviation (input) kRecyclableLastType :: u32 where "kRecyclableLastType \<equiv> 8"

abbreviation (input) kEof :: u32 where "kEof \<equiv> 9"
abbreviation (input) kBadRecord :: u32 where "kBadRecord \<equiv> 10"
abbreviation (input) kBadHeader :: u32 where "kBadHeader \<equiv> 11"
abbreviation (input) kOldRecord :: u32 where "kOldRecord \<equiv> 12"
abbreviation (input) kBadRecordLen :: u32 where "kBadRecordLen \<equiv> 13"
abbreviation (input) kBadRecordChecksum :: u32 where "kBadRecordChecksum \<equiv> 14"

definition kBlockSize :: nat where "kBlockSize = 32768"
definition kHeaderSize :: nat where "kHeaderSize = 7"
definition kRecyclableHeaderSize :: nat where "kRecyclableHeaderSize = 11"

subsection \<open>The writer\<close>

record Writer =
  dest :: bytes
  block_offset :: nat
  log_number :: u64
  recycle_log_files :: bool
  manual_flush :: bool
  calls :: nat

definition Writer_new :: "u64 \<Rightarrow> bool \<Rightarrow> bool \<Rightarrow> Writer" where
  "Writer_new n recycle manual =
     \<lparr>dest = [], block_offset = 0, log_number = n, recycle_log_files = recycle, manual_flush = manual, calls = 0\<rparr>"

definition dest_Append :: "(nat \<Rightarrow> bool) \<Rightarrow> bytes \<Rightarrow> Writer \<Rightarrow> bool \<times> Writer" where
  "dest_Append io d w =
     (if io (calls w) then (True, w\<lparr>dest := dest w @ d, calls := calls w + 1\<rparr>) else (False, w\<lparr>calls := calls w + 1\<rparr>))"

definition dest_Flush :: "(nat \<Rightarrow> bool) \<Rightarrow> Writer \<Rightarrow> bool \<times> Writer" where
  "dest_Flush io w = (io (calls w), w\<lparr>calls := calls w + 1\<rparr>)"

definition EmitPhysicalRecord :: "extend \<Rightarrow> (nat \<Rightarrow> bool) \<Rightarrow> u32 \<Rightarrow> bytes \<Rightarrow> Writer \<Rightarrow> bool \<times> Writer" where
  "EmitPhysicalRecord ext io t d w =
     (let n = length d;
          buf4_6 = [of_nat n, of_nat (n div 256), ucast t];
          crc = crc_Value ext [ucast t];
          (header_tail, crc) =
            (if t < kRecyclableFullType then ([], crc)
             else let l = EncodeFixed32 (ucast (log_number w)) in (l, ext crc l));
          crc = Mask (ext crc d);
          header = EncodeFixed32 crc @ buf4_6 @ header_tail;
          (ok, w) = dest_Append io header w;
          (ok, w) = (if ok then dest_Append io d w else (ok, w));
          (ok, w) = (if ok \<and> \<not> manual_flush w then dest_Flush io w else (ok, w))
      in (ok, w\<lparr>block_offset := block_offset w + (length header + n)\<rparr>))"

definition record_type :: "bool \<Rightarrow> bool \<Rightarrow> bool \<Rightarrow> u32" where
  "record_type recycle is_begin is_end =
     (if is_begin \<and> is_end then if recycle then kRecyclableFullType else kFullType
      else if is_begin then if recycle then kRecyclableFirstType else kFirstType
      else if is_end then if recycle then kRecyclableLastType else kLastType
      else if recycle then kRecyclableMiddleType else kMiddleType)"

definition header_size :: "bool \<Rightarrow> nat" where
  "header_size recycle = (if recycle then kRecyclableHeaderSize else kHeaderSize)"

text \<open>The switch to a new block at the start of the loop.\<close>

definition switch_block :: "(nat \<Rightarrow> bool) \<Rightarrow> Writer \<Rightarrow> Writer" where
  "switch_block io w =
     (let leftover = int kBlockSize - int (block_offset w)
      in if leftover < int (header_size (recycle_log_files w)) then
           (if leftover > 0 then snd (dest_Append io (replicate (nat leftover) 0) w) else w)\<lparr>block_offset := 0\<rparr>
         else w)"

lemma switch_block_simps [simp]:
  "log_number (switch_block io w) = log_number w" "recycle_log_files (switch_block io w) = recycle_log_files w"
  "manual_flush (switch_block io w) = manual_flush w"
  by (simp_all add: switch_block_def Let_def dest_Append_def)

lemma Emit_frame [simp]:
  "recycle_log_files (snd (EmitPhysicalRecord ext io t d w)) = recycle_log_files w"
  "log_number (snd (EmitPhysicalRecord ext io t d w)) = log_number w"
  "manual_flush (snd (EmitPhysicalRecord ext io t d w)) = manual_flush w"
  by (simp_all add: EmitPhysicalRecord_def Let_def dest_Append_def dest_Flush_def split: prod.splits)

lemma Emit_block_offset:
  "block_offset (snd (EmitPhysicalRecord ext io t d w)) =
     block_offset w + (if t < kRecyclableFullType then 7 else 11) + length d"
  by (simp add: EmitPhysicalRecord_def Let_def dest_Append_def dest_Flush_def split: prod.splits)

lemma record_type_recyclable: "record_type recycle b e < kRecyclableFullType \<longleftrightarrow> \<not> recycle"
  by (simp add: record_type_def)

lemma switch_block_offset: "block_offset (switch_block io w) + header_size (recycle_log_files w) \<le> kBlockSize"
  by (auto simp: switch_block_def Let_def header_size_def kBlockSize_def kHeaderSize_def kRecyclableHeaderSize_def)

lemma add_loop_progress:
  assumes "w1 = switch_block io w" "avail = kBlockSize - block_offset w1 - header_size (recycle_log_files w1)"
    "(ok, w2) = EmitPhysicalRecord ext io (record_type (recycle_log_files w1) b e) (take avail data) w1" "avail < length data"
  shows "2 * (length data - avail) + (if block_offset w2 + header_size (recycle_log_files w2) = kBlockSize then 1 else 0)
    < 2 * length data + (if block_offset w + header_size (recycle_log_files w) = kBlockSize then 1 else 0)"
proof -
  let ?hs = "header_size (recycle_log_files w)"
  have w2: "w2 = snd (EmitPhysicalRecord ext io (record_type (recycle_log_files w1) b e) (take avail data) w1)"
    using assms(3) by (metis snd_conv)
  have hs: "?hs > 0" by (simp add: header_size_def kHeaderSize_def kRecyclableHeaderSize_def)
  have r: "recycle_log_files w1 = recycle_log_files w" "recycle_log_files w2 = recycle_log_files w"
    using w2 assms(1) by simp_all
  have le: "block_offset w1 + ?hs \<le> kBlockSize" using switch_block_offset [of io w] assms(1) by simp
  have o: "block_offset w2 = block_offset w1 + ?hs + avail"
    using Emit_block_offset [of ext io "record_type (recycle_log_files w1) b e" "take avail data" w1] w2 assms(4) r
    by (simp add: record_type_recyclable header_size_def kHeaderSize_def kRecyclableHeaderSize_def)
  then have full: "block_offset w2 = kBlockSize" using assms(2) le r by simp
  then have "block_offset w2 + ?hs \<noteq> kBlockSize" using hs by simp
  moreover have "avail > 0 \<or> block_offset w + ?hs = kBlockSize"
  proof (cases "w1 = w")
    case True
    then show ?thesis using assms(2) le r by auto
  next
    case False
    then have "block_offset w1 = 0" using assms(1) by (auto simp: switch_block_def Let_def split: if_splits)
    then show ?thesis
      using assms(2) by (simp add: header_size_def kBlockSize_def kHeaderSize_def kRecyclableHeaderSize_def)
  qed
  ultimately show ?thesis using r assms(4) by auto
qed

function add_loop :: "extend \<Rightarrow> (nat \<Rightarrow> bool) \<Rightarrow> bool \<Rightarrow> bytes \<Rightarrow> Writer \<Rightarrow> bool \<times> Writer" where
  "add_loop ext io is_begin data w =
     (let w = switch_block io w;
          avail = kBlockSize - block_offset w - header_size (recycle_log_files w);
          fragment_length = (if length data < avail then length data else avail);
          t = record_type (recycle_log_files w) is_begin (length data = fragment_length);
          (ok, w) = EmitPhysicalRecord ext io t (take fragment_length data) w;
          left = drop fragment_length data
      in if ok \<and> left \<noteq> [] then add_loop ext io False left w else (ok, w))"
  by pat_completeness auto

termination
proof (relation "measure (\<lambda>(ext, io, is_begin, data, w).
    2 * length data + (if block_offset w + header_size (recycle_log_files w) = kBlockSize then 1 else 0))", goal_cases)
  case 1
  show ?case by simp
next
  case (2 ext io is_begin data w w1 avail fragment_length t e ok w2 left)
  then have "avail < length data" by (auto split: if_splits)
  then show ?case using 2 add_loop_progress [of w1 io w avail ok w2 ext is_begin _ data] by (auto split: if_splits)
qed

declare add_loop.simps [simp del]

definition AddRecord :: "extend \<Rightarrow> (nat \<Rightarrow> bool) \<Rightarrow> bytes \<Rightarrow> Writer \<Rightarrow> bool \<times> Writer" where
  "AddRecord ext io data w = add_loop ext io True data w"

lemma log_sizes [simp]: "kHeaderSize = 7" "kRecyclableHeaderSize = 11" "kBlockSize = 32768"
  by (simp_all add: kHeaderSize_def kRecyclableHeaderSize_def kBlockSize_def)

text \<open>The bytes of a fragment in the file.\<close>

definition physical_record :: "extend \<Rightarrow> u64 \<Rightarrow> u32 \<Rightarrow> bytes \<Rightarrow> bytes" where
  "physical_record ext n t d =
     (let log = (if t < kRecyclableFullType then [] else to_le 4 (ucast n :: u32))
      in to_le 4 (Mask (ext 0 (ucast t # log @ d))) @ [of_nat (length d), of_nat (length d div 256), ucast t] @ log @ d)"

lemma length_physical_record [simp]:
  "length (physical_record ext n t d) = (if t < kRecyclableFullType then 7 else 11) + length d"
  by (simp add: physical_record_def Let_def)

text \<open>Calls that succeed, and a block offset that is the offset in the file.\<close>

abbreviation succeeds :: "nat \<Rightarrow> bool" where
  "succeeds \<equiv> \<lambda>_. True"

definition writer_ok :: "Writer \<Rightarrow> bool" where
  "writer_ok w \<longleftrightarrow> block_offset w \<le> kBlockSize \<and> length (dest w) mod kBlockSize = block_offset w mod kBlockSize"

definition trailer :: "Writer \<Rightarrow> nat" where
  "trailer w = (if kBlockSize - block_offset w < header_size (recycle_log_files w) then kBlockSize - block_offset w else 0)"

lemma switch_block_ok:
  assumes "writer_ok w" "w1 = switch_block succeeds w"
  shows "dest w1 = dest w @ replicate (trailer w) 0" "length (dest w1) mod kBlockSize = block_offset w1"
    "block_offset w1 + header_size (recycle_log_files w) \<le> kBlockSize"
proof -
  have le: "block_offset w \<le> kBlockSize" and m: "length (dest w) mod kBlockSize = block_offset w mod kBlockSize"
    using assms by (simp_all add: writer_ok_def)
  have hs: "header_size (recycle_log_files w) > 0" by (simp add: header_size_def)
  show d: "dest w1 = dest w @ replicate (trailer w) 0"
    using le by (auto simp: assms(2) switch_block_def Let_def dest_Append_def trailer_def nat_diff_distrib)
  show "block_offset w1 + header_size (recycle_log_files w) \<le> kBlockSize"
    using switch_block_offset [of succeeds w] assms(2) by simp
  show "length (dest w1) mod kBlockSize = block_offset w1"
  proof (cases "kBlockSize - block_offset w < header_size (recycle_log_files w)")
    case True
    then have "block_offset w1 = 0" "trailer w = kBlockSize - block_offset w"
      using le by (auto simp: assms(2) switch_block_def Let_def trailer_def)
    moreover have "(length (dest w) + (kBlockSize - block_offset w)) mod kBlockSize = 0"
      using m le by (metis le_add_diff_inverse mod_add_left_eq mod_self)
    ultimately show ?thesis using d by simp
  next
    case False
    then have "w1 = w" "trailer w = 0" "block_offset w < kBlockSize"
      using le hs by (auto simp: assms(2) switch_block_def Let_def trailer_def)
    then show ?thesis using m by simp
  qed
qed

text \<open>The format: how a record may be laid out at an offset of the file, as fragments that each fit in their block.\<close>

definition pad :: "bool \<Rightarrow> nat \<Rightarrow> nat" where
  "pad recycle p = (let left = kBlockSize - p mod kBlockSize in if left < header_size recycle then left else 0)"

inductive fragments :: "extend \<Rightarrow> u64 \<Rightarrow> bool \<Rightarrow> nat \<Rightarrow> bool \<Rightarrow> bytes \<Rightarrow> bytes \<Rightarrow> bool" for ext n recycle where
  last: "q = p + pad recycle p \<Longrightarrow> r = physical_record ext n (record_type recycle is_begin True) d \<Longrightarrow>
     q mod kBlockSize + length r \<le> kBlockSize \<Longrightarrow>
     fragments ext n recycle p is_begin d (replicate (pad recycle p) 0 @ r)"
| more: "q = p + pad recycle p \<Longrightarrow> r = physical_record ext n (record_type recycle is_begin False) d \<Longrightarrow>
     q mod kBlockSize + length r = kBlockSize \<Longrightarrow> fragments ext n recycle (q + length r) False left out \<Longrightarrow>
     fragments ext n recycle p is_begin (d @ left) (replicate (pad recycle p) 0 @ r @ out)"

lemma trailer_pad:
  assumes "writer_ok w"
  shows "trailer w = pad (recycle_log_files w) (length (dest w))"
proof (cases "block_offset w = kBlockSize")
  case True
  then show ?thesis using assms by (simp add: writer_ok_def trailer_def pad_def header_size_def)
next
  case False
  then have "length (dest w) mod kBlockSize = block_offset w" using assms by (simp add: writer_ok_def)
  then show ?thesis by (simp only: trailer_def pad_def Let_def)
qed

locale crc_extend =
  fixes ext :: extend
  assumes ext_append: "ext (ext crc x) y = ext crc (x @ y)"
begin

lemma Emit_dest:
  assumes "EmitPhysicalRecord ext succeeds t d w = (ok, w')"
  shows "ok" "dest w' = dest w @ physical_record ext (log_number w) t d"
  using assms
  by (auto simp: EmitPhysicalRecord_def Let_def dest_Append_def dest_Flush_def physical_record_def crc_Value_def ext_append
      split: if_splits)

lemma Emit_ok:
  assumes "EmitPhysicalRecord ext succeeds t d w = (ok, w')" "length (dest w) mod kBlockSize = block_offset w"
    "block_offset w + length (physical_record ext (log_number w) t d) \<le> kBlockSize"
  shows "writer_ok w'" "block_offset w' = block_offset w + length (physical_record ext (log_number w) t d)"
proof -
  show o: "block_offset w' = block_offset w + length (physical_record ext (log_number w) t d)"
    using Emit_block_offset [of ext succeeds t d w] assms(1) by simp
  have "length (dest w') mod kBlockSize = block_offset w' mod kBlockSize"
    unfolding o Emit_dest(2) [OF assms(1)] length_append using assms(2) by (metis mod_add_left_eq)
  then show "writer_ok w'" using o assms(3) by (simp only: writer_ok_def)
qed

text \<open>One round of the loop: the fragment that is written, and what is left.\<close>

lemma add_loop_step:
  assumes "writer_ok w"
  obtains d left w2 q r where
    "data = d @ left" "q = length (dest w) + pad (recycle_log_files w) (length (dest w))"
    "r = physical_record ext (log_number w) (record_type (recycle_log_files w) is_begin (left = [])) d"
    "q mod kBlockSize + length r \<le> kBlockSize" "left \<noteq> [] \<Longrightarrow> q mod kBlockSize + length r = kBlockSize"
    "dest w2 = dest w @ replicate (pad (recycle_log_files w) (length (dest w))) 0 @ r" "writer_ok w2"
    "log_number w2 = log_number w" "recycle_log_files w2 = recycle_log_files w"
    "add_loop ext succeeds is_begin data w =
       (if left \<noteq> [] then add_loop ext succeeds False left w2 else (True, w2))"
    "left \<noteq> [] \<Longrightarrow> 2 * length left + (if block_offset w2 + header_size (recycle_log_files w2) = kBlockSize then 1 else 0)
      < 2 * length data + (if block_offset w + header_size (recycle_log_files w) = kBlockSize then 1 else 0)"
proof -
  define w1 where "w1 = switch_block succeeds w"
  define avail where "avail = kBlockSize - block_offset w1 - header_size (recycle_log_files w1)"
  define len where "len = (if length data < avail then length data else avail)"
  define t where "t = record_type (recycle_log_files w1) is_begin (length data = len)"
  obtain ok2 w2 where emit: "EmitPhysicalRecord ext succeeds t (take len data) w1 = (ok2, w2)" by fastforce
  note w1 = switch_block_ok [OF assms w1_def]
  let ?r = "physical_record ext (log_number w) t (take len data)"
  have fields: "log_number w1 = log_number w" "recycle_log_files w1 = recycle_log_files w"
      "log_number w2 = log_number w" "recycle_log_files w2 = recycle_log_files w"
    using emit Emit_frame [of ext succeeds t "take len data" w1] by (simp_all add: w1_def)
  have len: "len \<le> length data" "len \<le> avail" "drop len data \<noteq> [] \<Longrightarrow> len = avail \<and> avail < length data"
    by (simp_all add: len_def split: if_splits)
  have t: "t = record_type (recycle_log_files w) is_begin (drop len data = [])" using len(1) by (auto simp: t_def fields)
  have r: "length ?r = header_size (recycle_log_files w) + len"
    using len(1) record_type_recyclable by (simp add: t_def fields header_size_def)
  have fits: "block_offset w1 + length ?r \<le> kBlockSize" "drop len data \<noteq> [] \<Longrightarrow> block_offset w1 + length ?r = kBlockSize"
    using r len(2,3) w1(3) by (auto simp: avail_def fields)
  have q: "(length (dest w) + pad (recycle_log_files w) (length (dest w))) mod kBlockSize = block_offset w1"
    using w1(1,2) trailer_pad [OF assms] by simp
  have ok2: "ok2" "dest w2 = dest w @ replicate (pad (recycle_log_files w) (length (dest w))) 0 @ ?r"
    using Emit_dest [OF emit] w1(1) trailer_pad [OF assms] by (simp_all add: fields)
  have "writer_ok w2" using Emit_ok [OF emit] w1(2) fits by (simp only: fields)
  moreover have "add_loop ext succeeds is_begin data w =
      (if drop len data \<noteq> [] then add_loop ext succeeds False (drop len data) w2 else (True, w2))"
    using ok2(1) unfolding add_loop.simps [of ext succeeds is_begin data w] Let_def w1_def [symmetric] avail_def [symmetric]
      len_def [symmetric] t_def [symmetric] emit by simp
  moreover have "2 * length (drop len data) + (if block_offset w2 + header_size (recycle_log_files w2) = kBlockSize then 1 else 0)
      < 2 * length data + (if block_offset w + header_size (recycle_log_files w) = kBlockSize then 1 else 0)"
    if "drop len data \<noteq> []"
    using add_loop_progress [OF w1_def avail_def, of ok2 w2 ext is_begin False data] emit len(3) [OF that] by (simp add: t_def)
  ultimately show ?thesis
    using that [of "take len data" "drop len data", OF _ refl refl _ _ ok2(2) [unfolded t]] fits q fields by (simp add: t)
qed

lemma add_loop_fragments:
  assumes "writer_ok w" "add_loop ext succeeds is_begin data w = (ok, w')"
  shows "ok \<and> writer_ok w' \<and> log_number w' = log_number w \<and> recycle_log_files w' = recycle_log_files w \<and>
    (\<exists>out. dest w' = dest w @ out \<and>
       fragments ext (log_number w) (recycle_log_files w) (length (dest w)) is_begin data out)"
  using assms
proof (induction "2 * length data + (if block_offset w + header_size (recycle_log_files w) = kBlockSize then 1 else 0 :: nat)"
    arbitrary: is_begin data w rule: less_induct)
  case less
  show ?case
  proof (rule add_loop_step [OF less.prems(1), of data is_begin], goal_cases)
    case (1 d left w2 q r)
    show ?case
    proof (cases "left = []")
      case True
      then show ?thesis using 1 less.prems fragments.last [OF 1(2)] by simp
    next
      case False
      then have "ok \<and> writer_ok w' \<and> log_number w' = log_number w2 \<and> recycle_log_files w' = recycle_log_files w2 \<and>
          (\<exists>out. dest w' = dest w2 @ out \<and> fragments ext (log_number w2) (recycle_log_files w2) (length (dest w2)) False left out)"
        using 1 less.prems by (intro less.hyps) simp_all
      then show ?thesis
        using 1 False fragments.more [OF 1(2), of r ext "log_number w" is_begin d left] by (auto simp: add.assoc)
    qed
  qed
qed

lemma AddRecord_fragments:
  assumes "writer_ok w" "AddRecord ext succeeds data w = (ok, w')"
  shows "ok" "writer_ok w'" "log_number w' = log_number w" "recycle_log_files w' = recycle_log_files w"
    "\<exists>out. dest w' = dest w @ out \<and> fragments ext (log_number w) (recycle_log_files w) (length (dest w)) True data out"
  using add_loop_fragments [OF assms(1) assms(2) [unfolded AddRecord_def]] by simp_all

end

lemma Extend_eq: "cpu_ok c \<Longrightarrow> Extend c pval = crc32c"
  by (intro ext Extend_crc)

lemma Extend_extends:
  assumes "cpu_ok c"
  shows "crc_extend (Extend c pval)"
  unfolding Extend_eq [OF assms] by unfold_locales (rule crc32c_append)

interpretation software_crc: crc_extend "Extend \<lparr>isSSE42 = False, mm_crc32_u64 = mm\<rparr> pval" for mm pval
  by (rule Extend_extends) (simp add: cpu_ok_def)

lemma writer_ok_new [simp]: "writer_ok (Writer_new n recycle manual)"
  by (simp add: writer_ok_def Writer_new_def)

text \<open>C10: A log file keeps its format: when the writes succeed, AddRecord returns true and appends the record at the end of
  the file as fragments, each behind its header and none across a 32-kilobyte block, after a trailer of zeros if not
  even a header fits in the block; the offset that the writer keeps stays the offset in the file's last block. The type
  of a fragment says whether it starts and ends the record, and its checksum is the CRC-32C of what follows the length.\<close>

theorem AddRecord_format:
  assumes "cpu_ok c" "writer_ok w"
    "AddRecord (Extend c pval) succeeds data w = (ok, w')"
  shows "ok \<and> writer_ok w' \<and>
    (\<exists>out. dest w' = dest w @ out \<and>
       fragments crc32c (log_number w) (recycle_log_files w) (length (dest w)) True data out)"
  using crc_extend.AddRecord_fragments [OF Extend_extends assms(2,3)] assms(1) by (simp add: Extend_eq)

theorem AddRecord_format_witness:
  "fst (AddRecord (Extend \<lparr>isSSE42 = False, mm_crc32_u64 = \<lambda>_. id\<rparr> 0) succeeds [7, 8] (Writer_new 3 True False))"
  using AddRecord_format [of "\<lparr>isSSE42 = False, mm_crc32_u64 = \<lambda>_. id\<rparr>" "Writer_new 3 True False" 0 "[7, 8]"
      "fst (AddRecord (Extend \<lparr>isSSE42 = False, mm_crc32_u64 = \<lambda>_. id\<rparr> 0) succeeds [7, 8] (Writer_new 3 True False))"
      "snd (AddRecord (Extend \<lparr>isSSE42 = False, mm_crc32_u64 = \<lambda>_. id\<rparr> 0) succeeds [7, 8] (Writer_new 3 True False))"]
  by (simp add: cpu_ok_def)

end
