(* ===== verification/LogReader.thy ===== *)
theory LogReader
  imports LogFormat
begin

text \<open>
  The reader of RocksDB's log files, src/rocksdb-5.8/db/log_reader.cc. The file is the list of its unread bytes; its
  calls end as \<open>io\<close> says, one answer per call: \<open>None\<close> for a call that succeeds, \<open>Some k\<close> for one that fails after \<open>k\<close> bytes.
  The two loops are \<open>ReadPhysicalRecord\<close>, which ends, and \<open>read_loop\<close>, a partial function because the loop of
  ReadRecord need not end.

  The lemmas show that ReadRecord returns in every recovery mode but one, that it does not return in that mode on
  a record of an older log, and that it reads back what the writer of the theory LogFormat wrote: all of it from the whole
  file, and the complete records from a file cut off anywhere.
\<close>

datatype WALRecoveryMode =
  kTolerateCorruptedTailRecords | kAbsoluteConsistency | kPointInTimeRecovery | kSkipAnyCorruptedRecords

datatype drop_reason = Corrupt string | Unknown_Record_Type u32 | Read_Failed

type_synonym calls_end = "nat \<Rightarrow> nat option"

record Reader =
  buffer :: bytes
  unread :: bytes
  file_calls :: nat
  eof :: bool
  read_error :: bool
  eof_offset :: nat
  last_record_offset :: u64
  end_of_buffer_offset :: u64
  initial_offset :: u64
  reader_log_number :: u64
  recycled :: bool
  checksum :: bool
  reporter :: bool
  reports :: "(nat \<times> drop_reason) list"

definition Reader_new :: "bytes \<Rightarrow> bool \<Rightarrow> bool \<Rightarrow> u64 \<Rightarrow> u64 \<Rightarrow> Reader" where
  "Reader_new contents rep chk initial log_num =
     \<lparr>buffer = [], unread = contents, file_calls = 0, eof = False, read_error = False, eof_offset = 0,
      last_record_offset = 0, end_of_buffer_offset = 0, initial_offset = initial, reader_log_number = log_num,
      recycled = False, checksum = chk, reporter = rep, reports = []\<rparr>"

definition file_Read :: "calls_end \<Rightarrow> nat \<Rightarrow> Reader \<Rightarrow> bool \<times> bytes \<times> Reader" where
  "file_Read io n r =
     (let k = (case io (file_calls r) of None \<Rightarrow> n | Some k \<Rightarrow> min k n)
      in (io (file_calls r) = None, take k (unread r),
          r\<lparr>unread := drop k (unread r), file_calls := file_calls r + 1\<rparr>))"

definition file_Skip :: "calls_end \<Rightarrow> nat \<Rightarrow> Reader \<Rightarrow> bool \<times> Reader" where
  "file_Skip io n r =
     (case io (file_calls r) of
        None \<Rightarrow> (True, r\<lparr>unread := drop n (unread r), file_calls := file_calls r + 1\<rparr>)
      | Some k \<Rightarrow> (False, r\<lparr>file_calls := file_calls r + 1\<rparr>))"

definition ReportDrop :: "nat \<Rightarrow> drop_reason \<Rightarrow> Reader \<Rightarrow> Reader" where
  "ReportDrop n reason r =
     (if reporter r \<and> initial_offset r \<le> end_of_buffer_offset r - of_nat (length (buffer r)) - of_nat n
      then r\<lparr>reports := reports r @ [(n, reason)]\<rparr> else r)"

definition ReportCorruption :: "nat \<Rightarrow> string \<Rightarrow> Reader \<Rightarrow> Reader" where
  "ReportCorruption n reason r = ReportDrop n (Corrupt reason) r"

definition SkipToInitialBlock :: "calls_end \<Rightarrow> Reader \<Rightarrow> bool \<times> Reader" where
  "SkipToInitialBlock io r =
     (let initial_offset_in_block = unat (initial_offset r) mod kBlockSize;
          block_start_location = initial_offset r - of_nat initial_offset_in_block;
          block_start_location =
            (if initial_offset_in_block > kBlockSize - 6 then block_start_location + of_nat kBlockSize
             else block_start_location);
          r = r\<lparr>end_of_buffer_offset := block_start_location\<rparr>
      in if 0 < block_start_location then
           case file_Skip io (unat block_start_location) r of
             (True, r) \<Rightarrow> (True, r)
           | (False, r) \<Rightarrow> (False, ReportDrop (unat block_start_location) Read_Failed r)
         else (True, r))"

text \<open>ReadMore: \<open>None\<close> for the result true, otherwise the error it stores.\<close>

definition ReadMore :: "calls_end \<Rightarrow> nat \<Rightarrow> Reader \<Rightarrow> u32 option \<times> nat \<times> Reader" where
  "ReadMore io drop_size r =
     (if \<not> eof r \<and> \<not> read_error r then
        let (ok, b, r) = file_Read io kBlockSize (r\<lparr>buffer := []\<rparr>);
            r = r\<lparr>buffer := b, end_of_buffer_offset := end_of_buffer_offset r + of_nat (length b)\<rparr>
        in if \<not> ok then
             (Some kEof, drop_size,
              (ReportDrop kBlockSize Read_Failed (r\<lparr>buffer := []\<rparr>))\<lparr>read_error := True\<rparr>)
           else if length b < kBlockSize then (None, drop_size, r\<lparr>eof := True, eof_offset := length b\<rparr>)
           else (None, drop_size, r)
      else if buffer r \<noteq> [] then (Some kBadHeader, length (buffer r), r\<lparr>buffer := []\<rparr>)
      else (Some kEof, drop_size, r\<lparr>buffer := []\<rparr>))"

text \<open>ReadPhysicalRecord from the check of the length on, with a complete header in the buffer.\<close>

definition physical_payload ::
    "extend \<Rightarrow> u32 \<Rightarrow> nat \<Rightarrow> nat \<Rightarrow> bytes \<Rightarrow> nat \<Rightarrow> Reader \<Rightarrow> u32 \<times> bytes \<times> nat \<times> Reader" where
  "physical_payload ext t hs len fragment drop_size r =
     (let header = buffer r
      in if hs + len > length header then
           (if \<not> eof r then kBadRecordLen else if length header \<noteq> 0 then kBadHeader else kEof,
            fragment, length header, r\<lparr>buffer := []\<rparr>)
         else if t = kZeroType \<and> len = 0 then (kBadRecord, fragment, drop_size, r\<lparr>buffer := []\<rparr>)
         else if checksum r \<and> crc_Value ext (take (len + hs - 6) (drop 6 header)) \<noteq> Unmask (projr (DecodeFixed32 header)) then
           (kBadRecordChecksum, fragment, length header, r\<lparr>buffer := []\<rparr>)
         else let r = r\<lparr>buffer := drop (hs + len) header\<rparr>
              in if end_of_buffer_offset r - of_nat (length (buffer r)) - of_nat hs - of_nat len < initial_offset r then
                   (kBadRecord, [], drop_size, r)
                 else (t, take len (drop hs header), drop_size, r))"

definition is_recyclable :: "u32 \<Rightarrow> bool" where
  "is_recyclable t \<longleftrightarrow> kRecyclableFullType \<le> t \<and> t \<le> kRecyclableLastType"

lemma ReadMore_progress:
  assumes "(None, d', r') = ReadMore io d r"
  shows "length (unread r') + (if eof r' then 0 else 1) < length (unread r) + (if eof r then 0 else 1)"
  using assms
  by (auto simp: ReadMore_def Let_def file_Read_def kBlockSize_def split: if_splits option.splits)

function ReadPhysicalRecord :: "extend \<Rightarrow> calls_end \<Rightarrow> bytes \<Rightarrow> nat \<Rightarrow> Reader \<Rightarrow> u32 \<times> bytes \<times> nat \<times> Reader" where
  "ReadPhysicalRecord ext io fragment drop_size r =
     (if length (buffer r) < kHeaderSize then
        case ReadMore io drop_size r of
          (Some e, drop_size, r) \<Rightarrow> (e, fragment, drop_size, r)
        | (None, drop_size, r) \<Rightarrow> ReadPhysicalRecord ext io fragment drop_size r
      else
        let header = buffer r;
            a = scast (header ! 4) AND 0xff;
            b = scast (header ! 5) AND 0xff;
            t = scast (header ! 6);
            len = unat ((a OR push_bit 8 b) :: u32)
        in if is_recyclable t then
             let r = (if end_of_buffer_offset r - of_nat (length (buffer r)) = 0 then r\<lparr>recycled := True\<rparr> else r)
             in if length (buffer r) < kRecyclableHeaderSize then
                  case ReadMore io drop_size r of
                    (Some e, drop_size, r) \<Rightarrow> (e, fragment, drop_size, r)
                  | (None, drop_size, r) \<Rightarrow> ReadPhysicalRecord ext io fragment drop_size r
                else if ucast (projr (DecodeFixed32 (drop 7 header))) \<noteq> reader_log_number r then
                  (kOldRecord, fragment, drop_size, r)
                else physical_payload ext t kRecyclableHeaderSize len fragment drop_size r
           else physical_payload ext t kHeaderSize len fragment drop_size r)"
  by pat_completeness auto

termination
proof (relation "measure (\<lambda>(ext, io, fragment, drop_size, r). length (unread r) + (if eof r then 0 else 1))", goal_cases)
  case 1
  show ?case by simp
next
  case (2 ext io fragment drop_size r e q d' r')
  then show ?case using ReadMore_progress [of d' r' io drop_size r] by (cases q) simp
next
  case (3 ext io fragment drop_size r header a b t len r1 e q d' r')
  then have "length (unread r1) + (if eof r1 then 0 else 1) = length (unread r) + (if eof r then 0 else 1)" by simp
  then show ?case using 3 ReadMore_progress [of d' r' io drop_size r1] by (cases q) simp
qed

declare ReadPhysicalRecord.simps [simp del]

text \<open>The switch in the loop of ReadRecord: \<open>Inl\<close> for a return, with the record and the scratch string, \<open>Inr\<close> for a break.\<close>

definition read_step ::
    "WALRecoveryMode \<Rightarrow> bool \<Rightarrow> u64 \<Rightarrow> bytes \<Rightarrow> u64 \<Rightarrow> u32 \<Rightarrow> bytes \<Rightarrow> nat \<Rightarrow> Reader
      \<Rightarrow> (bool \<times> bytes \<times> bytes \<times> Reader) + (bool \<times> u64 \<times> bytes \<times> Reader)" where
  "read_step mode in_fragmented_record prospective scratch physical_record_offset t fragment drop_size r =
     (let at_end = (\<lambda>r.
            if in_fragmented_record then
              Inl (False, [], [],
                   if mode = kAbsoluteConsistency
                   then ReportCorruption (length scratch) ''error reading trailing data'' r else r)
            else Inl (False, [], scratch, r));
          in_middle = (\<lambda>r.
            if in_fragmented_record then
              Inr (False, prospective, [], ReportCorruption (length scratch) ''error in middle of record'' r)
            else Inr (in_fragmented_record, prospective, scratch, r))
      in if t = kFullType \<or> t = kRecyclableFullType then
           let r = (if in_fragmented_record \<and> scratch \<noteq> []
                    then ReportCorruption (length scratch) ''partial record without end(1)'' r else r)
           in Inl (True, fragment, [], r\<lparr>last_record_offset := physical_record_offset\<rparr>)
         else if t = kFirstType \<or> t = kRecyclableFirstType then
           let r = (if in_fragmented_record \<and> scratch \<noteq> []
                    then ReportCorruption (length scratch) ''partial record without end(2)'' r else r)
           in Inr (True, physical_record_offset, fragment, r)
         else if t = kMiddleType \<or> t = kRecyclableMiddleType then
           if \<not> in_fragmented_record then
             Inr (in_fragmented_record, prospective, scratch,
                  ReportCorruption (length fragment) ''missing start of fragmented record(1)'' r)
           else Inr (in_fragmented_record, prospective, scratch @ fragment, r)
         else if t = kLastType \<or> t = kRecyclableLastType then
           if \<not> in_fragmented_record then
             Inr (in_fragmented_record, prospective, scratch,
                  ReportCorruption (length fragment) ''missing start of fragmented record(2)'' r)
           else Inl (True, scratch @ fragment, scratch @ fragment, r\<lparr>last_record_offset := prospective\<rparr>)
         else if t = kBadHeader then
           at_end (if mode = kAbsoluteConsistency then ReportCorruption drop_size ''truncated header'' r else r)
         else if t = kEof then at_end r
         else if t = kOldRecord then
           if mode \<noteq> kSkipAnyCorruptedRecords then at_end r else in_middle r
         else if t = kBadRecord then in_middle r
         else if t = kBadRecordLen \<or> t = kBadRecordChecksum then
           if recycled r \<and> mode = kTolerateCorruptedTailRecords then Inl (False, [], [], r)
           else in_middle (ReportCorruption drop_size
                  (if t = kBadRecordLen then ''bad record length'' else ''checksum mismatch'') r)
         else
           Inr (False, prospective, [],
                ReportDrop (length fragment + (if in_fragmented_record then length scratch else 0))
                  (Unknown_Record_Type t) r))"

partial_function (option) read_loop ::
    "extend \<Rightarrow> calls_end \<Rightarrow> WALRecoveryMode \<Rightarrow> bool \<Rightarrow> u64 \<Rightarrow> bytes \<Rightarrow> bytes \<Rightarrow> Reader
      \<Rightarrow> (bool \<times> bytes \<times> bytes \<times> Reader) option" where
  "read_loop ext io mode in_fragmented_record prospective scratch fragment r =
     (let physical_record_offset = end_of_buffer_offset r - of_nat (length (buffer r));
          (t, fragment, drop_size, r) = ReadPhysicalRecord ext io fragment 0 r
      in case read_step mode in_fragmented_record prospective scratch physical_record_offset t fragment drop_size r of
           Inl result \<Rightarrow> Some result
         | Inr (in_fragmented_record, prospective, scratch, r) \<Rightarrow>
             read_loop ext io mode in_fragmented_record prospective scratch fragment r)"

text \<open>ReadRecord: its result, the record, the scratch string and the reader; \<open>None\<close> when it does not return.\<close>

definition ReadRecord ::
    "extend \<Rightarrow> calls_end \<Rightarrow> WALRecoveryMode \<Rightarrow> bytes \<Rightarrow> bytes \<Rightarrow> Reader \<Rightarrow> (bool \<times> bytes \<times> bytes \<times> Reader) option" where
  "ReadRecord ext io mode rec scratch r =
     (let (ok, r) = (if last_record_offset r < initial_offset r then SkipToInitialBlock io r else (True, r))
      in if \<not> ok then Some (False, rec, scratch, r) else read_loop ext io mode False 0 [] [] r)"

definition LastRecordOffset :: "Reader \<Rightarrow> u64" where
  "LastRecordOffset r = last_record_offset r"

definition UnmarkEOF :: "calls_end \<Rightarrow> Reader \<Rightarrow> Reader" where
  "UnmarkEOF io r =
     (if read_error r then r
      else let r = r\<lparr>eof := False\<rparr>
           in if eof_offset r = 0 then r
              else let remaining = kBlockSize - eof_offset r;
                       (ok, read_buffer, r) = file_Read io remaining r;
                       added = length read_buffer;
                       r = r\<lparr>end_of_buffer_offset := end_of_buffer_offset r + of_nat added\<rparr>
                   in if \<not> ok then
                        (if added > 0 then ReportDrop added Read_Failed r else r)\<lparr>read_error := True\<rparr>
                      else let r = r\<lparr>buffer := buffer r @ read_buffer\<rparr>
                           in if added < remaining then r\<lparr>eof := True, eof_offset := eof_offset r + added\<rparr>
                              else r\<lparr>eof_offset := 0\<rparr>)"

subsection \<open>The loops end\<close>

lemma ReportDrop_frame [simp]:
  "buffer (ReportDrop n e r) = buffer r" "unread (ReportDrop n e r) = unread r" "eof (ReportDrop n e r) = eof r"
  "initial_offset (ReportDrop n e r) = initial_offset r" "reader_log_number (ReportDrop n e r) = reader_log_number r"
  by (simp_all add: ReportDrop_def)

lemma ReportCorruption_frame [simp]:
  "buffer (ReportCorruption n e r) = buffer r" "unread (ReportCorruption n e r) = unread r"
  "initial_offset (ReportCorruption n e r) = initial_offset r"
  "reader_log_number (ReportCorruption n e r) = reader_log_number r"
  by (simp_all add: ReportCorruption_def)

abbreviation bytes_left :: "Reader \<Rightarrow> nat" where
  "bytes_left r \<equiv> length (buffer r) + length (unread r)"

lemma ReadMore_left: "ReadMore io d r = (e, d', r') \<Longrightarrow> bytes_left r' \<le> bytes_left r"
  by (auto simp: ReadMore_def Let_def file_Read_def split: if_splits option.splits)

lemma ReadMore_error: "ReadMore io d r = (Some e, d', r') \<Longrightarrow> e = kEof \<or> e = kBadHeader"
  by (auto simp: ReadMore_def Let_def file_Read_def split: if_splits)

lemma payload_progress:
  "physical_payload ext t hs len f d r = (t', f', d', r') \<Longrightarrow> hs > 0 \<Longrightarrow> hs \<le> length (buffer r) \<Longrightarrow> bytes_left r' < bytes_left r"
  by (auto simp: physical_payload_def Let_def split: if_splits)

text \<open>The state after the header is parsed, which marks the file as recycled, and the parts of the header.\<close>

definition header_type :: "bytes \<Rightarrow> u32" where
  "header_type h = scast (h ! 6)"

definition header_length :: "bytes \<Rightarrow> nat" where
  "header_length h = unat (((scast (h ! 4) AND 0xff) OR push_bit 8 (scast (h ! 5) AND 0xff)) :: u32)"

definition note_recycled :: "Reader \<Rightarrow> Reader" where
  "note_recycled r =
     (if is_recyclable (header_type (buffer r)) \<and> end_of_buffer_offset r - of_nat (length (buffer r)) = 0
      then r\<lparr>recycled := True\<rparr> else r)"

definition needs_more :: "Reader \<Rightarrow> bool" where
  "needs_more r \<longleftrightarrow> length (buffer r) < kHeaderSize \<or>
     is_recyclable (header_type (buffer r)) \<and> length (buffer r) < kRecyclableHeaderSize"

definition parsed :: "Reader \<Rightarrow> Reader" where
  "parsed r = (if length (buffer r) < kHeaderSize then r else note_recycled r)"

lemma parsed_frame [simp]:
  "buffer (parsed r) = buffer r" "unread (parsed r) = unread r" "eof (parsed r) = eof r"
  "read_error (parsed r) = read_error r" "initial_offset (parsed r) = initial_offset r"
  "reader_log_number (parsed r) = reader_log_number r" "checksum (parsed r) = checksum r" "reports (parsed r) = reports r"
  "end_of_buffer_offset (parsed r) = end_of_buffer_offset r"
  by (simp_all add: parsed_def note_recycled_def)

lemma ReadPhysicalRecord_more:
  assumes "needs_more r"
  shows "ReadPhysicalRecord ext io f d r =
    (case ReadMore io d (parsed r) of
       (Some e, d, r) \<Rightarrow> (e, f, d, r)
     | (None, d, r) \<Rightarrow> ReadPhysicalRecord ext io f d r)"
  using assms unfolding ReadPhysicalRecord.simps [of ext io f d r]
  by (cases "length (buffer r) < kHeaderSize")
    (simp_all add: needs_more_def parsed_def note_recycled_def header_type_def Let_def)

lemma ReadPhysicalRecord_header:
  assumes "\<not> needs_more r"
  shows "ReadPhysicalRecord ext io f d r =
    (let t = header_type (buffer r)
     in if is_recyclable t then
          if ucast (projr (DecodeFixed32 (drop 7 (buffer r)))) \<noteq> reader_log_number r then (kOldRecord, f, d, parsed r)
          else physical_payload ext t kRecyclableHeaderSize (header_length (buffer r)) f d (parsed r)
        else physical_payload ext t kHeaderSize (header_length (buffer r)) f d (parsed r))"
  using assms unfolding ReadPhysicalRecord.simps [of ext io f d r]
  by (cases "is_recyclable (header_type (buffer r))")
    (simp_all add: needs_more_def parsed_def note_recycled_def header_type_def header_length_def Let_def)

lemma ReadPhysicalRecord_progress:
  assumes "ReadPhysicalRecord ext io f d r = (t, f', d', r')"
  shows "bytes_left r' < bytes_left r \<or> bytes_left r' \<le> bytes_left r \<and> t \<in> {kEof, kBadHeader, kOldRecord}"
  using assms
proof (induction "length (unread r) + (if eof r then 0 else 1 :: nat)" arbitrary: d r rule: less_induct)
  case less
  show ?case
  proof (cases "needs_more r")
    case True
    obtain e d1 r1 where more: "ReadMore io d (parsed r) = (e, d1, r1)" by (metis prod_cases3)
    have le: "bytes_left r1 \<le> bytes_left r" using ReadMore_left [OF more] by simp
    show ?thesis
    proof (cases e)
      case None
      then have "length (unread r1) + (if eof r1 then 0 else 1) < length (unread r) + (if eof r then 0 else 1)"
        using ReadMore_progress [of d1 r1 io d "parsed r"] more by simp
      moreover have "ReadPhysicalRecord ext io f d1 r1 = (t, f', d', r')"
        using less.prems ReadPhysicalRecord_more [OF True] more None by simp
      ultimately show ?thesis using less.hyps le by force
    next
      case (Some c)
      then show ?thesis
        using less.prems ReadPhysicalRecord_more [OF True] more le ReadMore_error [of io d "parsed r" c d1 r1] by auto
    qed
  next
    case False
    note payload = payload_progress [of ext "header_type (buffer r)" _ "header_length (buffer r)" f d "parsed r" t f' d' r']
    have "kHeaderSize \<le> length (buffer r)" using False by (simp add: needs_more_def)
    moreover have "is_recyclable (header_type (buffer r)) \<Longrightarrow> kRecyclableHeaderSize \<le> length (buffer r)"
      using False by (simp add: needs_more_def)
    ultimately show ?thesis
      using less.prems ReadPhysicalRecord_header [OF False] payload
      by (auto simp: Let_def split: if_splits)
  qed
qed

lemma read_step_break:
  assumes "read_step mode b po sc off t f d r = Inr (b', po', sc', r')"
  shows "bytes_left r' = bytes_left r" "t \<noteq> kEof" "t \<noteq> kBadHeader"
    "mode \<noteq> kSkipAnyCorruptedRecords \<Longrightarrow> t \<noteq> kOldRecord"
  using assms by (auto simp: read_step_def Let_def split: if_splits)

lemma read_loop_returns:
  assumes "mode \<noteq> kSkipAnyCorruptedRecords"
  shows "\<exists>x. read_loop ext io mode b po sc f r = Some x"
proof (induction "bytes_left r" arbitrary: b po sc f r rule: less_induct)
  case less
  obtain t f1 d1 r1 where phys: "ReadPhysicalRecord ext io f 0 r = (t, f1, d1, r1)" by (metis prod_cases4)
  let ?step = "read_step mode b po sc (end_of_buffer_offset r - of_nat (length (buffer r))) t f1 d1 r1"
  show ?case
  proof (cases ?step)
    case (Inl x)
    then show ?thesis using phys by (cases x) (subst read_loop.simps, simp add: Let_def)
  next
    case (Inr y)
    obtain b2 po2 sc2 r2 where y: "y = (b2, po2, sc2, r2)" by (metis prod_cases4)
    have "bytes_left r2 < bytes_left r"
      using ReadPhysicalRecord_progress [OF phys] read_step_break [OF Inr [unfolded y]] assms by auto
    from less [OF this] show ?thesis using phys Inr y by (subst read_loop.simps) (simp add: Let_def)
  qed
qed

text \<open>A record of an older log at the head of the buffer.\<close>

definition old_head :: "Reader \<Rightarrow> bool" where
  "old_head r \<longleftrightarrow> \<not> needs_more r \<and> is_recyclable (header_type (buffer r)) \<and>
     ucast (projr (DecodeFixed32 (drop 7 (buffer r)))) \<noteq> reader_log_number r"

lemma old_head_stays:
  assumes "old_head r" "ReadPhysicalRecord ext io f d r = (t, f', d', r')"
  shows "t = kOldRecord" "old_head r'"
proof -
  have "(t, f', d', r') = (kOldRecord, f, d, parsed r)"
    using assms ReadPhysicalRecord_header [of r ext io f d] by (simp add: old_head_def Let_def)
  then show "t = kOldRecord" "old_head r'"
    using assms(1) by (simp_all add: old_head_def needs_more_def)
qed

lemma read_step_old:
  assumes "old_head r"
  obtains b' po' sc' r' where "read_step kSkipAnyCorruptedRecords b po sc off kOldRecord f d r = Inr (b', po', sc', r')" "old_head r'"
  using assms that
  by (cases b) (auto simp: read_step_def Let_def old_head_def needs_more_def)

lemma read_loop_old_record:
  assumes "old_head r"
  shows "read_loop ext io kSkipAnyCorruptedRecords b po sc f r = None"
proof -
  have "\<not> (mode = kSkipAnyCorruptedRecords \<and> old_head r)" if "read_loop ext io mode b po sc f r = Some y" for mode y
  proof (rule read_loop.raw_induct
      [where P = "\<lambda>ext io mode b po sc f r y. \<not> (mode = kSkipAnyCorruptedRecords \<and> old_head r)", OF _ that], goal_cases)
    case (1 loop ext io mode b po sc f r y)
    obtain t f1 d1 r1 where phys: "ReadPhysicalRecord ext io f 0 r = (t, f1, d1, r1)" by (metis prod_cases4)
    show ?case
    proof
      assume old: "mode = kSkipAnyCorruptedRecords \<and> old_head r"
      then have t: "t = kOldRecord" "old_head r1" using old_head_stays [OF _ phys] by auto
      obtain b2 po2 sc2 r2 where
        "read_step mode b po sc (end_of_buffer_offset r - of_nat (length (buffer r))) t f1 d1 r1 = Inr (b2, po2, sc2, r2)" "old_head r2"
        using read_step_old [OF t(2)] t(1) old by metis
      then show False using 1 phys old by (simp add: Let_def)
    qed
  qed
  then show ?thesis using assms by (metis not_Some_eq)
qed

subsection \<open>Headers\<close>

lemma sign_extended_byte: "scast (b :: byte) AND 0xff = (ucast b :: u32)"
proof (rule bit_word_eqI)
  fix n assume "n < LENGTH(32)"
  then show "bit (scast b AND 0xff :: u32) n = bit (ucast b :: u32) n"
    using bit_imp_le_length [of b n] by (auto simp: bit_simps bit_255)
qed

lemma header_length_bytes:
  assumes "n < 65536" "h ! 4 = of_nat n" "h ! 5 = of_nat (n div 256)"
  shows "header_length h = n"
proof -
  let ?w = "of_nat n :: u32"
  have n: "unat ?w = n" using assms(1) by (simp add: unat_of_nat_small)
  have "unat (drop_bit 8 ?w) = n div 256" unfolding unat_drop_bit_eq n by (simp add: drop_bit_eq_div)
  then have "drop_bit 8 ?w = of_nat (n div 256)" by (metis of_nat_unat ucast_id)
  moreover have "(ucast (of_nat m :: u32) :: byte) = of_nat m" for m
    by (rule bit_word_eqI) (simp add: bit_simps)
  ultimately have "to_le 2 ?w = [of_nat n, of_nat (n div 256)]"
    by (simp add: numeral_2_eq_2)
  then have "of_le [of_nat n, of_nat (n div 256)] = take_bit 16 ?w"
    using of_le_to_le [of 2 ?w] by simp
  also have "\<dots> = ?w" using assms(1) by (simp add: take_bit_of_nat take_bit_nat_eq_self)
  finally show ?thesis
    using assms by (simp add: header_length_def sign_extended_byte unat_of_nat_small)
qed

lemma header_type_byte: "h ! 6 = ucast (record_type rc b e) \<Longrightarrow> header_type h = record_type rc b e"
  by (simp add: header_type_def record_type_def)

lemma is_recyclable_type [simp]: "is_recyclable (record_type rc b e) \<longleftrightarrow> rc"
  by (simp add: is_recyclable_def record_type_def word_le_nat_alt)

lemma to_le_4: "\<exists>a b c d. to_le 4 (v :: u32) = [a, b, c, d]"
  by (simp add: numeral_eq_Suc)

lemma physical_record_nth:
  "physical_record ext n t d ! 4 = of_nat (length d)" "physical_record ext n t d ! 5 = of_nat (length d div 256)"
  "physical_record ext n t d ! 6 = ucast t"
  using to_le_4 [of "Mask _"] by (auto simp: physical_record_def Let_def nth_append)

subsection \<open>Positions in the file\<close>

text \<open>The reader is at the offset \<open>p\<close> of a file with the bytes \<open>G\<close>: it holds the rest of the block, or of the file.\<close>

abbreviation reads_succeed :: calls_end where
  "reads_succeed \<equiv> \<lambda>_. None"

abbreviation block_left :: "nat \<Rightarrow> nat" where
  "block_left p \<equiv> kBlockSize - p mod kBlockSize"

definition reading :: "bytes \<Rightarrow> u64 \<Rightarrow> nat \<Rightarrow> Reader \<Rightarrow> bool" where
  "reading G n p r \<longleftrightarrow> buffer r @ unread r = drop p G \<and> p \<le> length G \<and> \<not> read_error r \<and> initial_offset r = 0 \<and>
     reader_log_number r = n \<and> length (buffer r) \<le> block_left p \<and>
     (if eof r then unread r = [] else (p + length (buffer r)) mod kBlockSize = 0)"

definition loaded :: "bytes \<Rightarrow> nat \<Rightarrow> Reader \<Rightarrow> bool" where
  "loaded G p r \<longleftrightarrow> buffer r = take (block_left p) (drop p G) \<and> (\<not> eof r \<longrightarrow> length (buffer r) = block_left p)"

lemma reading_new: "reading G n 0 (Reader_new G rep chk 0 n)"
  by (simp add: reading_def Reader_new_def)

lemma reading_cases:
  assumes "reading G n p r"
  obtains (loaded) "loaded G p r" | (empty) "buffer r = []" "\<not> eof r" "p mod kBlockSize = 0" "unread r = drop p G"
proof (cases "eof r")
  case True
  then have "buffer r = drop p G" "length (buffer r) \<le> block_left p" using assms by (auto simp: reading_def)
  then show ?thesis using loaded True by (simp add: loaded_def)
next
  case False
  then have b: "(p + length (buffer r)) mod kBlockSize = 0" "length (buffer r) \<le> block_left p" "buffer r @ unread r = drop p G"
    using assms by (auto simp: reading_def)
  show ?thesis
  proof (cases "buffer r = []")
    case True
    then show ?thesis using empty b False by simp
  next
    case nonempty: False
    have "(p mod kBlockSize + length (buffer r)) mod kBlockSize = 0" using b(1) by (simp only: mod_add_left_eq)
    then have "length (buffer r) = block_left p"
      using b(2) nonempty by (cases "p mod kBlockSize + length (buffer r) < kBlockSize") auto
    then show ?thesis using loaded b(3) by (metis append_eq_conv_conj loaded_def)
  qed
qed

lemma needs_more_short: "length (buffer r) < 7 \<Longrightarrow> needs_more r"
  by (simp add: needs_more_def)

lemma ReadMore_load:
  assumes "\<not> eof r" "\<not> read_error r"
  shows "\<exists>r'. ReadMore reads_succeed d r = (None, d, r') \<and> buffer r' = take kBlockSize (unread r) \<and>
    unread r' = drop kBlockSize (unread r) \<and> (eof r' \<longleftrightarrow> length (unread r) < kBlockSize) \<and> \<not> read_error r' \<and>
    initial_offset r' = initial_offset r \<and> reader_log_number r' = reader_log_number r \<and> reports r' = reports r"
  using assms by (auto simp: ReadMore_def Let_def file_Read_def min_def)

text \<open>A reader with less than a header left before the end of a block goes on in the next block.\<close>

lemma next_block:
  assumes "reading G n p r" "\<not> eof r" "length (buffer r) < 7"
  shows "\<exists>r'. ReadPhysicalRecord ext reads_succeed f d r = ReadPhysicalRecord ext reads_succeed f d r' \<and>
    reading G n (p + length (buffer r)) r' \<and> loaded G (p + length (buffer r)) r' \<and> reports r' = reports r"
proof -
  obtain r' where more: "ReadMore reads_succeed d (parsed r) = (None, d, r')" and r': "buffer r' = take kBlockSize (unread r)"
      "unread r' = drop kBlockSize (unread r)" "eof r' \<longleftrightarrow> length (unread r) < kBlockSize" "\<not> read_error r'"
      "initial_offset r' = initial_offset r" "reader_log_number r' = reader_log_number r" "reports r' = reports r"
    using ReadMore_load [of "parsed r" d] assms by (auto simp: reading_def)
  let ?q = "p + length (buffer r)"
  have d: "drop p G = buffer r @ unread r" and p: "p \<le> length G" and q: "?q mod kBlockSize = 0"
    using assms by (auto simp: reading_def)
  have u: "unread r = drop ?q G" using arg_cong [OF d, of "drop (length (buffer r))"] by (simp add: add.commute)
  have le: "?q \<le> length G" using arg_cong [OF d, of length] p by simp
  have "buffer r' @ unread r' = drop ?q G" using r'(1,2) u append_take_drop_id [of kBlockSize "unread r"] by simp
  then have "reading G n ?q r'"
    using assms r' q u le by (auto simp: reading_def)
  moreover have "loaded G ?q r'" using r' u q by (simp add: loaded_def)
  moreover have "ReadPhysicalRecord ext reads_succeed f d r = ReadPhysicalRecord ext reads_succeed f d r'"
    using ReadPhysicalRecord_more [OF needs_more_short [OF assms(3)]] more by simp
  ultimately show ?thesis using r' by blast
qed

lemma load:
  assumes "reading G n p r"
  obtains r' where "ReadPhysicalRecord ext reads_succeed f d r = ReadPhysicalRecord ext reads_succeed f d r'"
    "reading G n p r'" "loaded G p r'" "reports r' = reports r"
  using assms
proof (cases rule: reading_cases)
  case loaded
  then show ?thesis using that assms by blast
next
  case empty
  then show ?thesis using that next_block [OF assms, of ext f d] by auto
qed

lemma block_left_add: "k \<le> block_left p \<Longrightarrow> block_left p - k \<le> block_left (p + k)"
proof -
  assume k: "k \<le> block_left p"
  have m: "(p + k) mod kBlockSize = (p mod kBlockSize + k) mod kBlockSize" by (simp only: mod_add_left_eq)
  show ?thesis
  proof (cases "p mod kBlockSize + k < kBlockSize")
    case True
    then show ?thesis using m by simp
  next
    case False
    then show ?thesis using k by simp
  qed
qed

lemma reading_consume:
  assumes "reading G n p r" "k \<le> length (buffer r)"
  shows "reading G n (p + k) ((parsed r)\<lparr>buffer := drop k (buffer r)\<rparr>)"
proof -
  have d: "drop p G = buffer r @ unread r" "p \<le> length G" and le: "length (buffer r) \<le> block_left p"
    using assms(1) by (auto simp: reading_def)
  have "drop (p + k) G = drop k (buffer r) @ unread r"
    using arg_cong [OF d(1), of "drop k"] assms(2) by (simp add: add.commute)
  moreover have "p + k \<le> length G" using arg_cong [OF d(1), of length] d(2) assms(2) by simp
  moreover have "length (buffer r) - k \<le> block_left (p + k)" using block_left_add [of k p] le assms(2) by linarith
  ultimately show ?thesis using assms by (auto simp: reading_def)
qed

lemma physical_record_log: "\<not> t < kRecyclableFullType \<Longrightarrow> take 4 (drop 7 (physical_record ext n t d)) = to_le 4 (ucast n :: u32)"
  using to_le_4 [of "Mask _"] by (auto simp: physical_record_def Let_def)

lemma physical_record_ne: "physical_record ext n t d \<noteq> []"
  by (simp add: physical_record_def Let_def)

text \<open>What the reader parses from the first bytes of a fragment.\<close>

lemma parsed_header:
  assumes "take m h = take m (physical_record ext n t d)" "7 \<le> m" "m \<le> length h" "t = record_type rc b e" "length d < 65536"
  shows "header_type h = t" "header_length h = length d"
    "rc \<Longrightarrow> 11 \<le> m \<Longrightarrow> projr (DecodeFixed32 (drop 7 h)) = ucast n"
proof -
  have nth: "h ! i = physical_record ext n t d ! i" if "i < 7" for i
    using assms(1,2) that by (metis nth_take order_less_le_trans)
  then show "header_type h = t" "header_length h = length d"
    using header_type_byte [of h rc b e] header_length_bytes [OF assms(5)] assms(4) by (simp_all add: physical_record_nth)
  assume rc: "rc" and m: "11 \<le> m"
  have "take 4 (drop 7 h) = drop 7 (take 11 (take m h))" using m by (simp add: take_drop)
  also have "\<dots> = take 4 (drop 7 (physical_record ext n t d))" using m assms(1) by (simp add: take_drop)
  also have "\<dots> = to_le 4 (ucast n :: u32)"
    using physical_record_log rc record_type_recyclable [of rc b e] assms(4) by simp
  finally show "projr (DecodeFixed32 (drop 7 h)) = ucast n"
    using m assms(3) by (auto simp: DecodeFixed32_def kLittleEndian_def)
qed

text \<open>A fragment that is wholly in the file.\<close>

lemma payload_record:
  assumes "buffer r = physical_record ext n t d @ rest" "hs = (if t < kRecyclableFullType then 7 else 11)"
    "initial_offset r = 0" "t \<noteq> kZeroType"
  shows "physical_payload ext t hs (length d) f k r = (t, d, k, r\<lparr>buffer := rest\<rparr>)"
proof -
  define log where "log = (if t < kRecyclableFullType then [] else to_le 4 (ucast n :: u32))"
  let ?crc = "ext 0 (ucast t # log @ d)"
  have b: "buffer r = to_le 4 (Mask ?crc) @ [of_nat (length d), of_nat (length d div 256)] @ (ucast t # log @ d) @ rest"
    using assms(1) by (simp add: physical_record_def Let_def log_def)
  have log: "hs = length log + 7" using assms(2) by (simp add: log_def)
  obtain c0 c1 c2 c3 where c: "to_le 4 (Mask ?crc) = [c0, c1, c2, c3]" using to_le_4 by blast
  have "projr (DecodeFixed32 (buffer r)) = Mask ?crc" by (simp add: b)
  moreover have "take (length d + hs - 6) (drop 6 (buffer r)) = ucast t # log @ d"
    unfolding b c log by simp
  moreover have "take (length d) (drop hs (buffer r)) = d" "drop (hs + length d) (buffer r) = rest"
    unfolding b c log add.commute [of "length log + 7"] by (simp_all flip: drop_drop)
  moreover have "hs + length d \<le> length (buffer r)" using log by (simp add: b)
  ultimately show ?thesis using assms(3,4) by (simp add: physical_payload_def Let_def crc_Value_def)
qed

lemma read_fragment:
  assumes "reading G n p r" "drop p G = physical_record ext n t d @ rest" "t = record_type rc b e"
    "rc \<Longrightarrow> ucast (ucast n :: u32) = n" "p mod kBlockSize + length (physical_record ext n t d) \<le> kBlockSize"
  shows "\<exists>r'. ReadPhysicalRecord ext reads_succeed f k r = (t, d, k, r') \<and>
    reading G n (p + length (physical_record ext n t d)) r' \<and> reports r' = reports r"
proof -
  let ?r = "physical_record ext n t d"
  obtain r1 where r1: "ReadPhysicalRecord ext reads_succeed f k r = ReadPhysicalRecord ext reads_succeed f k r1"
    "reading G n p r1" "loaded G p r1" "reports r1 = reports r" by (rule load [OF assms(1), of ext f k])
  obtain rest' where b: "buffer r1 = ?r @ rest'" using r1(3) assms(2,5) by (auto simp: loaded_def)
  let ?r2 = "(parsed r1)\<lparr>buffer := rest'\<rparr>"
  have len: "length d < 65536" using assms(5) by (simp split: if_splits)
  note h = parsed_header [of "length ?r" "buffer r1" ext n t d rc b e, OF _ _ _ assms(3) len]
  have "\<not> needs_more r1"
    using record_type_recyclable [of rc b e] h(1) by (simp add: needs_more_def b assms(3))
  moreover have "t \<noteq> kZeroType" by (simp add: assms(3) record_type_def)
  moreover have "initial_offset r1 = 0" "reader_log_number r1 = n" using r1(2) by (simp_all add: reading_def)
  ultimately have "ReadPhysicalRecord ext reads_succeed f k r1 = (t, d, k, ?r2)"
    using payload_record [of "parsed r1" ext n t d rest' "if t < kRecyclableFullType then 7 else 11" f k] assms(4) h b
      record_type_recyclable [of rc b e]
    by (cases rc) (simp_all add: ReadPhysicalRecord_header Let_def assms(3))
  moreover have "reading G n (p + length ?r) ?r2" using reading_consume [OF r1(2), of "length ?r"] b by simp
  ultimately show ?thesis using r1 by auto
qed

text \<open>The end of the file, and a fragment or a trailer that is cut off there.\<close>

lemma log_read_short:
  assumes "needs_more r" "eof r" "reading G n p r"
  shows "\<exists>t k' r'. ReadPhysicalRecord ext reads_succeed f k r = (t, f, k', r') \<and> t \<in> {kEof, kBadHeader} \<and> reports r' = reports r"
  using assms by (simp add: ReadPhysicalRecord_more ReadMore_def reading_def)

lemma read_end:
  assumes "reading G n p r" "length G - p < 7"
  shows "\<exists>t k' r'. ReadPhysicalRecord ext reads_succeed f k r = (t, f, k', r') \<and> t \<in> {kEof, kBadHeader} \<and> reports r' = reports r"
proof (cases "eof r")
  case True
  then show ?thesis using assms log_read_short [OF needs_more_short, of r G n p ext f k] by (auto simp: reading_def dest: arg_cong [of _ _ length])
next
  case False
  have d: "buffer r @ unread r = drop p G" "p \<le> length G" using assms(1) by (auto simp: reading_def)
  have l: "length (buffer r) + length (unread r) < 7" using arg_cong [OF d(1), of length] assms(2) by simp
  obtain r' where r': "ReadPhysicalRecord ext reads_succeed f k r = ReadPhysicalRecord ext reads_succeed f k r'"
      "reading G n (p + length (buffer r)) r'" "loaded G (p + length (buffer r)) r'" "reports r' = reports r"
    using next_block [OF assms(1) False, of ext f k] l by auto
  have "length (buffer r') < 7" using r'(3) assms(2) by (simp add: loaded_def)
  moreover have "eof r'"
    using calculation r'(3) assms(1) False by (auto simp: loaded_def reading_def)
  ultimately show ?thesis using log_read_short [OF needs_more_short _ r'(2), of ext f k] r' by simp
qed

lemma read_cut:
  assumes "reading G n p r" "drop p G = take m (physical_record ext n t d)" "t = record_type rc b e"
    "rc \<Longrightarrow> ucast (ucast n :: u32) = n" "p mod kBlockSize + length (physical_record ext n t d) \<le> kBlockSize"
    "m < length (physical_record ext n t d)"
  shows "\<exists>t k' r'. ReadPhysicalRecord ext reads_succeed f k r = (t, f, k', r') \<and> t \<in> {kEof, kBadHeader} \<and> reports r' = reports r"
proof (cases "m < 7")
  case True
  have "length G - p \<le> m" using arg_cong [OF assms(2), of length] by simp
  then show ?thesis using read_end [OF assms(1)] True by simp
next
  case False
  let ?r = "physical_record ext n t d"
  obtain r1 where r1: "ReadPhysicalRecord ext reads_succeed f k r = ReadPhysicalRecord ext reads_succeed f k r1"
    "reading G n p r1" "loaded G p r1" "reports r1 = reports r" by (rule load [OF assms(1), of ext f k])
  have b: "buffer r1 = take m ?r" "length (buffer r1) = m" using r1(3) assms(2,5,6) by (auto simp: loaded_def min_def)
  have e: "eof r1" using r1(3) b(2) assms(5,6) by (auto simp: loaded_def)
  show ?thesis
  proof (cases "needs_more r1")
    case True
    then show ?thesis using log_read_short [OF _ e r1(2)] r1 by simp
  next
    case complete: False
    have len: "length d < 65536" using assms(5) by (simp split: if_splits)
    note h = parsed_header [of m "buffer r1" ext n t d rc b e, OF _ _ _ assms(3) len]
    have "rc \<Longrightarrow> 11 \<le> m" using complete h(1) b False by (simp add: needs_more_def assms(3))
    then show ?thesis
      using complete r1 assms(3,4,6) h b e record_type_recyclable [of rc b e] False
      by (cases rc) (auto simp: ReadPhysicalRecord_header Let_def physical_payload_def reading_def)
  qed
qed

text \<open>A trailer of zeros that is long enough for a header looks like an empty record.\<close>

lemma header_zeros: "7 \<le> m \<Longrightarrow> header_type (replicate m 0) = 0" "7 \<le> m \<Longrightarrow> header_length (replicate m 0) = 0"
  by (simp_all add: header_type_def header_length_def)

lemma read_zeros:
  assumes "reading G n p r" "drop p G = replicate m 0 @ rest" "7 \<le> m" "m \<le> block_left p" "rest = [] \<or> m = block_left p"
  shows "\<exists>r'. ReadPhysicalRecord ext reads_succeed f k r = (kBadRecord, f, k, r') \<and> reading G n (p + m) r' \<and> reports r' = reports r"
proof -
  obtain r1 where r1: "ReadPhysicalRecord ext reads_succeed f k r = ReadPhysicalRecord ext reads_succeed f k r1"
    "reading G n p r1" "loaded G p r1" "reports r1 = reports r" by (rule load [OF assms(1), of ext f k])
  have b: "buffer r1 = replicate m 0" using r1(3) assms(2,4,5) by (auto simp: loaded_def)
  have "\<not> needs_more r1" using assms(3) by (simp add: needs_more_def b header_zeros is_recyclable_def)
  then have "ReadPhysicalRecord ext reads_succeed f k r1 = (kBadRecord, f, k, (parsed r1)\<lparr>buffer := []\<rparr>)"
    using assms(3) b by (simp add: ReadPhysicalRecord_header Let_def header_zeros is_recyclable_def physical_payload_def)
  moreover have "reading G n (p + m) ((parsed r1)\<lparr>buffer := []\<rparr>)"
    using reading_consume [OF r1(2), of m] b by simp
  ultimately show ?thesis using r1 by auto
qed

lemma pad_less: "pad rc p < 11" "pad rc p \<noteq> 0 \<Longrightarrow> pad rc p = block_left p"
  by (auto simp: pad_def Let_def header_size_def)

lemma skip_short_trailer:
  assumes "reading G n p r" "drop p G = replicate (pad rc p) 0 @ rest" "rest \<noteq> []" "pad rc p < 7"
  shows "\<exists>r'. ReadPhysicalRecord ext reads_succeed f k r = ReadPhysicalRecord ext reads_succeed f k r' \<and>
    reading G n (p + pad rc p) r' \<and> reports r' = reports r"
proof (cases "pad rc p = 0")
  case True
  then show ?thesis using assms(1) by auto
next
  case False
  then have l: "pad rc p = block_left p" by (rule pad_less)
  from assms(1) have "buffer r = replicate (pad rc p) 0 \<and> \<not> eof r"
  proof (cases rule: reading_cases)
    case loaded
    then show ?thesis using assms(1-3) l by (auto simp: loaded_def reading_def)
  next
    case empty
    then show ?thesis using l assms(4) by simp
  qed
  then show ?thesis using next_block [OF assms(1), of ext f k] assms(4) by auto
qed

subsection \<open>Records\<close>

lemma read_loop_step:
  assumes "ReadPhysicalRecord ext io f 0 r = (t, f', k, r')"
  shows "read_loop ext io mode b po sc f r =
    (case read_step mode b po sc (end_of_buffer_offset r - of_nat (length (buffer r))) t f' k r' of
       Inl result \<Rightarrow> Some result
     | Inr (b, po, sc, r) \<Rightarrow> read_loop ext io mode b po sc f' r)"
  using assms by (subst read_loop.simps) (simp add: Let_def)

lemma read_loop_fragment:
  assumes "reading G n p r" "drop p G = replicate (pad rc p) 0 @ physical_record ext n t d @ rest" "t = record_type rc bg en"
    "rc \<Longrightarrow> ucast (ucast n :: u32) = n" "q = p + pad rc p"
    "q mod kBlockSize + length (physical_record ext n t d) \<le> kBlockSize" "b \<Longrightarrow> pad rc p = 0"
  shows "\<exists>off r'. read_loop ext reads_succeed mode b po sc f r =
      (case read_step mode b po sc off t d 0 r' of
         Inl result \<Rightarrow> Some result
       | Inr (b, po, sc, r) \<Rightarrow> read_loop ext reads_succeed mode b po sc d r) \<and>
    reading G n (q + length (physical_record ext n t d)) r' \<and> reports r' = reports r"
proof -
  let ?l = "pad rc p"
  let ?r = "physical_record ext n t d"
  have q: "drop q G = ?r @ rest" unfolding assms(5) using arg_cong [OF assms(2), of "drop ?l"] by (simp add: add.commute)
  show ?thesis
  proof (cases "?l < 7")
    case True
    obtain r1 where r1: "ReadPhysicalRecord ext reads_succeed f 0 r = ReadPhysicalRecord ext reads_succeed f 0 r1"
        "reading G n q r1" "reports r1 = reports r"
      using skip_short_trailer [OF assms(1,2) _ True, of ext f 0] assms(5) by (auto simp: physical_record_def Let_def)
    moreover obtain r2 where r2: "ReadPhysicalRecord ext reads_succeed f 0 r1 = (t, d, 0, r2)"
        "reading G n (q + length ?r) r2" "reports r2 = reports r1"
      using read_fragment [OF r1(2) q assms(3,4,6), of f 0] by blast
    ultimately have "ReadPhysicalRecord ext reads_succeed f 0 r = (t, d, 0, r2)" by simp
    from read_loop_step [OF this] show ?thesis using r1(3) r2(2,3) by (intro exI conjI) (assumption | simp)+
  next
    case False
    then have l: "?l = block_left p" "7 \<le> ?l" "\<not> b" using pad_less(2) [of rc p] assms(7) by auto
    obtain r1 where r1: "ReadPhysicalRecord ext reads_succeed f 0 r = (kBadRecord, f, 0, r1)"
        "reading G n q r1" "reports r1 = reports r"
      using read_zeros [OF assms(1,2) l(2), of ext f 0] l(1) assms(5) by auto
    have "read_loop ext reads_succeed mode b po sc f r = read_loop ext reads_succeed mode b po sc f r1"
      using l(3) unfolding read_loop_step [OF r1(1)] by (simp add: read_step_def)
    moreover obtain r2 where r2: "ReadPhysicalRecord ext reads_succeed f 0 r1 = (t, d, 0, r2)"
        "reading G n (q + length ?r) r2" "reports r2 = reports r1"
      using read_fragment [OF r1(2) q assms(3,4,6), of f 0] by blast
    ultimately show ?thesis using trans [OF _ read_loop_step [OF r2(1)]] r1(3) r2(2,3) by (intro exI conjI) (assumption | simp)+
  qed
qed

text \<open>A call that ends because the file does.\<close>

definition ends :: "extend \<Rightarrow> WALRecoveryMode \<Rightarrow> bool \<Rightarrow> u64 \<Rightarrow> bytes \<Rightarrow> bytes \<Rightarrow> Reader \<Rightarrow> bool" where
  "ends ext mode b po sc f r \<longleftrightarrow>
     (\<exists>sc' r'. read_loop ext reads_succeed mode b po sc f r = Some (False, [], sc', r') \<and>
        (mode \<noteq> kAbsoluteConsistency \<longrightarrow> reports r' = reports r))"

lemma ends_step:
  assumes "ReadPhysicalRecord ext reads_succeed f 0 r = (t, f', k, r')" "t \<in> {kEof, kBadHeader}" "reports r' = reports r"
  shows "ends ext mode b po sc f r"
  using assms(2,3) unfolding ends_def read_loop_step [OF assms(1)]
  by (auto simp: read_step_def Let_def)

lemma ends_at_end: "reading G n p r \<Longrightarrow> length G - p < 7 \<Longrightarrow> ends ext mode b po sc f r"
  using read_end [of G n p r ext f 0] ends_step by blast

lemma ends_trailer:
  assumes "reading G n p r" "drop p G = replicate m 0" "m \<le> block_left p" "b \<Longrightarrow> m < 7"
  shows "ends ext mode b po sc f r"
proof (cases "m < 7")
  case True
  then show ?thesis using ends_at_end [OF assms(1)] arg_cong [OF assms(2), of length] by simp
next
  case False
  then obtain r1 where r1: "ReadPhysicalRecord ext reads_succeed f 0 r = (kBadRecord, f, 0, r1)"
      "reading G n (p + m) r1" "reports r1 = reports r"
    using read_zeros [OF assms(1), of m "[]" ext f 0] assms by auto
  have "read_loop ext reads_succeed mode b po sc f r = read_loop ext reads_succeed mode b po sc f r1"
    using False assms(4) unfolding read_loop_step [OF r1(1)] by (auto simp: read_step_def)
  moreover have "ends ext mode b po sc f r1"
    using ends_at_end [OF r1(2)] arg_cong [OF assms(2), of length] by simp
  ultimately show ?thesis using r1(3) by (simp add: ends_def)
qed

lemma ends_fragment:
  assumes "reading G n p r" "drop p G = take m (replicate (pad rc p) 0 @ physical_record ext n t d)" "t = record_type rc bg en"
    "rc \<Longrightarrow> ucast (ucast n :: u32) = n" "q = p + pad rc p" "m < pad rc p + length (physical_record ext n t d)"
    "q mod kBlockSize + length (physical_record ext n t d) \<le> kBlockSize" "b \<Longrightarrow> pad rc p = 0"
  shows "ends ext mode b po sc f r"
proof (cases "m \<le> pad rc p")
  case True
  then have "drop p G = replicate m 0" "m \<le> block_left p" "b \<Longrightarrow> m < 7"
    using assms(2,8) pad_less(2) [of rc p] by (cases "pad rc p = 0"; auto simp: min_def)+
  with assms(1) show ?thesis by (rule ends_trailer)
next
  case False
  let ?m = "m - pad rc p"
  have q: "drop p G = replicate (pad rc p) 0 @ take ?m (physical_record ext n t d)"
    using assms(2) False by simp
  have q': "drop q G = take ?m (physical_record ext n t d)"
    unfolding assms(5) using arg_cong [OF q, of "drop (pad rc p)"] by (simp add: add.commute)
  have m: "?m < length (physical_record ext n t d)" "take ?m (physical_record ext n t d) \<noteq> []"
    using False assms(6) physical_record_ne by simp_all
  show ?thesis
  proof (cases "pad rc p < 7")
    case True
    obtain r1 where r1: "ReadPhysicalRecord ext reads_succeed f 0 r = ReadPhysicalRecord ext reads_succeed f 0 r1"
        "reading G n q r1" "reports r1 = reports r"
      using skip_short_trailer [OF assms(1) q m(2) True, of ext f 0] assms(5) by auto
    then show ?thesis
      using read_cut [OF r1(2) q' assms(3,4,7) m(1), of f 0] ends_step [of ext f r] by fastforce
  next
    case False
    then have l: "pad rc p = block_left p" "7 \<le> pad rc p" "\<not> b" using pad_less(2) [of rc p] assms(8) by auto
    obtain r1 where r1: "ReadPhysicalRecord ext reads_succeed f 0 r = (kBadRecord, f, 0, r1)"
        "reading G n q r1" "reports r1 = reports r"
      using read_zeros [OF assms(1) q l(2), of ext f 0] l(1) assms(5) by auto
    have "read_loop ext reads_succeed mode b po sc f r = read_loop ext reads_succeed mode b po sc f r1"
      using l(3) unfolding read_loop_step [OF r1(1)] by (simp add: read_step_def)
    moreover have "ends ext mode b po sc f r1"
      using read_cut [OF r1(2) q' assms(3,4,7) m(1), of f 0] ends_step [of ext f r1] by fastforce
    ultimately show ?thesis using r1(3) by (simp add: ends_def)
  qed
qed

lemma reading_offset [simp]: "reading G n p (r\<lparr>last_record_offset := x\<rparr>) \<longleftrightarrow> reading G n p r"
  by (simp add: reading_def)

lemma pad_aligned: "p mod kBlockSize = 0 \<Longrightarrow> pad rc p = 0"
  by (simp add: pad_def header_size_def)

lemma next_aligned: "q mod kBlockSize + l = kBlockSize \<Longrightarrow> (q + l) mod kBlockSize = 0"
  by (metis mod_add_left_eq mod_self)

lemma read_step_fragment:
  "read_step mode (\<not> bg) po sc off (record_type rc bg True) d k r =
     Inl (True, (if bg then [] else sc) @ d, if bg then [] else sc @ d, r\<lparr>last_record_offset := if bg then off else po\<rparr>)"
  "read_step mode (\<not> bg) po sc off (record_type rc bg False) d k r =
     Inr (True, if bg then off else po, (if bg then [] else sc) @ d, r)"
  by (simp_all add: read_step_def record_type_def Let_def)

lemma read_fragment_record:
  assumes "q = p + pad rc p" "x = physical_record ext n (record_type rc bg en) d" "q mod kBlockSize + length x \<le> kBlockSize"
    "reading G n p r" "drop p G = replicate (pad rc p) 0 @ x @ rest" "\<not> bg \<Longrightarrow> p mod kBlockSize = 0"
    "rc \<Longrightarrow> ucast (ucast n :: u32) = n"
  shows "\<exists>po' sc' r'. reading G n (q + length x) r' \<and> reports r' = reports r \<and> drop (q + length x) G = rest \<and>
    read_loop ext reads_succeed mode (\<not> bg) po sc f r =
      (if en then Some (True, (if bg then [] else sc) @ d, sc', r')
       else read_loop ext reads_succeed mode True po' ((if bg then [] else sc) @ d) d r')"
proof -
  have pad: "\<not> bg \<Longrightarrow> pad rc p = 0" using assms(6) by (rule pad_aligned)
  obtain off r' where r': "read_loop ext reads_succeed mode (\<not> bg) po sc f r =
      (case read_step mode (\<not> bg) po sc off (record_type rc bg en) d 0 r' of
         Inl result \<Rightarrow> Some result
       | Inr (b, po, sc, r) \<Rightarrow> read_loop ext reads_succeed mode b po sc d r)"
    "reading G n (q + length x) r'" "reports r' = reports r"
    using read_loop_fragment [OF assms(4) assms(5) [unfolded assms(2)] refl assms(7,1) assms(3) [unfolded assms(2)] pad]
      assms(2) by blast
  have "drop (q + length x) G = rest"
    unfolding assms(1) using arg_cong [OF assms(5), of "drop (pad rc p + length x)"] by (simp add: add.commute add.left_commute)
  then show ?thesis
    using r' by (cases en) (auto simp: read_step_fragment)
qed

lemma fragments_read:
  assumes "fragments ext n rc p bg data out" "rc \<Longrightarrow> ucast (ucast n :: u32) = n"
    "reading G n p r" "drop p G = out @ rest" "\<not> bg \<Longrightarrow> p mod kBlockSize = 0"
  shows "\<exists>sc' r'. read_loop ext reads_succeed mode (\<not> bg) po sc f r = Some (True, (if bg then [] else sc) @ data, sc', r') \<and>
    reading G n (p + length out) r' \<and> reports r' = reports r"
  using assms(1,3-5)
proof (induction arbitrary: po sc f r rule: fragments.induct)
  case (last q p x bg d)
  show ?case
    using read_fragment_record [OF last(1-4), of rest mode po sc f] last(1,5,6) assms(2) by (auto simp: add.assoc)
next
  case (more q p x bg d left out)
  obtain po' r' where r': "reading G n (q + length x) r'" "reports r' = reports r" "drop (q + length x) G = out @ rest"
      "read_loop ext reads_succeed mode (\<not> bg) po sc f r = read_loop ext reads_succeed mode True po' ((if bg then [] else sc) @ d) d r'"
    using read_fragment_record [OF more(1,2) _ more(6), of "out @ rest" mode po sc f] more(3,7,8) assms(2) by auto
  from more.IH [OF r'(1,3), of po' "(if bg then [] else sc) @ d" d] show ?case
    using r'(2,4) more(1) next_aligned [OF more(3)] by (auto simp: add.assoc)
qed

lemma fragments_cut:
  assumes "fragments ext n rc p bg data out" "rc \<Longrightarrow> ucast (ucast n :: u32) = n"
    "reading G n p r" "drop p G = take m out" "m < length out" "\<not> bg \<Longrightarrow> p mod kBlockSize = 0"
  shows "ends ext mode (\<not> bg) po sc f r"
  using assms(1,3-6)
proof (induction arbitrary: m po sc f r rule: fragments.induct)
  case (last q p x bg d)
  show ?case
    using ends_fragment [OF last(4), of m rc ext _ d bg True q "\<not> bg"] last assms(2) pad_aligned [of p rc]
    by (simp del: length_physical_record)
next
  case (more q p x bg d left out)
  show ?case
  proof (cases "m < pad rc p + length x")
    case True
    then show ?thesis
      using ends_fragment [OF more(6), of m rc ext _ d bg False q "\<not> bg"] more assms(2) pad_aligned [of p rc]
      by (simp del: length_physical_record)
  next
    case False
    define k where "k = m - (pad rc p + length x)"
    have "drop p G = replicate (pad rc p) 0 @ x @ take k out" using more(7) False by (simp add: k_def take_Cons')
    then obtain po' r' where r': "reading G n (q + length x) r'" "reports r' = reports r" "drop (q + length x) G = take k out"
        "read_loop ext reads_succeed mode (\<not> bg) po sc f r = read_loop ext reads_succeed mode True po' ((if bg then [] else sc) @ d) d r'"
      using read_fragment_record [OF more(1,2) _ more(6), of "take k out" mode po sc f] more(3,9) assms(2) by auto
    have "k < length out" using more(8) False by (simp add: k_def)
    from more.IH [OF r'(1,3) this, of po' "(if bg then [] else sc) @ d" d] show ?thesis
      using r'(2,4) next_aligned [OF more(3)] by (simp add: ends_def)
  qed
qed

subsection \<open>Whole files\<close>

text \<open>The records of a file, read until ReadRecord returns false.\<close>

partial_function (option) read_all ::
    "extend \<Rightarrow> calls_end \<Rightarrow> WALRecoveryMode \<Rightarrow> Reader \<Rightarrow> (bytes list \<times> Reader) option" where
  "read_all ext io mode r =
     Option.bind (ReadRecord ext io mode [] [] r) (\<lambda>(ok, rec, sc, r).
       if ok then Option.bind (read_all ext io mode r) (\<lambda>(rs, r). Some (rec # rs, r)) else Some ([], r))"

primrec AddRecords :: "extend \<Rightarrow> (nat \<Rightarrow> bool) \<Rightarrow> bytes list \<Rightarrow> Writer \<Rightarrow> Writer" where
  "AddRecords ext io [] w = w"
| "AddRecords ext io (d # ds) w = AddRecords ext io ds (snd (AddRecord ext io d w))"

abbreviation logged :: "extend \<Rightarrow> bytes list \<Rightarrow> Writer \<Rightarrow> bytes" where
  "logged ext ds w \<equiv> dest (AddRecords ext succeeds ds w)"

lemma ReadRecord_loop:
  "initial_offset r = 0 \<Longrightarrow> ReadRecord ext io mode rec sc r = read_loop ext io mode False 0 [] [] r"
  by (simp add: ReadRecord_def)

lemma read_all_ends:
  assumes "ends ext mode False 0 [] [] r" "reading G n p r" "mode \<noteq> kAbsoluteConsistency"
  shows "\<exists>r'. read_all ext reads_succeed mode r = Some ([], r') \<and> reports r' = reports r"
  using assms by (auto simp: ends_def reading_def ReadRecord_loop read_all.simps [of _ _ _ r])

lemma read_all_more:
  assumes "read_loop ext reads_succeed mode False 0 [] [] r = Some (True, d, sc, r1)" "reading G n p r"
    "read_all ext reads_succeed mode r1 = Some (ds, r')"
  shows "read_all ext reads_succeed mode r = Some (d # ds, r')"
  using assms by (simp add: reading_def ReadRecord_loop read_all.simps [of _ _ _ r])

context crc_extend
begin

lemma AddRecords_fields:
  assumes "writer_ok w"
  shows "\<exists>out. logged ext ds w = dest w @ out"
  using assms
proof (induction ds arbitrary: w)
  case (Cons d ds)
  obtain ok w' where w': "AddRecord ext succeeds d w = (ok, w')" by fastforce
  then show ?case using Cons.IH [of w'] AddRecord_fragments [OF Cons.prems w'] by auto
qed simp

lemma read_all_cut:
  assumes "writer_ok w" "recycle_log_files w \<Longrightarrow> ucast (ucast (log_number w) :: u32) = log_number w"
    "G = take m (logged ext ds w)" "reading G (log_number w) (length (dest w)) r" "mode \<noteq> kAbsoluteConsistency"
    "k \<le> length ds" "length (logged ext (take k ds) w) \<le> m"
    "k < length ds \<Longrightarrow> m < length (logged ext (take (Suc k) ds) w)"
  shows "\<exists>r'. read_all ext reads_succeed mode r = Some (take k ds, r') \<and> reports r' = reports r"
  using assms
proof (induction ds arbitrary: w r k)
  case Nil
  then have "length G - length (dest w) < 7" by simp
  then show ?case using read_all_ends [OF ends_at_end [OF Nil(4)] Nil(4,5)] by simp
next
  case (Cons d ds)
  obtain ok w' where w': "AddRecord ext succeeds d w = (ok, w')" by fastforce
  note add = AddRecord_fragments [OF Cons.prems(1) w']
  obtain out where out: "dest w' = dest w @ out"
      "fragments ext (log_number w) (recycle_log_files w) (length (dest w)) True d out" using add(5) by blast
  obtain out2 where out2: "logged ext ds w' = dest w' @ out2" using AddRecords_fields [OF add(2)] by blast
  have G: "G = take m (dest w @ out @ out2)" using Cons.prems(3) w' out out2 by simp
  show ?case
  proof (cases k)
    case 0
    then have "drop (length (dest w)) G = take (m - length (dest w)) out" "m - length (dest w) < length out"
      using Cons.prems(7,8) G w' out(1) by (auto simp: drop_take)
    then have "ends ext mode False 0 [] [] r"
      using fragments_cut [OF out(2) Cons.prems(2,4), of _ mode 0 "[]" "[]"] by simp
    then show ?thesis using read_all_ends [OF _ Cons.prems(4,5)] 0 by simp
  next
    case (Suc j)
    obtain out3 where "logged ext (take j ds) w' = dest w' @ out3" using AddRecords_fields [OF add(2)] by blast
    then have m: "length (dest w) + length out \<le> m" using Cons.prems(7) Suc w' out(1) by simp
    then have "drop (length (dest w)) G = out @ take (m - length (dest w) - length out) out2"
      by (simp add: G drop_take)
    then obtain sc r1 where r1: "read_loop ext reads_succeed mode False 0 [] [] r = Some (True, d, sc, r1)"
        "reading G (log_number w') (length (dest w')) r1" "reports r1 = reports r"
      using fragments_read [OF out(2) Cons.prems(2,4), of _ mode 0 "[]" "[]"] out(1) add(3) by auto
    then obtain r' where "read_all ext reads_succeed mode r1 = Some (take j ds, r')" "reports r' = reports r"
      using Cons.IH [OF add(2) _ _ r1(2) Cons.prems(5), of j] Cons.prems w' Suc add by auto
    then show ?thesis using read_all_more [OF r1(1) Cons.prems(4)] Suc by auto
  qed
qed

end

lemma Writer_new_simps [simp]:
  "log_number (Writer_new n recycle manual) = n" "recycle_log_files (Writer_new n recycle manual) = recycle"
  "dest (Writer_new n recycle manual) = []"
  by (simp_all add: Writer_new_def)

text \<open>C9: Recovery from a crash: a log file to which the writer added records is cut off anywhere and read with any mode
  but the one for clean shutdowns. The reader returns exactly the records that were written completely before the cut, in
  order and with their bytes, it then returns false, and it reports nothing. Reader and writer may run on
  different processors. For recycled files the log number must fit in the 32 bits of the header.\<close>

theorem log_crash_recovery:
  assumes "cpu_ok c" "cpu_ok c'" "recycle \<Longrightarrow> n < 2 ^ 32" "mode \<noteq> kAbsoluteConsistency" "k \<le> length ds"
    "length (logged (Extend c a) (take k ds) (Writer_new n recycle manual)) \<le> m"
    "k < length ds \<Longrightarrow> m < length (logged (Extend c a) (take (Suc k) ds) (Writer_new n recycle manual))"
  shows "\<exists>r. read_all (Extend c' a') reads_succeed mode
      (Reader_new (take m (logged (Extend c a) ds (Writer_new n recycle manual))) rep chk 0 n) = Some (take k ds, r) \<and> reports r = []"
proof -
  let ?w = "Writer_new n recycle manual"
  let ?G = "take m (logged (Extend c a) ds ?w)"
  have n: "ucast (ucast n :: u32) = n" if "recycle"
    using assms(3) [OF that]
    by (simp add: word_unat_eq_iff unsigned_ucast_eq take_bit_nat_eq_self unsigned_take_bit_eq word_less_nat_alt)
  have "\<exists>r. read_all (Extend c a) reads_succeed mode (Reader_new ?G rep chk 0 n) = Some (take k ds, r) \<and>
      reports r = reports (Reader_new ?G rep chk 0 n)"
    using crc_extend.read_all_cut [OF Extend_extends [OF assms(1)] writer_ok_new _ refl _ assms(4-7)]
      n reading_new [of ?G n rep chk] by simp
  then show ?thesis by (simp add: Extend_eq assms(1,2) Reader_new_def)
qed

lemmas log_eval = AddRecord_def add_loop.simps Let_def switch_block_def EmitPhysicalRecord_def dest_Append_def dest_Flush_def
  Writer_new_def header_size_def record_type_def

theorem log_crash_recovery_witness:
  "\<exists>r. read_all (Extend \<lparr>isSSE42 = False, mm_crc32_u64 = \<lambda>_. id\<rparr> 5) reads_succeed kTolerateCorruptedTailRecords
      (Reader_new (take 14 (logged (Extend \<lparr>isSSE42 = False, mm_crc32_u64 = \<lambda>_. id\<rparr> 0) [[1, 2], [3]] (Writer_new 9 True False)))
         True True 0 9) = Some ([[1, 2]], r) \<and> reports r = []"
  using log_crash_recovery [of "\<lparr>isSSE42 = False, mm_crc32_u64 = \<lambda>_. id\<rparr>" "\<lparr>isSSE42 = False, mm_crc32_u64 = \<lambda>_. id\<rparr>"
      True 9 kTolerateCorruptedTailRecords 1 "[[1, 2], [3]]" 0 False 14 5 True True]
  by (simp add: cpu_ok_def log_eval)

text \<open>C12: ReadRecord returns, on a file with any bytes and with reads that fail anywhere, in every recovery mode but
  the one that skips corrupted records.\<close>

theorem ReadRecord_returns:
  assumes "mode \<noteq> kSkipAnyCorruptedRecords"
  shows "\<exists>ok rec' scratch' r'. ReadRecord ext io mode rec scratch r = Some (ok, rec', scratch', r')"
  using read_loop_returns [OF assms] by (auto simp: ReadRecord_def Let_def split: prod.splits)

theorem ReadRecord_returns_witness:
  "\<exists>ok rec' scratch' r'. ReadRecord (\<lambda>c _. c) (\<lambda>i. if i = 2 then Some 5 else None) kTolerateCorruptedTailRecords [] []
     (Reader_new [1, 2, 3] True True 0 0) = Some (ok, rec', scratch', r')"
  by (rule ReadRecord_returns) simp

lemma old_log_loop:
  assumes "buffer r = []" "\<not> eof r" "\<not> read_error r" "old_head (r\<lparr>buffer := take kBlockSize (unread r)\<rparr>)"
  shows "read_loop ext reads_succeed kSkipAnyCorruptedRecords b po sc f r = None"
proof -
  obtain r1 where more: "ReadMore reads_succeed 0 r = (None, 0, r1)" and r1: "buffer r1 = take kBlockSize (unread r)"
      "reader_log_number r1 = reader_log_number r"
    using ReadMore_load [OF assms(2,3), of 0] by auto
  have old: "old_head r1" using assms(4) r1 by (simp add: old_head_def needs_more_def)
  have "ReadPhysicalRecord ext reads_succeed f 0 r = ReadPhysicalRecord ext reads_succeed f 0 r1"
    using ReadPhysicalRecord_more [OF needs_more_short, of r] more assms(1) by (simp add: parsed_def)
  moreover obtain t f1 k r2 where phys: "ReadPhysicalRecord ext reads_succeed f 0 r1 = (t, f1, k, r2)" by (metis prod_cases4)
  ultimately have step: "ReadPhysicalRecord ext reads_succeed f 0 r = (kOldRecord, f1, k, r2)" "old_head r2"
    using old_head_stays [OF old phys] by simp_all
  obtain b' po' sc' r3 where
    "read_step kSkipAnyCorruptedRecords b po sc (end_of_buffer_offset r - of_nat (length (buffer r))) kOldRecord f1 k r2
      = Inr (b', po', sc', r3)" "old_head r3" by (rule read_step_old [OF step(2)])
  then show ?thesis unfolding read_loop_step [OF step(1)] by (simp add: read_loop_old_record)
qed

lemma fragments_head:
  assumes "fragments ext n rc 0 True d out"
  shows "\<exists>en x rest. out = physical_record ext n (record_type rc True en) x @ rest \<and>
    length (physical_record ext n (record_type rc True en) x) \<le> kBlockSize"
proof -
  have pad: "pad rc 0 = 0" by (simp add: pad_aligned)
  from assms show ?thesis
  proof (cases rule: fragments.cases)
    case (last q r)
    then show ?thesis using pad by (intro exI [of _ True] exI [of _ d] exI [of _ "[]"]) (simp del: length_physical_record)
  next
    case (more q r d' left out')
    then show ?thesis using pad by (intro exI [of _ False] exI [of _ d'] exI [of _ out']) (simp del: length_physical_record)
  qed
qed

lemma old_log_head:
  assumes "G = physical_record ext n (record_type True bg en) x @ rest" "ucast (ucast n :: u32) \<noteq> n'"
    "length (physical_record ext n (record_type True bg en) x) \<le> kBlockSize"
  shows "old_head ((Reader_new G rep chk 0 n')\<lparr>buffer := take kBlockSize G\<rparr>)"
proof -
  let ?x = "physical_record ext n (record_type True bg en) x"
  have x: "length ?x = 11 + length x" using record_type_recyclable [of True bg en] by simp
  have "take 11 (take kBlockSize G) = take 11 ?x" "11 \<le> length (take kBlockSize G)" "length x < 65536"
    using assms(3) x by (simp_all add: assms(1))
  with parsed_header [of 11 "take kBlockSize G" ext n "record_type True bg en" x True bg en]
  have "header_type (take kBlockSize G) = record_type True bg en" "projr (DecodeFixed32 (drop 7 (take kBlockSize G))) = ucast n"
    by simp_all
  then show ?thesis
    using assms(2) \<open>11 \<le> length (take kBlockSize G)\<close> by (simp add: old_head_def needs_more_def Reader_new_def min_def)
qed

text \<open>C38: In the mode that skips corrupted records ReadRecord does not return on a recycled log file whose first record was written
  under another number, such as one that was recycled but not yet written again, because the record is left in the
  buffer and is found again. A log number of 2^32 or more always counts as another one, since the header holds 32
  bits of it.\<close>

theorem old_log_hangs:
  assumes "cpu_ok c" "ucast (ucast n :: u32) \<noteq> n'"
  shows "ReadRecord (Extend c' a') reads_succeed kSkipAnyCorruptedRecords rec scratch
    (Reader_new (logged (Extend c a) (d # ds) (Writer_new n True manual)) rep chk 0 n') = None"
proof -
  let ?w = "Writer_new n True manual"
  let ?G = "logged (Extend c a) (d # ds) ?w"
  note crc = Extend_extends [OF assms(1), of a]
  obtain ok w' where w': "AddRecord (Extend c a) succeeds d ?w = (ok, w')" by fastforce
  note add = crc_extend.AddRecord_fragments [OF crc writer_ok_new w']
  obtain out out2 where "dest w' = out" "fragments (Extend c a) n True 0 True d out" "?G = out @ out2"
    using add(5) crc_extend.AddRecords_fields [OF crc add(2), of ds] w' by auto
  then obtain en x rest where "?G = physical_record (Extend c a) n (record_type True True en) x @ rest"
      "length (physical_record (Extend c a) n (record_type True True en) x) \<le> kBlockSize"
    using fragments_head [of "Extend c a" n True d out] by auto
  then have "old_head ((Reader_new ?G rep chk 0 n')\<lparr>buffer := take kBlockSize ?G\<rparr>)"
    using old_log_head [OF _ assms(2)] by blast
  then have "read_loop (Extend c' a') reads_succeed kSkipAnyCorruptedRecords False 0 [] [] (Reader_new ?G rep chk 0 n') = None"
    by (intro old_log_loop) (simp_all add: Reader_new_def)
  then show ?thesis by (simp add: ReadRecord_loop Reader_new_def)
qed

theorem old_log_hangs_witness:
  "ReadRecord (Extend \<lparr>isSSE42 = False, mm_crc32_u64 = \<lambda>_. id\<rparr> 0) reads_succeed kSkipAnyCorruptedRecords [] []
    (Reader_new (logged (Extend \<lparr>isSSE42 = False, mm_crc32_u64 = \<lambda>_. id\<rparr> 0) [[1]] (Writer_new 3 True False)) True True 0 8) = None"
  by (rule old_log_hangs) (simp_all add: cpu_ok_def)

end
