(* ===== verification/Blocks.thy ===== *)
theory Blocks
  imports InternalKey
begin

text \<open>
  The blocks of RocksDB's table files, src/rocksdb-5.8/table/block_builder.cc and block.cc with block.h: sorted entries whose keys
  leave out the prefix they share with the key before, and an array of restart points, entries that share nothing, for
  binary search. Offsets are natural numbers; they stay at or below the offset of the restart array, which is a 32-bit number, so
  the casts to 32 bits in the source do not change them. A slice of the block is its offset and its length; a
  slice beyond the entries counts as an over-read when ParseNextKey makes it. A prefix index is the function GetBlocks. The bitmap
  that counts the bytes read is statistics and is left out.

  The lemmas here are those that the loops need to end; \<open>BlockFormat\<close> and \<open>BlockSeek\<close> hold the others.
\<close>

subsection \<open>Building\<close>

record BlockBuilder =
  block_restart_interval :: int
  use_delta_encoding :: bool
  bb_buffer :: bytes
  bb_restarts :: "u32 list"
  estimate :: nat
  counter :: int
  finished :: bool
  last_key :: bytes

definition BlockBuilder_new :: "int \<Rightarrow> bool \<Rightarrow> BlockBuilder" where
  "BlockBuilder_new interval delta =
     \<lparr>block_restart_interval = interval, use_delta_encoding = delta, bb_buffer = [], bb_restarts = [0], estimate = 4 + 4,
      counter = 0, finished = False, last_key = []\<rparr>"

definition BlockBuilder_Reset :: "BlockBuilder \<Rightarrow> BlockBuilder" where
  "BlockBuilder_Reset b =
     b\<lparr>bb_buffer := [], bb_restarts := [0], estimate := 4 + 4, counter := 0, finished := False, last_key := []\<rparr>"

definition CurrentSizeEstimate :: "BlockBuilder \<Rightarrow> nat" where
  "CurrentSizeEstimate b = estimate b"

definition EstimateSizeAfterKV :: "bytes \<Rightarrow> bytes \<Rightarrow> BlockBuilder \<Rightarrow> nat" where
  "EstimateSizeAfterKV key v b =
     CurrentSizeEstimate b + (length key + length v) +
     (if counter b \<ge> block_restart_interval b then 4 else 0) + 4 +
     VarintLength (of_nat (length key)) + VarintLength (of_nat (length v))"

definition BlockBuilder_empty :: "BlockBuilder \<Rightarrow> bool" where
  "BlockBuilder_empty b \<longleftrightarrow> bb_buffer b = []"

definition BlockBuilder_Finish :: "BlockBuilder \<Rightarrow> bytes \<times> BlockBuilder" where
  "BlockBuilder_Finish b =
     (let buf = foldl PutFixed32 (bb_buffer b) (bb_restarts b);
          buf = PutFixed32 buf (of_nat (length (bb_restarts b)))
      in (buf, b\<lparr>bb_buffer := buf, finished := True\<rparr>))"

definition difference_offset :: "bytes \<Rightarrow> bytes \<Rightarrow> nat" where
  "difference_offset a b = diff_index a b"

definition BlockBuilder_Add :: "bytes \<Rightarrow> bytes \<Rightarrow> BlockBuilder \<Rightarrow> BlockBuilder" where
  "BlockBuilder_Add key v b =
     (let (shared, b) =
            (if counter b \<ge> block_restart_interval b then
               let b = b\<lparr>bb_restarts := bb_restarts b @ [of_nat (length (bb_buffer b))], estimate := estimate b + 4, counter := 0\<rparr>
               in (0, if use_delta_encoding b then b\<lparr>last_key := key\<rparr> else b)
             else if use_delta_encoding b then (difference_offset key (last_key b), b\<lparr>last_key := key\<rparr>)
             else (0, b));
          non_shared = length key - shared;
          curr_size = length (bb_buffer b);
          buf = PutVarint32Varint32Varint32 (bb_buffer b) (of_nat shared) (of_nat non_shared) (of_nat (length v));
          buf = buf @ take non_shared (drop shared key) @ v
      in b\<lparr>bb_buffer := buf, counter := counter b + 1, estimate := estimate b + (length buf - curr_size)\<rparr>)"

subsection \<open>Blocks and iterators\<close>

record Block =
  blk_data :: bytes
  blk_size :: nat
  restart_offset :: nat
  blk_global_seqno :: u64

definition NumRestarts :: "bytes \<Rightarrow> nat \<Rightarrow> u32 res" where
  "NumRestarts d n = DecodeFixed32 (drop (n - 4) d)"

definition Block_new :: "bytes \<Rightarrow> u64 \<Rightarrow> Block res" where
  "Block_new contents seqno =
     (let n = length contents
      in if n < 4 then Inr \<lparr>blk_data = contents, blk_size = 0, restart_offset = 0, blk_global_seqno = seqno\<rparr>
         else rbind (NumRestarts contents n) (\<lambda>num.
           let off = unat (ucast (ucast (of_nat n :: u32) - (ucast (1 + num) :: u64) * 4) :: u32)
           in Inr \<lparr>blk_data = contents, blk_size = (if off > n - 4 then 0 else n), restart_offset = off,
                blk_global_seqno = seqno\<rparr>))"

record CachedPrevEntry =
  cp_offset :: nat
  cp_key_ptr :: "bytes option"
  cp_key_offset :: nat
  cp_key_size :: nat
  cp_value :: "nat \<times> nat"

record BlockIter =
  it_comparator :: "Comparator option"
  it_data :: "bytes option"
  it_restarts :: nat
  num_restarts :: nat
  current :: nat
  restart_index :: nat
  it_key :: IterKey
  it_value :: "(nat \<times> nat) option"
  it_status :: RStatus
  prefix_index :: "(bytes \<Rightarrow> nat list) option"
  key_pinned :: bool
  it_global_seqno :: u64
  prev_entries_keys_buff :: bytes
  prev_entries :: "CachedPrevEntry list"
  prev_entries_idx :: int

definition BlockIter_new :: "(nat \<Rightarrow> byte) \<Rightarrow> BlockIter" where
  "BlockIter_new u =
     \<lparr>it_comparator = None, it_data = None, it_restarts = 0, num_restarts = 0, current = 0, restart_index = 0,
      it_key = IterKey_new u, it_value = None, it_status = SOk, prefix_index = None, key_pinned = False,
      it_global_seqno = kDisableGlobalSequenceNumber, prev_entries_keys_buff = [], prev_entries = [], prev_entries_idx = - 1\<rparr>"

definition BlockIter_Initialize ::
    "Comparator \<Rightarrow> bytes \<Rightarrow> nat \<Rightarrow> nat \<Rightarrow> (bytes \<Rightarrow> nat list) option \<Rightarrow> u64 \<Rightarrow> BlockIter \<Rightarrow> BlockIter" where
  "BlockIter_Initialize C d restarts num prefix seqno it =
     it\<lparr>it_comparator := Some C, it_data := Some d, it_restarts := restarts, num_restarts := num, current := restarts,
        restart_index := num, prefix_index := prefix, it_global_seqno := seqno\<rparr>"

definition NewIterator ::
    "(nat \<Rightarrow> byte) \<Rightarrow> Comparator \<Rightarrow> (bytes \<Rightarrow> nat list) option \<Rightarrow> bool \<Rightarrow> Block \<Rightarrow> BlockIter res" where
  "NewIterator u C prefix total_order_seek B =
     (if blk_size B < 2 * 4 then Inr ((BlockIter_new u)\<lparr>it_status := SCorruption ''bad block contents''\<rparr>)
      else rbind (NumRestarts (blk_data B) (blk_size B)) (\<lambda>num.
        if num = 0 then Inr (BlockIter_new u)
        else Inr (BlockIter_Initialize C (blk_data B) (restart_offset B) (unat num)
               (if total_order_seek then None else prefix) (blk_global_seqno B) (BlockIter_new u))))"

definition Valid :: "BlockIter \<Rightarrow> bool" where
  "Valid it \<longleftrightarrow> current it < it_restarts it"

definition BlockIter_key :: "BlockIter \<Rightarrow> bytes" where
  "BlockIter_key it = IterKey_GetInternalKey (it_key it)"

definition BlockIter_value :: "BlockIter \<Rightarrow> bytes res" where
  "BlockIter_value it =
     rbind (deref (it_data it)) (\<lambda>d. case it_value it of
       None \<Rightarrow> Inr [] | Some (p, n) \<Rightarrow> if p + n > length d then Inl Over_Read else Inr (chunk p n d))"

definition Compare :: "BlockIter \<Rightarrow> bytes \<Rightarrow> bytes \<Rightarrow> int res" where
  "Compare it a b = rbind (deref (it_comparator it)) (\<lambda>C. Inr (cmp_Compare C a b))"

definition NextEntryOffset :: "BlockIter \<Rightarrow> nat res" where
  "NextEntryOffset it = rbind (deref (it_value it)) (\<lambda>(p, n). Inr (p + n))"

definition GetRestartPoint :: "BlockIter \<Rightarrow> nat \<Rightarrow> nat res" where
  "GetRestartPoint it i =
     rbind (deref (it_data it)) (\<lambda>d. rbind (DecodeFixed32 (drop (it_restarts it + i * 4) d)) (\<lambda>r. Inr (unat r)))"

definition SeekToRestartPoint :: "nat \<Rightarrow> BlockIter \<Rightarrow> BlockIter res" where
  "SeekToRestartPoint i it =
     rbind (GetRestartPoint it i) (\<lambda>p.
       Inr (it\<lparr>it_key := IterKey_Clear (it_key it), restart_index := i, it_value := Some (p, 0)\<rparr>))"

definition CorruptionError :: "BlockIter \<Rightarrow> BlockIter" where
  "CorruptionError it =
     it\<lparr>current := it_restarts it, restart_index := num_restarts it, it_status := SCorruption ''bad entry in block'',
        it_key := IterKey_Clear (it_key it), it_value := None\<rparr>"

text \<open>DecodeEntry between the offsets \<open>p\<close> and \<open>limit\<close>: the three lengths and the offset of the key, or None for a null pointer.\<close>

definition decode_lengths :: "bytes \<Rightarrow> (u32 \<times> u32 \<times> u32 \<times> bytes) option" where
  "decode_lengths b =
     (if (ucast (b ! 0) OR ucast (b ! 1) OR ucast (b ! 2) :: u32) < 128 then
        Some (ucast (b ! 0), ucast (b ! 1), ucast (b ! 2), drop 3 b)
      else Option.bind (GetVarint32Ptr b) (\<lambda>(shared, b).
        Option.bind (GetVarint32Ptr b) (\<lambda>(non_shared, b).
        Option.bind (GetVarint32Ptr b) (\<lambda>(value_length, b).
        Some (shared, non_shared, value_length, b)))))"

definition DecodeEntry :: "bytes \<Rightarrow> nat \<Rightarrow> nat \<Rightarrow> (u32 \<times> u32 \<times> u32 \<times> nat) option" where
  "DecodeEntry d p limit =
     (if limit < p + 3 then None
      else Option.bind (decode_lengths (take (limit - p) (drop p d))) (\<lambda>(shared, non_shared, value_length, b).
        if (of_nat (length b) :: u32) < non_shared + value_length then None
        else Some (shared, non_shared, value_length, limit - length b)))"

text \<open>The loop at the end of ParseNextKey that finds the restart block of the current entry.\<close>

function advance_restart :: "BlockIter \<Rightarrow> nat \<Rightarrow> nat res" where
  "advance_restart it i =
     (if i + 1 < num_restarts it then
        rbind (GetRestartPoint it (i + 1)) (\<lambda>r. if r < current it then advance_restart it (i + 1) else Inr i)
      else Inr i)"
  by pat_completeness auto
termination by (relation "measure (\<lambda>(it, i). num_restarts it - i)") auto

declare advance_restart.simps [simp del]

text \<open>The key of an entry, with the sequence number of the file if it has one of its own.\<close>

definition parse_key :: "(nat \<Rightarrow> byte) \<Rightarrow> u64 \<Rightarrow> bytes \<Rightarrow> nat \<Rightarrow> nat \<Rightarrow> nat \<Rightarrow> IterKey \<Rightarrow> (IterKey \<times> bool) res" where
  "parse_key u seqno d p shared non_shared key =
     rbind (if shared = 0
            then rbind (IterKey_SetInternalKey u (chunk p non_shared d) False key) (\<lambda>k. Inr (k, True))
            else rbind (TrimAppend u shared (drop p d) non_shared key) (\<lambda>k. Inr (k, False)))
       (\<lambda>(k, pinned).
          if seqno \<noteq> kDisableGlobalSequenceNumber then
            rbind (ExtractValueType (IterKey_GetInternalKey k)) (\<lambda>t.
            rbind (if pinned then OwnKey u k else Inr k) (\<lambda>k.
            rbind (IterKey_UpdateInternalKey seqno t k) (\<lambda>k.
            Inr (k, False))))
          else Inr (k, pinned))"

text \<open>The test of DecodeEntry adds the two lengths in 32 bits. When the sum wraps, the slices of the key and of the value reach
  outside of the block, which is the fault here.\<close>

definition ParseNextKey :: "(nat \<Rightarrow> byte) \<Rightarrow> BlockIter \<Rightarrow> (bool \<times> BlockIter) res" where
  "ParseNextKey u it =
     rbind (deref (it_data it)) (\<lambda>d.
     rbind (NextEntryOffset it) (\<lambda>cur.
     let it = it\<lparr>current := cur\<rparr>
     in if cur \<ge> it_restarts it then Inr (False, it\<lparr>current := it_restarts it, restart_index := num_restarts it\<rparr>)
        else case DecodeEntry d cur (it_restarts it) of
          None \<Rightarrow> Inr (False, CorruptionError it)
        | Some (shared, non_shared, value_length, p) \<Rightarrow>
            if key_size (it_key it) < unat shared then Inr (False, CorruptionError it)
            else if p + unat non_shared + unat value_length > it_restarts it then Inl Over_Read
            else rbind (parse_key u (it_global_seqno it) d p (unat shared) (unat non_shared) (it_key it)) (\<lambda>(k, pinned).
              let it = it\<lparr>it_key := k, key_pinned := pinned, it_value := Some (p + unat non_shared, unat value_length)\<rparr>
              in rbind (advance_restart it (restart_index it)) (\<lambda>i. Inr (True, it\<lparr>restart_index := i\<rparr>)))))"

lemma rbind_cong [fundef_cong]: "m = m' \<Longrightarrow> (\<And>x. m' = Inr x \<Longrightarrow> f x = g x) \<Longrightarrow> rbind m f = rbind m' g"
  by (cases m') auto

text \<open>How far the end of the current entry is from the end of the entries; it shrinks with every key that is parsed.\<close>

definition entries_left :: "BlockIter \<Rightarrow> nat" where
  "entries_left it = (case it_value it of None \<Rightarrow> 0 | Some (p, n) \<Rightarrow> it_restarts it - (p + n))"

lemma GetVarint32Ptr_shorter: "GetVarint32Ptr p = Some (v, q) \<Longrightarrow> length q < length p"
proof -
  have loop: "varint_loop m s r p = Some (v, q) \<Longrightarrow> length q < length p" for m s r and v :: u32 and p
    by (induction m s r p rule: varint_loop.induct) (auto split: if_splits)
  show "GetVarint32Ptr p = Some (v, q) \<Longrightarrow> length q < length p"
    by (auto simp: GetVarint32Ptr_def GetVarint32PtrFallback_def split: list.splits if_splits dest!: loop)
qed

lemma decode_lengths_shorter:
  assumes "decode_lengths b = Some (s, ns, vl, b')" "3 \<le> n" "length b \<le> n"
  shows "length b' < n"
proof (cases "(ucast (b ! 0) OR ucast (b ! 1) OR ucast (b ! 2) :: u32) < 128")
  case True
  then show ?thesis using assms by (auto simp: decode_lengths_def)
next
  case False
  then obtain b1 b2 where "GetVarint32Ptr b = Some (s, b1)" "GetVarint32Ptr b1 = Some (ns, b2)" "GetVarint32Ptr b2 = Some (vl, b')"
    using assms(1) by (auto simp: decode_lengths_def bind_eq_Some_conv)
  then show ?thesis using assms(3) GetVarint32Ptr_shorter by (meson less_le_trans order.strict_trans)
qed

lemma DecodeEntry_bounds:
  assumes "DecodeEntry d p limit = Some (s, ns, vl, p')"
  shows "p < p' \<and> p' \<le> limit"
proof -
  obtain b where "p + 3 \<le> limit" "decode_lengths (take (limit - p) (drop p d)) = Some (s, ns, vl, b)" "p' = limit - length b"
    using assms by (auto simp: DecodeEntry_def bind_eq_Some_conv split: if_splits)
  then show ?thesis using decode_lengths_shorter [of _ s ns vl b "limit - p"] by fastforce
qed

lemma ParseNextKey_progress:
  assumes "ParseNextKey u it = Inr (True, it')"
  shows "entries_left it' < entries_left it" "it_restarts it' = it_restarts it"
  using assms
  by (auto simp: ParseNextKey_def Let_def rbind_Inr_iff entries_left_def NextEntryOffset_def deref_def
      split: if_splits option.splits prod.splits dest!: DecodeEntry_bounds)

subsection \<open>Moving and seeking\<close>

definition BlockIter_Next :: "(nat \<Rightarrow> byte) \<Rightarrow> BlockIter \<Rightarrow> BlockIter res" where
  "BlockIter_Next u it = rbind (ParseNextKey u it) (\<lambda>(ok, it). Inr it)"

text \<open>The first loop of Prev: the last restart point below an offset, None when there is none.\<close>

primrec scan_back :: "BlockIter \<Rightarrow> nat \<Rightarrow> nat \<Rightarrow> nat option res" where
  "scan_back it original 0 =
     rbind (GetRestartPoint it 0) (\<lambda>r. if r \<ge> original then Inr None else Inr (Some 0))"
| "scan_back it original (Suc i) =
     rbind (GetRestartPoint it (Suc i)) (\<lambda>r. if r \<ge> original then scan_back it original i else Inr (Some (Suc i)))"

text \<open>The second loop of Prev: it parses and caches the entries up to an offset.\<close>

definition cache_entry :: "BlockIter \<Rightarrow> BlockIter res" where
  "cache_entry it =
     rbind (deref (it_value it)) (\<lambda>v.
       let k = BlockIter_key it
       in if IsKeyPinned (it_key it) then
            Inr (it\<lparr>prev_entries := prev_entries it @ [\<lparr>cp_offset = current it, cp_key_ptr = Some k, cp_key_offset = 0,
                 cp_key_size = length k, cp_value = v\<rparr>]\<rparr>)
          else
            Inr (it\<lparr>prev_entries_keys_buff := prev_entries_keys_buff it @ k,
                 prev_entries := prev_entries it @ [\<lparr>cp_offset = current it, cp_key_ptr = None,
                   cp_key_offset = length (prev_entries_keys_buff it), cp_key_size = length k, cp_value = v\<rparr>]\<rparr>))"

lemma cache_entry_left: "cache_entry it = Inr it' \<Longrightarrow> entries_left it' = entries_left it"
  by (cases "it_value it"; cases "IsKeyPinned (it_key it)") (auto simp: cache_entry_def Let_def entries_left_def)

function prev_fill :: "(nat \<Rightarrow> byte) \<Rightarrow> nat \<Rightarrow> BlockIter \<Rightarrow> BlockIter res" where
  "prev_fill u original it =
     rbind (ParseNextKey u it) (\<lambda>(ok, it).
       if \<not> ok then Inr it
       else rbind (cache_entry it) (\<lambda>it.
         rbind (NextEntryOffset it) (\<lambda>n. if n < original then prev_fill u original it else Inr it)))"
  by pat_completeness auto
termination
proof (relation "measure (\<lambda>(u, original, it). entries_left it)", goal_cases)
  case 1
  show ?case by simp
next
  case (2 u original it p ok it1 it2 n)
  then show ?case
    using ParseNextKey_progress [of u it it1] cache_entry_left [of it1 it2] by simp
qed

declare prev_fill.simps [simp del]

definition BlockIter_Prev :: "(nat \<Rightarrow> byte) \<Rightarrow> BlockIter \<Rightarrow> BlockIter res" where
  "BlockIter_Prev u it =
     (let idx = prev_entries_idx it
      in if idx > 0 \<and> nat idx \<ge> length (prev_entries it) then Inl Over_Read
         else if idx > 0 \<and> cp_offset (prev_entries it ! nat idx) = current it then
           let e = prev_entries it ! (nat idx - 1);
               (k, pinned) =
                 (case cp_key_ptr e of
                    Some m \<Rightarrow> (take (cp_key_size e) m, True)
                  | None \<Rightarrow> (chunk (cp_key_offset e) (cp_key_size e) (prev_entries_keys_buff it), False))
           in rbind (IterKey_SetInternalKey u k False (it_key it)) (\<lambda>ik.
                Inr (it\<lparr>prev_entries_idx := idx - 1, key_pinned := pinned, current := cp_offset e, it_key := ik,
                     it_value := Some (cp_value e)\<rparr>))
         else
           let it = it\<lparr>prev_entries_idx := - 1, prev_entries := [], prev_entries_keys_buff := []\<rparr>;
               original = current it
           in rbind (scan_back it original (restart_index it)) (\<lambda>r.
                case r of
                  None \<Rightarrow> Inr (it\<lparr>current := it_restarts it, restart_index := num_restarts it\<rparr>)
                | Some i \<Rightarrow>
                    rbind (SeekToRestartPoint i it) (\<lambda>it.
                    rbind (prev_fill u original it) (\<lambda>it.
                    Inr (it\<lparr>prev_entries_idx := int (length (prev_entries it)) - 1\<rparr>)))))"

function BinarySeek :: "bytes \<Rightarrow> nat \<Rightarrow> nat \<Rightarrow> BlockIter \<Rightarrow> (nat option \<times> BlockIter) res" where
  "BinarySeek target left right it =
     (if left < right then
        let mid = (left + right + 1) div 2
        in rbind (GetRestartPoint it mid) (\<lambda>region_offset.
           rbind (deref (it_data it)) (\<lambda>d.
           case DecodeEntry d region_offset (it_restarts it) of
             None \<Rightarrow> Inr (None, CorruptionError it)
           | Some (shared, non_shared, value_length, p) \<Rightarrow>
               if shared \<noteq> 0 then Inr (None, CorruptionError it)
               else if p + unat non_shared > length d then Inl Over_Read
               else rbind (Compare it (chunk p (unat non_shared) d) target) (\<lambda>cmp.
                 if cmp < 0 then BinarySeek target mid right it
                 else if cmp > 0 then BinarySeek target left (mid - 1) it
                 else BinarySeek target mid mid it)))
      else Inr (Some left, it))"
  by pat_completeness auto
termination by (relation "measure (\<lambda>(target, left, right, it). right - left)") auto

declare BinarySeek.simps [simp del]

definition CompareBlockKey :: "nat \<Rightarrow> bytes \<Rightarrow> BlockIter \<Rightarrow> (int \<times> BlockIter) res" where
  "CompareBlockKey block_index target it =
     rbind (GetRestartPoint it block_index) (\<lambda>region_offset.
     rbind (deref (it_data it)) (\<lambda>d.
     case DecodeEntry d region_offset (it_restarts it) of
       None \<Rightarrow> Inr (1, CorruptionError it)
     | Some (shared, non_shared, value_length, p) \<Rightarrow>
         if shared \<noteq> 0 then Inr (1, CorruptionError it)
         else if p + unat non_shared > length d then Inl Over_Read
         else rbind (Compare it (chunk p (unat non_shared) d) target) (\<lambda>cmp. Inr (cmp, it))))"

text \<open>The loop of BinaryBlockIndexSeek: the final bounds, None when an entry is corrupt.\<close>

function block_index_loop :: "bytes \<Rightarrow> nat list \<Rightarrow> nat \<Rightarrow> nat \<Rightarrow> BlockIter \<Rightarrow> ((nat \<times> nat) option \<times> BlockIter) res" where
  "block_index_loop target block_ids left right it =
     (if left \<le> right then
        let mid = (right + left) div 2
        in if mid \<ge> length block_ids then Inl Over_Read
           else rbind (CompareBlockKey (block_ids ! mid) target it) (\<lambda>(cmp, it).
             if it_status it \<noteq> SOk then Inr (None, it)
             else if cmp < 0 then block_index_loop target block_ids (mid + 1) right it
             else if left = right then Inr (Some (left, right), it)
             else block_index_loop target block_ids left mid it)
      else Inr (Some (left, right), it))"
  by pat_completeness auto
termination
  by (relation "measure (\<lambda>(target, block_ids, left, right, it). right + 1 - left)") auto

declare block_index_loop.simps [simp del]

definition BinaryBlockIndexSeek :: "bytes \<Rightarrow> nat list \<Rightarrow> nat \<Rightarrow> nat \<Rightarrow> BlockIter \<Rightarrow> (nat option \<times> BlockIter) res" where
  "BinaryBlockIndexSeek target block_ids left right it =
     rbind (block_index_loop target block_ids left right it) (\<lambda>(bounds, it).
       case bounds of
         None \<Rightarrow> Inr (None, it)
       | Some (l, r) \<Rightarrow>
           if l = r then
             if block_ids ! l > 0 \<and> (l = left \<or> block_ids ! (l - 1) \<noteq> block_ids ! l - 1) then
               rbind (CompareBlockKey (block_ids ! l - 1) target it) (\<lambda>(cmp, it).
                 if cmp > 0 then Inr (None, it\<lparr>current := it_restarts it\<rparr>) else Inr (Some (block_ids ! l), it))
             else Inr (Some (block_ids ! l), it)
           else Inr (None, it\<lparr>current := it_restarts it\<rparr>))"

definition PrefixSeek :: "(bytes \<Rightarrow> nat list) \<Rightarrow> bytes \<Rightarrow> BlockIter \<Rightarrow> (nat option \<times> BlockIter) res" where
  "PrefixSeek GetBlocks target it =
     (let block_ids = GetBlocks target
      in if length block_ids = 0 then Inr (None, it\<lparr>current := it_restarts it\<rparr>)
         else BinaryBlockIndexSeek target block_ids 0 (length block_ids - 1) it)"

text \<open>The linear searches of Seek and SeekForPrev, and of SeekToLast.\<close>

function seek_loop :: "(nat \<Rightarrow> byte) \<Rightarrow> bytes \<Rightarrow> BlockIter \<Rightarrow> BlockIter res" where
  "seek_loop u target it =
     rbind (ParseNextKey u it) (\<lambda>(ok, it).
       if \<not> ok then Inr it
       else rbind (Compare it (IterKey_GetInternalKey (it_key it)) target) (\<lambda>cmp.
         if cmp \<ge> 0 then Inr it else seek_loop u target it))"
  by pat_completeness auto
termination
proof (relation "measure (\<lambda>(u, target, it). entries_left it)", goal_cases)
  case (2 u target it p ok it1 cmp)
  then show ?case using ParseNextKey_progress [of u it it1] by simp
qed simp

declare seek_loop.simps [simp del]

definition BlockIter_Seek :: "(nat \<Rightarrow> byte) \<Rightarrow> bytes \<Rightarrow> BlockIter \<Rightarrow> BlockIter res" where
  "BlockIter_Seek u target it =
     (if it_data it = None then Inr it
      else rbind (case prefix_index it of
                    Some GetBlocks \<Rightarrow> PrefixSeek GetBlocks target it
                  | None \<Rightarrow> BinarySeek target 0 (num_restarts it - 1) it) (\<lambda>(index, it).
        case index of
          None \<Rightarrow> Inr it
        | Some i \<Rightarrow> rbind (SeekToRestartPoint i it) (seek_loop u target)))"

definition BlockIter_SeekToFirst :: "(nat \<Rightarrow> byte) \<Rightarrow> BlockIter \<Rightarrow> BlockIter res" where
  "BlockIter_SeekToFirst u it =
     (if it_data it = None then Inr it
      else rbind (SeekToRestartPoint 0 it) (\<lambda>it. rbind (ParseNextKey u it) (\<lambda>(ok, it). Inr it)))"

function last_loop :: "(nat \<Rightarrow> byte) \<Rightarrow> BlockIter \<Rightarrow> BlockIter res" where
  "last_loop u it =
     rbind (ParseNextKey u it) (\<lambda>(ok, it).
       if \<not> ok then Inr it
       else rbind (NextEntryOffset it) (\<lambda>n. if n < it_restarts it then last_loop u it else Inr it))"
  by pat_completeness auto
termination
proof (relation "measure (\<lambda>(u, it). entries_left it)", goal_cases)
  case (2 u it p ok it1 n)
  then show ?case using ParseNextKey_progress [of u it it1] by simp
qed simp

declare last_loop.simps [simp del]

definition BlockIter_SeekToLast :: "(nat \<Rightarrow> byte) \<Rightarrow> BlockIter \<Rightarrow> BlockIter res" where
  "BlockIter_SeekToLast u it =
     (if it_data it = None then Inr it else rbind (SeekToRestartPoint (num_restarts it - 1) it) (last_loop u))"

text \<open>The loop of SeekForPrev that moves back. Each call of Prev moves to a smaller offset; the fuel is the current one.\<close>

primrec prev_loop :: "(nat \<Rightarrow> byte) \<Rightarrow> bytes \<Rightarrow> nat \<Rightarrow> BlockIter \<Rightarrow> BlockIter res" where
  "prev_loop u target 0 it = Inl Hang"
| "prev_loop u target (Suc n) it =
     (if Valid it then
        rbind (Compare it (IterKey_GetInternalKey (it_key it)) target) (\<lambda>cmp.
          if cmp > 0 then rbind (BlockIter_Prev u it) (prev_loop u target n) else Inr it)
      else Inr it)"

definition BlockIter_SeekForPrev :: "(nat \<Rightarrow> byte) \<Rightarrow> bytes \<Rightarrow> BlockIter \<Rightarrow> BlockIter res" where
  "BlockIter_SeekForPrev u target it =
     (if it_data it = None then Inr it
      else rbind (BinarySeek target 0 (num_restarts it - 1) it) (\<lambda>(index, it).
        case index of
          None \<Rightarrow> Inr it
        | Some i \<Rightarrow>
            rbind (SeekToRestartPoint i it) (\<lambda>it.
            rbind (seek_loop u target it) (\<lambda>it.
              if \<not> Valid it then BlockIter_SeekToLast u it else prev_loop u target (current it + 2) it))))"

end
