(* ===== verification/BlockFormat.thy ===== *)
theory BlockFormat
  imports Blocks
begin

text \<open>
  The format of the blocks of the theory Blocks: a list of entries, each with the length of the prefix that it shares with the key
  before it, and the list of the entries that are restart points. The lemmas show that the builder produces this format and
  what DecodeEntry and GetRestartPoint read from it.
\<close>

type_synonym entry = "nat \<times> bytes \<times> bytes"

abbreviation ent_shared :: "entry \<Rightarrow> nat" where "ent_shared e \<equiv> fst e"
abbreviation ent_key :: "entry \<Rightarrow> bytes" where "ent_key e \<equiv> fst (snd e)"
abbreviation ent_val :: "entry \<Rightarrow> bytes" where "ent_val e \<equiv> snd (snd e)"

definition entry_header :: "entry \<Rightarrow> bytes" where
  "entry_header e = varint (of_nat (ent_shared e) :: u32) @ varint (of_nat (length (ent_key e) - ent_shared e) :: u32) @
     varint (of_nat (length (ent_val e)) :: u32)"

definition entry_bytes :: "entry \<Rightarrow> bytes" where
  "entry_bytes e = entry_header e @ drop (ent_shared e) (ent_key e) @ ent_val e"

definition area :: "entry list \<Rightarrow> bytes" where
  "area es = concat (map entry_bytes es)"

definition offset :: "entry list \<Rightarrow> nat \<Rightarrow> nat" where
  "offset es i = length (area (take i es))"

text \<open>Every key starts with the prefix that it shares with the one before.\<close>

fun chain :: "bytes \<Rightarrow> entry list \<Rightarrow> bool" where
  "chain prev [] \<longleftrightarrow> True"
| "chain prev ((s, k, v) # es) \<longleftrightarrow> s \<le> length k \<and> s \<le> length prev \<and> take s k = take s prev \<and> chain k es"

definition restart_ok :: "entry list \<Rightarrow> nat list \<Rightarrow> bool" where
  "restart_ok es rs \<longleftrightarrow> rs \<noteq> [] \<and> rs ! 0 = 0 \<and> sorted_wrt (<) rs \<and> (\<forall>r \<in> set rs. r = 0 \<or> r < length es) \<and>
     (\<forall>r \<in> set rs. r < length es \<longrightarrow> ent_shared (es ! r) = 0)"

definition block_bytes :: "entry list \<Rightarrow> nat list \<Rightarrow> bytes" where
  "block_bytes es rs =
     area es @ concat (map (\<lambda>r. to_le 4 (of_nat (offset es r) :: u32)) rs) @ to_le 4 (of_nat (length rs) :: u32)"

definition block_ok :: "entry list \<Rightarrow> nat list \<Rightarrow> bool" where
  "block_ok es rs \<longleftrightarrow> chain [] es \<and> restart_ok es rs \<and> length (block_bytes es rs) < 2 ^ 32"

subsection \<open>Offsets\<close>

lemma entry_header_length: "3 \<le> length (entry_header e)"
proof -
  have "0 < length (varint v)" for v :: u32 by simp
  from this [of "of_nat (ent_shared e)"] this [of "of_nat (length (ent_key e) - ent_shared e)"] this [of "of_nat (length (ent_val e))"]
  show ?thesis unfolding entry_header_def length_append by linarith
qed

lemma area_simps [simp]: "area [] = []" "area (e # es) = entry_bytes e @ area es" "area (es @ fs) = area es @ area fs"
  by (simp_all add: area_def)

lemma offset_simps [simp]: "offset es 0 = 0" "length es \<le> i \<Longrightarrow> offset es i = length (area es)"
  by (simp_all add: offset_def)

lemma offset_Suc: "i < length es \<Longrightarrow> offset es (Suc i) = offset es i + length (entry_bytes (es ! i))"
  by (simp add: offset_def take_Suc_conv_app_nth)

lemma offset_mono: "i \<le> j \<Longrightarrow> offset es i \<le> offset es j"
proof -
  assume "i \<le> j"
  then have "take j es = take i es @ drop i (take j es)" using append_take_drop_id [of i "take j es"] by (simp add: min_def)
  then have "area (take j es) = area (take i es) @ area (drop i (take j es))" by (metis area_simps(3))
  then show ?thesis by (simp add: offset_def)
qed

lemma offset_less: "i < j \<Longrightarrow> i < length es \<Longrightarrow> offset es i < offset es j"
proof -
  assume "i < j" "i < length es"
  then have "offset es i < offset es (Suc i)" using entry_header_length [of "es ! i"] by (auto simp: offset_Suc entry_bytes_def)
  also have "\<dots> \<le> offset es j" using \<open>i < j\<close> by (simp add: offset_mono)
  finally show ?thesis .
qed

lemma offset_less_iff: "i < length es \<Longrightarrow> j < length es \<Longrightarrow> offset es i < offset es j \<longleftrightarrow> i < j"
  by (metis linorder_not_less offset_less offset_mono)

lemma offset_le: "offset es i \<le> length (area es)"
  by (cases "i \<le> length es") (metis offset_mono offset_simps(2) order_refl, simp)

lemma area_split: "i < length es \<Longrightarrow> area es = area (take i es) @ entry_bytes (es ! i) @ area (drop (Suc i) es)"
  by (metis area_simps(2,3) id_take_nth_drop)

lemma drop_area: "i < length es \<Longrightarrow> drop (offset es i) (area es) = entry_bytes (es ! i) @ area (drop (Suc i) es)"
  using area_split [of i es] by (simp add: offset_def)

subsection \<open>Reading\<close>

lemma less_128: "x < 128 \<longleftrightarrow> (\<forall>i\<ge>7. \<not> bit x i)" for x :: u32
proof -
  have "x < 128 \<longleftrightarrow> take_bit 7 x = x"
    by (simp add: take_bit_eq_mod word_less_nat_alt word_unat_eq_iff unat_mod)
      (metis mod_less mod_less_divisor zero_less_numeral)
  also have "\<dots> \<longleftrightarrow> (\<forall>i\<ge>7. \<not> bit x i)"
  proof
    assume "take_bit 7 x = x"
    then show "\<forall>i\<ge>7. \<not> bit x i" by (metis bit_take_bit_iff not_le)
  next
    assume "\<forall>i\<ge>7. \<not> bit x i"
    then show "take_bit 7 x = x" by (intro bit_word_eqI) (auto simp: bit_simps not_le)
  qed
  finally show ?thesis .
qed

lemma low_bits: "(a OR b OR c :: u32) < 128 \<longleftrightarrow> a < 128 \<and> b < 128 \<and> c < 128"
  by (auto simp: less_128 bit_simps)

lemma varint_high: "\<not> w < 128 \<Longrightarrow> \<exists>b bs. varint w = b # bs \<and> \<not> (ucast b :: u32) < 128" for w :: u32
proof -
  assume w: "\<not> w < 128"
  have "bit (ucast (ucast (w AND 127 OR 128) :: byte) :: u32) 7" by (simp add: bit_simps bit_7_ints)
  then have "\<not> (ucast (ucast (w AND 127 OR 128) :: byte) :: u32) < 128" by (auto simp: less_128)
  then show ?thesis using w by (subst varint.simps) simp
qed

lemma GetVarint32Ptr_varint [simp]: "GetVarint32Ptr (varint w @ rest) = Some (w, rest)"
  using GetVarint32_varint [of w rest] by (simp add: GetVarint32_def)

lemma decode_lengths_varint:
  "decode_lengths (varint a @ varint b @ varint c @ rest) = Some (a, b, c, rest)" for a b c :: u32
proof (cases "a < 128 \<and> b < 128 \<and> c < 128")
  case True
  then show ?thesis
    using varint_byte(3) [of a] varint_byte(3) [of b] varint_byte(3) [of c]
    by (simp add: decode_lengths_def varint_last low_bits)
next
  case False
  let ?L = "varint a @ varint b @ varint c @ rest"
  have "\<not> (ucast (?L ! 0) :: u32) < 128 \<or> \<not> (ucast (?L ! 1) :: u32) < 128 \<or> \<not> (ucast (?L ! 2) :: u32) < 128"
    using False varint_high [of a] varint_high [of b] varint_high [of c]
    by (cases "a < 128"; cases "b < 128") (auto simp: varint_last)
  then show ?thesis by (auto simp: decode_lengths_def low_bits)
qed

text \<open>What DecodeEntry finds at the offset of an entry, and the bytes there.\<close>

lemma area_prefix: "length (area es) \<le> length (block_bytes es rs)" "take (length (area es)) (block_bytes es rs) = area es"
  by (simp_all add: block_bytes_def)

lemma drop_block: "i < length es \<Longrightarrow> take (length (area es) - offset es i) (drop (offset es i) (block_bytes es rs)) =
    entry_bytes (es ! i) @ area (drop (Suc i) es)"
  using drop_area [of i es] by (simp only: drop_take [symmetric] area_prefix(2))

lemma DecodeEntry_block:
  assumes "block_ok es rs" "i < length es" "es ! i = (s, k, v)"
  shows "DecodeEntry (block_bytes es rs) (offset es i) (length (area es)) =
      Some (of_nat s, of_nat (length k - s), of_nat (length v), offset es i + length (entry_header (s, k, v)))"
    "chunk (offset es i + length (entry_header (s, k, v))) (length k - s) (block_bytes es rs) = drop s k"
    "offset es i + length (entry_header (s, k, v)) + (length k - s) + length v = offset es (Suc i)"
    "chunk (offset es i + length (entry_header (s, k, v)) + (length k - s)) (length v) (block_bytes es rs) = v"
proof -
  let ?h = "entry_header (s, k, v)" and ?d = "block_bytes es rs"
  have nx: "offset es (Suc i) = offset es i + length ?h + (length k - s) + length v"
    using assms by (simp add: offset_Suc entry_bytes_def)
  have le: "offset es (Suc i) \<le> length (area es)" by (rule offset_le)
  show "offset es i + length ?h + (length k - s) + length v = offset es (Suc i)" using nx by simp
  have d: "drop (offset es i) ?d = ?h @ drop s k @ v @ area (drop (Suc i) es) @ drop (length (area es)) ?d"
    using drop_block [OF assms(2), of rs] append_take_drop_id [of "length (area es) - offset es i" "drop (offset es i) ?d"]
      offset_le [of es i] assms(3) by (simp add: entry_bytes_def)
  have "drop (offset es i + length ?h) ?d = drop s k @ v @ area (drop (Suc i) es) @ drop (length (area es)) ?d"
    using arg_cong [OF d, of "drop (length ?h)"] by (simp add: add.commute)
  then show "chunk (offset es i + length ?h) (length k - s) ?d = drop s k" by (simp add: chunk_def)
  have "drop (offset es i + length ?h + (length k - s)) ?d = v @ area (drop (Suc i) es) @ drop (length (area es)) ?d"
    using arg_cong [OF d, of "drop (length ?h + (length k - s))"] by (simp add: add.commute add.left_commute)
  then show "chunk (offset es i + length ?h + (length k - s)) (length v) ?d = v" by (simp add: chunk_def)
  let ?rest = "drop s k @ v @ area (drop (Suc i) es)"
  have lengths: "decode_lengths (take (length (area es) - offset es i) (drop (offset es i) ?d)) =
      Some (of_nat s, of_nat (length k - s), of_nat (length v), ?rest)"
    using decode_lengths_varint [of "of_nat s" "of_nat (length k - s)" "of_nat (length v)" ?rest]
    by (simp add: drop_block [OF assms(2)] assms(3) entry_bytes_def entry_header_def)
  have area: "length (area es) = offset es i + length ?h + length ?rest"
    using arg_cong [OF area_split [OF assms(2)], of length] by (simp add: offset_def assms(3) entry_bytes_def)
  have small: "length (area es) < 2 ^ 32"
    using assms(1) area_prefix(1) [of es rs] by (simp add: block_ok_def)
  have "\<not> (of_nat (length ?rest) :: u32) < of_nat (length k - s) + of_nat (length v)"
    using small area by (simp add: word_less_nat_alt unat_of_nat_small flip: of_nat_add)
  then show "DecodeEntry ?d (offset es i) (length (area es)) = Some (of_nat s, of_nat (length k - s), of_nat (length v), offset es i + length ?h)"
    using lengths area entry_header_length [of "(s, k, v)"] by (simp add: DecodeEntry_def)
qed

lemma drop_words: "drop (i * 4) (concat (map (\<lambda>r. to_le 4 (f r :: u32)) rs)) = concat (map (\<lambda>r. to_le 4 (f r)) (drop i rs))"
proof (induction i arbitrary: rs)
  case (Suc i)
  then show ?case by (cases rs) simp_all
qed simp

lemma length_words [simp]: "length (concat (map (\<lambda>r. to_le 4 (f r :: u32)) rs)) = 4 * length rs"
  by (induction rs) simp_all

lemma length_block: "length (block_bytes es rs) = length (area es) + 4 * length rs + 4"
  by (simp add: block_bytes_def)

lemma offset_small: "block_ok es rs \<Longrightarrow> offset es i < 2 ^ 32"
  using offset_le [of es i] area_prefix(1) [of es rs] by (simp add: block_ok_def)

lemma ucast_of_nat_small: "n < 2 ^ 32 \<Longrightarrow> (ucast (of_nat n :: u32) :: u64) = of_nat n"
  by (simp add: unsigned_of_nat take_bit_nat_eq_self)

definition reads_block :: "entry list \<Rightarrow> nat list \<Rightarrow> BlockIter \<Rightarrow> bool" where
  "reads_block es rs it \<longleftrightarrow> it_data it = Some (block_bytes es rs) \<and> it_restarts it = length (area es) \<and>
     num_restarts it = length rs"

lemma GetRestartPoint_block:
  assumes "block_ok es rs" "reads_block es rs it" "i < length rs"
  shows "GetRestartPoint it i = Inr (offset es (rs ! i))"
proof -
  have "drop (it_restarts it + i * 4) (block_bytes es rs) =
      to_le 4 (of_nat (offset es (rs ! i)) :: u32) @
      concat (map (\<lambda>r. to_le 4 (of_nat (offset es r) :: u32)) (drop (Suc i) rs)) @ to_le 4 (of_nat (length rs) :: u32)"
    using assms(2,3) drop_words [of i "\<lambda>r. of_nat (offset es r)" rs]
    by (simp add: reads_block_def block_bytes_def flip: Cons_nth_drop_Suc)
  then show ?thesis
    using assms offset_small [OF assms(1), of "rs ! i"] by (simp add: GetRestartPoint_def reads_block_def unat_of_nat_small)
qed

lemma NewIterator_block:
  assumes "block_ok es rs"
  obtains B it where "Block_new (block_bytes es rs) n = Inr B" "NewIterator u C prefix True B = Inr it" "reads_block es rs it"
    "it_comparator it = Some C" "prefix_index it = None" "it_global_seqno it = n" "it_status it = SOk" "\<not> Valid it"
    "iterkey_ok (it_key it)" "prev_entries it = []" "prev_entries_idx it = - 1"
proof -
  let ?d = "block_bytes es rs" and ?n = "length (area es) + 4 * length rs + 4"
  have l: "length ?d = ?n" by (rule length_block)
  have small: "?n < 2 ^ 32" using assms l by (simp add: block_ok_def)
  have rs: "0 < length rs" using assms by (simp add: block_ok_def restart_ok_def)
  have num: "NumRestarts ?d ?n = Inr (of_nat (length rs))"
    by (simp add: NumRestarts_def block_bytes_def DecodeFixed32_def kLittleEndian_def)
  have "unat (ucast (ucast (of_nat ?n :: u32) - (ucast (1 + of_nat (length rs) :: u32) :: u64) * 4) :: u32) = length (area es)"
  proof -
    have "(ucast (of_nat ?n :: u32) :: u64) = of_nat ?n" "(ucast (1 + of_nat (length rs) :: u32) :: u64) = of_nat (1 + length rs)"
      using ucast_of_nat_small [of ?n] ucast_of_nat_small [of "1 + length rs"] small by (simp_all del: of_nat_add flip: of_nat_Suc)
    then have "ucast (of_nat ?n :: u32) - (ucast (1 + of_nat (length rs) :: u32) :: u64) * 4 = of_nat (length (area es))"
      by simp
    then show ?thesis using small by (simp add: unsigned_of_nat take_bit_nat_eq_self)
  qed
  then have B: "Block_new ?d n = Inr \<lparr>blk_data = ?d, blk_size = ?n, restart_offset = length (area es), blk_global_seqno = n\<rparr>"
    using num l by (simp add: Block_new_def Let_def)
  have "of_nat (length rs) \<noteq> (0 :: u32)" "unat (of_nat (length rs) :: u32) = length rs"
    using rs small by (simp_all add: word_unat_eq_iff unat_of_nat_small)
  then show thesis
    using that [OF B] num rs
    by (simp add: NewIterator_def BlockIter_Initialize_def BlockIter_new_def reads_block_def Valid_def)
qed

subsection \<open>Building\<close>

abbreviation last_of :: "entry list \<Rightarrow> bytes" where
  "last_of es \<equiv> (if es = [] then [] else ent_key (last es))"

definition building :: "entry list \<Rightarrow> nat list \<Rightarrow> BlockBuilder \<Rightarrow> bool" where
  "building es rs b \<longleftrightarrow> chain [] es \<and> restart_ok es rs \<and> bb_buffer b = area es \<and>
     bb_restarts b = map (\<lambda>r. of_nat (offset es r)) rs \<and> (use_delta_encoding b \<longrightarrow> last_key b = last_of es) \<and>
     counter b = int (length es) - int (last rs) \<and> estimate b = length (area es) + 4 * length rs + 4 \<and>
     1 \<le> block_restart_interval b"

lemma chain_snoc: "chain prev (es @ [(s, k, v)]) \<longleftrightarrow> chain prev es \<and> s \<le> length k \<and>
    s \<le> length (if es = [] then prev else ent_key (last es)) \<and> take s k = take s (if es = [] then prev else ent_key (last es))"
  by (induction prev es rule: chain.induct) auto

lemma offset_snoc: "r \<le> length es \<Longrightarrow> offset (es @ [e]) r = offset es r"
  by (simp add: offset_def)

lemma building_new: "1 \<le> interval \<Longrightarrow> building [] [0] (BlockBuilder_new interval delta)"
  by (simp add: building_def BlockBuilder_new_def restart_ok_def)

lemma building_reset: "1 \<le> block_restart_interval b \<Longrightarrow> building [] [0] (BlockBuilder_Reset b)"
  by (simp add: building_def BlockBuilder_Reset_def restart_ok_def)

lemma last_less: "restart_ok es rs \<Longrightarrow> last rs = 0 \<or> last rs < length es"
  by (simp add: restart_ok_def)

lemma offsets_snoc: "restart_ok es rs \<Longrightarrow> map (\<lambda>r. f (offset (es @ [e]) r)) rs = map (\<lambda>r. f (offset es r)) rs"
  by (auto simp: restart_ok_def offset_snoc)

lemma restart_ok_snoc:
  assumes "restart_ok es rs" "es = [] \<Longrightarrow> s = 0"
  shows "restart_ok (es @ [(s, k, v)]) rs"
  using assms by (auto simp: restart_ok_def nth_append)

lemma restart_ok_restart:
  assumes "restart_ok es rs" "last rs < length es"
  shows "restart_ok (es @ [(0, k, v)]) (rs @ [length es])"
proof -
  have "x < length es" if "x \<in> set rs" for x
    using assms that by (auto simp: restart_ok_def)
  then show ?thesis using assms by (auto simp: restart_ok_def nth_append sorted_wrt_append less_Suc_eq)
qed

lemma building_Add:
  assumes "building es rs b"
  shows "\<exists>s rs'. building (es @ [(s, key, v)]) rs' (BlockBuilder_Add key v b)"
proof (cases "counter b \<ge> block_restart_interval b")
  case True
  have "last rs < length es" using assms True by (simp add: building_def)
  then have "building (es @ [(0, key, v)]) (rs @ [length es]) (BlockBuilder_Add key v b)"
    using assms True restart_ok_restart [of es rs key v]
    by (auto simp: building_def BlockBuilder_Add_def Let_def chain_snoc offset_snoc offsets_snoc entry_bytes_def entry_header_def)
  then show ?thesis by blast
next
  case False
  define s where "s = (if use_delta_encoding b then difference_offset key (last_key b) else 0)"
  have s: "s \<le> length key" "s \<le> length (last_of es)" "take s key = take s (last_of es)" "es = [] \<Longrightarrow> s = 0"
    using assms diff_index_prefix [of key "last_of es"] by (auto simp: s_def difference_offset_def building_def)
  have "BlockBuilder_Add key v b =
      b\<lparr>last_key := (if use_delta_encoding b then key else last_key b), bb_buffer := bb_buffer b @ entry_bytes (s, key, v),
        counter := counter b + 1, estimate := estimate b + length (entry_bytes (s, key, v))\<rparr>"
    using False by (intro BlockBuilder.equality) (simp_all add: BlockBuilder_Add_def Let_def s_def entry_bytes_def entry_header_def)
  then have "building (es @ [(s, key, v)]) rs (BlockBuilder_Add key v b)"
    using assms s restart_ok_snoc [of es rs s key v] by (auto simp: building_def chain_snoc offsets_snoc)
  then show ?thesis by blast
qed

definition BlockBuilder_AddAll :: "(bytes \<times> bytes) list \<Rightarrow> BlockBuilder \<Rightarrow> BlockBuilder" where
  "BlockBuilder_AddAll kvs b = foldl (\<lambda>b (k, v). BlockBuilder_Add k v b) b kvs"

lemma building_AddAll:
  assumes "building es rs b"
  shows "\<exists>es' rs'. building (es @ es') rs' (BlockBuilder_AddAll kvs b) \<and> map snd es' = kvs"
  using assms
proof (induction kvs arbitrary: es rs b)
  case Nil
  then show ?case by (auto simp: BlockBuilder_AddAll_def)
next
  case (Cons kv kvs)
  obtain k v where kv: "kv = (k, v)" by fastforce
  obtain s rs1 where "building (es @ [(s, k, v)]) rs1 (BlockBuilder_Add k v b)" using building_Add [OF Cons.prems] by blast
  from Cons.IH [OF this] obtain es' rs' where
    "building (es @ ((s, k, v) # es')) rs' (BlockBuilder_AddAll kvs (BlockBuilder_Add k v b))" "map snd es' = kvs" by auto
  then show ?case using kv by (intro exI [of _ "(s, k, v) # es'"] exI [of _ rs']) (simp add: BlockBuilder_AddAll_def)
qed

lemma foldl_PutFixed32: "foldl PutFixed32 buf rs = buf @ concat (map (to_le 4) rs)"
  by (induction rs arbitrary: buf) simp_all

lemma Finish_block:
  assumes "building es rs b"
  shows "fst (BlockBuilder_Finish b) = block_bytes es rs" "length (block_bytes es rs) = CurrentSizeEstimate b"
  using assms by (simp_all add: BlockBuilder_Finish_def building_def block_bytes_def foldl_PutFixed32 CurrentSizeEstimate_def o_def Let_def)

text \<open>The block that a builder makes of a list of keys and values.\<close>

definition build :: "int \<Rightarrow> bool \<Rightarrow> (bytes \<times> bytes) list \<Rightarrow> bytes" where
  "build interval delta kvs = fst (BlockBuilder_Finish (BlockBuilder_AddAll kvs (BlockBuilder_new interval delta)))"

lemma build_block:
  assumes "1 \<le> interval" "length (build interval delta kvs) < 2 ^ 32"
  obtains es rs where "build interval delta kvs = block_bytes es rs" "block_ok es rs" "map snd es = kvs"
proof -
  obtain es rs where b: "building es rs (BlockBuilder_AddAll kvs (BlockBuilder_new interval delta))" "map snd es = kvs"
    using building_AddAll [OF building_new [OF assms(1), of delta], of kvs] by auto
  then have "build interval delta kvs = block_bytes es rs" using Finish_block by (simp add: build_def)
  then show thesis using that b assms(2) by (auto simp: block_ok_def building_def)
qed

end
