(* ===== verification/BlockSeek.thy ===== *)
theory BlockSeek
  imports BlockFormat
begin

text \<open>
  Iterators on well-formed blocks: an iterator of the theory Blocks is positioned at an entry of the block, or ready to parse one,
  and every operation moves it as the list of entries says.
\<close>

definition base :: "entry list \<Rightarrow> nat list \<Rightarrow> Comparator \<Rightarrow> BlockIter \<Rightarrow> bool" where
  "base es rs C it \<longleftrightarrow> block_ok es rs \<and> reads_block es rs it \<and> it_comparator it = Some C \<and> prefix_index it = None \<and>
     it_global_seqno it = kDisableGlobalSequenceNumber \<and> it_status it = SOk \<and> iterkey_ok (it_key it)"

definition ready :: "entry list \<Rightarrow> nat list \<Rightarrow> Comparator \<Rightarrow> nat \<Rightarrow> BlockIter \<Rightarrow> bool" where
  "ready es rs C i it \<longleftrightarrow> base es rs C it \<and> i \<le> length es \<and> (\<exists>p n. it_value it = Some (p, n) \<and> p + n = offset es i) \<and>
     (i < length es \<longrightarrow> ent_shared (es ! i) \<le> length (BlockIter_key it) \<and>
        take (ent_shared (es ! i)) (BlockIter_key it) = take (ent_shared (es ! i)) (ent_key (es ! i))) \<and>
     restart_index it < length rs"

definition positioned :: "entry list \<Rightarrow> nat list \<Rightarrow> Comparator \<Rightarrow> nat \<Rightarrow> BlockIter \<Rightarrow> bool" where
  "positioned es rs C i it \<longleftrightarrow> base es rs C it \<and> i < length es \<and> current it = offset es i \<and>
     BlockIter_key it = ent_key (es ! i) \<and>
     (\<exists>p. it_value it = Some (p, length (ent_val (es ! i))) \<and> p + length (ent_val (es ! i)) = offset es (Suc i)) \<and>
     restart_index it < length rs \<and> (restart_index it + 1 < length rs \<longrightarrow> i \<le> rs ! (restart_index it + 1))"

text \<open>The fields that hold the entries cached by Prev.\<close>

definition cache_fields :: "BlockIter \<Rightarrow> bytes \<times> CachedPrevEntry list \<times> int" where
  "cache_fields it = (prev_entries_keys_buff it, prev_entries it, prev_entries_idx it)"

lemma key_size_key: "iterkey_ok (it_key it) \<Longrightarrow> key_size (it_key it) = length (BlockIter_key it)"
  by (simp add: iterkey_ok_def BlockIter_key_def IterKey_GetInternalKey_def)

lemma chain_nth:
  assumes "chain prev es" "i < length es" "pk = (if i = 0 then prev else ent_key (es ! (i - 1)))"
  shows "ent_shared (es ! i) \<le> length (ent_key (es ! i)) \<and> ent_shared (es ! i) \<le> length pk \<and>
    take (ent_shared (es ! i)) (ent_key (es ! i)) = take (ent_shared (es ! i)) pk"
  using assms
proof (induction prev es arbitrary: i pk rule: chain.induct)
  case (2 prev s k v es)
  show ?case
  proof (cases i)
    case (Suc j)
    then show ?thesis using "2.prems" "2.IH" [of j pk] by (cases j) auto
  qed (use 2 in simp)
qed simp

lemma restart_less:
  assumes "block_ok es rs" "r < length rs" "es \<noteq> []"
  shows "rs ! r < length es" "ent_shared (es ! (rs ! r)) = 0"
proof -
  have "rs ! r \<in> set rs" using assms(2) by simp
  moreover have "0 < length es" using assms(3) by simp
  ultimately show "rs ! r < length es" "ent_shared (es ! (rs ! r)) = 0"
    using assms(1) unfolding block_ok_def restart_ok_def by metis+
qed

lemma advance_restart_ok:
  assumes "base es rs C it" "i < length es" "current it = offset es i" "r < length rs"
  shows "\<exists>r'. advance_restart it r = Inr r' \<and> r' < length rs \<and> (r' + 1 < length rs \<longrightarrow> i \<le> rs ! (r' + 1))"
  using assms(4)
proof (induction "length rs - r" arbitrary: r)
  case (Suc n)
  have b: "block_ok es rs" "reads_block es rs it" using assms(1) by (simp_all add: base_def)
  show ?case
  proof (cases "r + 1 < length rs")
    case True
    have "offset es (rs ! (r + 1)) < current it \<longleftrightarrow> rs ! (r + 1) < i"
      using assms(2) restart_less(1) [OF b(1) True] by (subst assms(3), intro offset_less_iff) fastforce+
    then show ?thesis
      using Suc True b GetRestartPoint_block [OF b True] by (subst advance_restart.simps) (auto simp: reads_block_def not_less)
  next
    case False
    then show ?thesis using Suc b by (subst advance_restart.simps) (auto simp: reads_block_def)
  qed
qed simp

text \<open>Parsing at the offset of an entry, and at the end of the entries.\<close>

lemma parse_key_entry:
  assumes "ready es rs C i it" "i < length es" "es ! i = (s, k, v)"
  obtains ik pinned where
    "parse_key u (it_global_seqno it) (block_bytes es rs) (offset es i + length (entry_header (s, k, v))) s (length k - s) (it_key it) =
      Inr (ik, pinned)"
    "iterkey_ok ik" "IterKey_GetInternalKey ik = k"
proof -
  let ?d = "block_bytes es rs" and ?p = "offset es i + length (entry_header (s, k, v))"
  have b: "block_ok es rs" "it_global_seqno it = kDisableGlobalSequenceNumber" "iterkey_ok (it_key it)"
    and sh: "s \<le> length (BlockIter_key it)" "take s (BlockIter_key it) = take s k"
    using assms by (auto simp: ready_def base_def)
  note dec = DecodeEntry_block [OF b(1) assms(2,3)]
  have d: "take (length k - s) (drop ?p ?d) = drop s k" using dec(2) by (simp add: chunk_def)
  show thesis
  proof (cases "s = 0")
    case True
    obtain ik where "SetKeyImpl u (chunk ?p (length k - s) ?d) False ((it_key it)\<lparr>is_user_key := False\<rparr>) = Inr ik" "iterkey_ok ik"
        "IterKey_GetInternalKey ik = chunk ?p (length k - s) ?d"
      by (rule SetKeyImpl_ok [of u "chunk ?p (length k - s) ?d" False "(it_key it)\<lparr>is_user_key := False\<rparr>"])
    then show thesis using that True b dec(2) by (simp add: parse_key_def IterKey_SetInternalKey_def)
  next
    case False
    have "length k - s \<le> length (drop ?p ?d)" using arg_cong [OF d, of length] by simp
    then obtain ik where "TrimAppend u s (drop ?p ?d) (length k - s) (it_key it) = Inr ik" "iterkey_ok ik"
        "IterKey_GetInternalKey ik = take s (IterKey_GetInternalKey (it_key it)) @ take (length k - s) (drop ?p ?d)"
      using TrimAppend_ok [OF b(3), of s "length k - s" "drop ?p ?d" u] sh(1) key_size_key [OF b(3)] by metis
    then show thesis using that [of ik False] False b d sh(2) by (simp add: parse_key_def BlockIter_key_def)
  qed
qed

lemma key_le_offset: "chain [] es \<Longrightarrow> i < length es \<Longrightarrow> length (ent_key (es ! i)) \<le> offset es (Suc i)"
proof (induction i)
  case 0
  then show ?case using chain_nth [OF 0 refl] by (simp add: offset_Suc entry_bytes_def)
next
  case (Suc i)
  have "ent_shared (es ! Suc i) \<le> offset es (Suc i)" using Suc chain_nth [OF Suc.prems refl] by simp
  then show ?case using Suc.prems(2) by (simp add: offset_Suc [of "Suc i"] entry_bytes_def)
qed

lemma entry_small:
  assumes "block_ok es rs" "i < length es" "es ! i = (s, k, v)"
  shows "s < 2 ^ 32" "length k - s < 2 ^ 32" "length v < 2 ^ 32"
proof -
  have "offset es (Suc i) < 2 ^ 32" by (rule offset_small [OF assms(1)])
  then show "length k - s < 2 ^ 32" "length v < 2 ^ 32" using DecodeEntry_block(3) [OF assms] by linarith+
  have "length k < 2 ^ 32" using key_le_offset [of es i] assms offset_small [OF assms(1), of "Suc i"] by (simp add: block_ok_def)
  moreover have "s \<le> length k" using chain_nth [OF _ assms(2) refl, of "[]"] assms by (simp add: block_ok_def)
  ultimately show "s < 2 ^ 32" by simp
qed

lemma ParseNextKey_entry:
  assumes "ready es rs C i it" "i < length es"
  obtains it' where "ParseNextKey u it = Inr (True, it')" "positioned es rs C i it'" "cache_fields it' = cache_fields it"
proof -
  obtain s k v where e: "es ! i = (s, k, v)" by (metis prod_cases3)
  let ?d = "block_bytes es rs" and ?p = "offset es i + length (entry_header (s, k, v))"
  have b: "base es rs C it" "block_ok es rs" "reads_block es rs it" using assms by (simp_all add: ready_def base_def)
  note dec = DecodeEntry_block [OF b(2) assms(2) e]
  have next_off: "NextEntryOffset it = Inr (offset es i)" using assms(1) by (auto simp: ready_def NextEntryOffset_def)
  note small = entry_small [OF b(2) assms(2) e]
  have off: "offset es i < it_restarts it" "offset es (Suc i) \<le> it_restarts it"
    using offset_less [of i "length es" es] assms(2) offset_le [of es "Suc i"] b(3) by (simp_all add: reads_block_def)
  obtain ik pinned where ik: "parse_key u (it_global_seqno it) ?d ?p s (length k - s) (it_key it) = Inr (ik, pinned)" "iterkey_ok ik"
      "IterKey_GetInternalKey ik = k"
    by (rule parse_key_entry [OF assms e, of u])
  let ?it = "it\<lparr>current := offset es i, it_key := ik, key_pinned := pinned, it_value := Some (?p + (length k - s), length v)\<rparr>"
  have "base es rs C ?it" using b(1) ik(2) by (simp add: base_def reads_block_def)
  then obtain r where r: "advance_restart ?it (restart_index it) = Inr r" "r < length rs" "r + 1 < length rs \<longrightarrow> i \<le> rs ! (r + 1)"
    using advance_restart_ok [of es rs C ?it i "restart_index it"] assms by (auto simp: ready_def)
  have "s \<le> key_size (it_key it)" using assms(1) e key_size_key [of it] assms(2) by (auto simp: ready_def base_def)
  then have "ParseNextKey u it = Inr (True, ?it\<lparr>restart_index := r\<rparr>)"
    using next_off off dec ik(1) r(1) b(3) small
    by (simp add: ParseNextKey_def reads_block_def unat_of_nat_small Let_def)
  moreover have "positioned es rs C i (?it\<lparr>restart_index := r\<rparr>)"
    using b(1) ik(2,3) r(2,3) assms(2) e dec(3) by (simp add: positioned_def base_def reads_block_def BlockIter_key_def)
  ultimately show thesis using that by (simp add: cache_fields_def)
qed

lemma ParseNextKey_end:
  assumes "ready es rs C (length es) it"
  obtains it' where "ParseNextKey u it = Inr (False, it')" "base es rs C it'" "\<not> Valid it'" "cache_fields it' = cache_fields it"
  using assms that [of "it\<lparr>current := it_restarts it, restart_index := num_restarts it\<rparr>"]
  by (auto simp: ready_def base_def reads_block_def ParseNextKey_def NextEntryOffset_def Valid_def cache_fields_def Let_def)

lemma positioned_ready: "positioned es rs C i it \<Longrightarrow> ready es rs C (Suc i) it"
  using chain_nth [of "[]" es "Suc i", OF _ _ refl]
  by (auto simp: positioned_def ready_def base_def block_ok_def)

lemma positioned_Valid: "positioned es rs C i it \<Longrightarrow> Valid it"
  using offset_less [of i "length es" es] by (auto simp: positioned_def Valid_def base_def reads_block_def)

lemma positioned_value:
  assumes "positioned es rs C i it"
  shows "BlockIter_value it = Inr (ent_val (es ! i))"
proof -
  obtain s k v where e: "es ! i = (s, k, v)" by (metis prod_cases3)
  have i: "i < length es" and b: "block_ok es rs" and d: "it_data it = Some (block_bytes es rs)"
    using assms by (auto simp: positioned_def base_def reads_block_def)
  obtain p where p: "it_value it = Some (p, length v)" "p + length v = offset es (Suc i)"
    using assms e by (auto simp: positioned_def)
  have "p = offset es i + length (entry_header (s, k, v)) + (length k - s)"
    using DecodeEntry_block(3) [OF b i e] p(2) by linarith
  moreover have "p + length v \<le> length (block_bytes es rs)"
    using p(2) offset_le [of es "Suc i"] length_block [of es rs] by linarith
  ultimately show ?thesis using DecodeEntry_block(4) [OF b i e] p(1) d e by (simp add: BlockIter_value_def)
qed

lemma SeekToRestartPoint_ok:
  assumes "base es rs C it" "r < length rs"
  obtains it' where "SeekToRestartPoint r it = Inr it'" "ready es rs C (rs ! r) it'" "cache_fields it' = cache_fields it"
    "restart_index it' = r"
proof -
  have b: "block_ok es rs" "reads_block es rs it" using assms(1) by (simp_all add: base_def)
  let ?it = "it\<lparr>it_key := IterKey_Clear (it_key it), restart_index := r, it_value := Some (offset es (rs ! r), 0)\<rparr>"
  have "SeekToRestartPoint r it = Inr ?it"
    using GetRestartPoint_block [OF b assms(2)] by (simp add: SeekToRestartPoint_def)
  moreover have "rs ! r \<le> length es"
    using nth_mem [OF assms(2)] b(1) by (auto simp: block_ok_def restart_ok_def)
  moreover have "rs ! r < length es \<longrightarrow> ent_shared (es ! (rs ! r)) = 0"
    using restart_less(2) [OF b(1) assms(2)] by (cases es) auto
  moreover have "ready es rs C (rs ! r) ?it"
    using assms calculation(2,3)
    by (auto simp: ready_def base_def reads_block_def iterkey_ok_def IterKey_Clear_def key_mem_def)
  ultimately show thesis using that by (simp add: cache_fields_def)
qed

text \<open>The entries that Prev has cached are consecutive entries of the block.\<close>

definition cached_key :: "bytes \<Rightarrow> CachedPrevEntry \<Rightarrow> bytes" where
  "cached_key buff c = (case cp_key_ptr c of Some m \<Rightarrow> take (cp_key_size c) m | None \<Rightarrow> chunk (cp_key_offset c) (cp_key_size c) buff)"

definition cached :: "entry list \<Rightarrow> bytes \<Rightarrow> nat \<Rightarrow> CachedPrevEntry \<Rightarrow> bool" where
  "cached es buff i c \<longleftrightarrow> i < length es \<and> cp_offset c = offset es i \<and> cached_key buff c = ent_key (es ! i) \<and>
     snd (cp_value c) = length (ent_val (es ! i)) \<and> fst (cp_value c) + length (ent_val (es ! i)) = offset es (Suc i) \<and>
     (cp_key_ptr c = None \<longrightarrow> cp_key_offset c + cp_key_size c \<le> length buff)"

definition cached_from :: "entry list \<Rightarrow> nat \<Rightarrow> BlockIter \<Rightarrow> bool" where
  "cached_from es a it \<longleftrightarrow>
     (\<forall>m < length (prev_entries it). cached es (prev_entries_keys_buff it) (a + m) (prev_entries it ! m))"

definition cache_ok :: "entry list \<Rightarrow> BlockIter \<Rightarrow> bool" where
  "cache_ok es it \<longleftrightarrow> (\<exists>a. cached_from es a it) \<and> prev_entries_idx it < int (length (prev_entries it))"

lemma cache_ok_cong: "cache_fields it' = cache_fields it \<Longrightarrow> cache_ok es it' = cache_ok es it"
  by (simp add: cache_ok_def cached_from_def cache_fields_def)

definition at_entry :: "entry list \<Rightarrow> nat list \<Rightarrow> Comparator \<Rightarrow> nat \<Rightarrow> BlockIter \<Rightarrow> bool" where
  "at_entry es rs C i it \<longleftrightarrow> cache_ok es it \<and>
     (if i < length es then positioned es rs C i it else base es rs C it \<and> \<not> Valid it)"

lemma ParseNextKey_at:
  assumes "ready es rs C i it" "cache_ok es it"
  shows "\<exists>it'. ParseNextKey u it = Inr (i < length es, it') \<and> at_entry es rs C i it' \<and> cache_fields it' = cache_fields it"
proof (cases "i < length es")
  case True
  obtain it' where "ParseNextKey u it = Inr (True, it')" "positioned es rs C i it'" "cache_fields it' = cache_fields it"
    by (rule ParseNextKey_entry [OF assms(1) True, of u])
  then show ?thesis using True assms(2) cache_ok_cong [of it' it es] by (simp add: at_entry_def)
next
  case False
  then have i: "i = length es" using assms(1) by (simp add: ready_def)
  obtain it' where "ParseNextKey u it = Inr (False, it')" "base es rs C it'" "\<not> Valid it'" "cache_fields it' = cache_fields it"
    by (rule ParseNextKey_end [OF assms(1) [unfolded i], of u])
  then show ?thesis using i assms(2) cache_ok_cong [of it' it es] by (simp add: at_entry_def)
qed

lemma at_ready: "at_entry es rs C i it \<Longrightarrow> i < length es \<Longrightarrow> ready es rs C (Suc i) it \<and> cache_ok es it"
  using positioned_ready by (auto simp: at_entry_def)

lemma Next_at:
  assumes "at_entry es rs C i it" "i < length es"
  shows "\<exists>it'. BlockIter_Next u it = Inr it' \<and> at_entry es rs C (Suc i) it'"
  using ParseNextKey_at [of es rs C "Suc i" it u] at_ready [OF assms] by (auto simp: BlockIter_Next_def)

lemma base_data:
  assumes "base es rs C it"
  shows "it_data it \<noteq> None" "0 < length rs" "num_restarts it = length rs" "rs ! 0 = 0"
  using assms by (auto simp: base_def reads_block_def block_ok_def restart_ok_def)

lemma SeekToRestartPoint_at:
  assumes "base es rs C it" "cache_ok es it" "r < length rs"
  shows "\<exists>it'. SeekToRestartPoint r it = Inr it' \<and> ready es rs C (rs ! r) it' \<and> cache_ok es it' \<and> cache_fields it' = cache_fields it"
proof -
  obtain it' where "SeekToRestartPoint r it = Inr it'" "ready es rs C (rs ! r) it'" "cache_fields it' = cache_fields it"
    by (rule SeekToRestartPoint_ok [OF assms(1,3)])
  then show ?thesis using cache_ok_cong [of it' it es] assms(2) by simp
qed

lemma SeekToFirst_at:
  assumes "base es rs C it" "cache_ok es it"
  shows "\<exists>it'. BlockIter_SeekToFirst u it = Inr it' \<and> at_entry es rs C 0 it'"
proof -
  note b = base_data [OF assms(1)]
  obtain it1 where 1: "SeekToRestartPoint 0 it = Inr it1" "ready es rs C 0 it1" "cache_ok es it1"
    using SeekToRestartPoint_at [OF assms b(2)] b(4) by auto
  then show ?thesis using ParseNextKey_at [OF 1(2,3), of u] b(1) by (auto simp: BlockIter_SeekToFirst_def)
qed

lemma next_offset_at:
  "positioned es rs C i it \<Longrightarrow> NextEntryOffset it = Inr (offset es (Suc i)) \<and> it_restarts it = length (area es)"
  by (auto simp: positioned_def NextEntryOffset_def base_def reads_block_def)

lemma last_loop_at:
  assumes "ready es rs C i it" "cache_ok es it"
  shows "\<exists>it'. last_loop u it = Inr it' \<and> at_entry es rs C (max i (length es - 1)) it'"
  using assms
proof (induction "length es - i" arbitrary: i it)
  case 0
  then have "i = length es" by (simp add: ready_def)
  then show ?case using ParseNextKey_at [OF 0(2,3), of u] by (auto simp: last_loop.simps [of u it])
next
  case (Suc n)
  then have i: "i < length es" by simp
  obtain it' where it': "ParseNextKey u it = Inr (True, it')" "at_entry es rs C i it'"
    using ParseNextKey_at [OF Suc(3,4), of u] i by auto
  have next_off: "NextEntryOffset it' = Inr (offset es (Suc i))" "it_restarts it' = length (area es)"
    using it'(2) i next_offset_at by (auto simp: at_entry_def)
  show ?case
  proof (cases "Suc i < length es")
    case True
    then have "offset es (Suc i) < length (area es)" using offset_less [of "Suc i" "length es" es] by simp
    then have "last_loop u it = last_loop u it'" using it'(1) next_off by (simp add: last_loop.simps [of u it])
    moreover have "max i (length es - 1) = max (Suc i) (length es - 1)" "n = length es - Suc i" using True Suc(2) by simp_all
    ultimately show ?thesis using Suc(1) [of "Suc i" it'] at_ready [OF it'(2) i] by simp
  next
    case False
    then have "i = length es - 1" "offset es (Suc i) = length (area es)" using i by auto
    then show ?thesis using it' next_off by (simp add: last_loop.simps [of u it])
  qed
qed

lemma SeekToLast_at:
  assumes "base es rs C it" "cache_ok es it"
  shows "\<exists>it'. BlockIter_SeekToLast u it = Inr it' \<and> at_entry es rs C (length es - 1) it'"
proof -
  note b = base_data [OF assms(1)]
  have r: "length rs - 1 < length rs" using b(2) by simp
  obtain it1 where 1: "SeekToRestartPoint (length rs - 1) it = Inr it1" "ready es rs C (rs ! (length rs - 1)) it1" "cache_ok es it1"
    using SeekToRestartPoint_at [OF assms r] by auto
  have "rs ! (length rs - 1) \<le> length es - 1"
  proof -
    have "rs ! (length rs - 1) = 0 \<or> rs ! (length rs - 1) < length es"
      using nth_mem [OF r] assms(1) unfolding base_def block_ok_def restart_ok_def by blast
    then show ?thesis by linarith
  qed
  then have "max (rs ! (length rs - 1)) (length es - 1) = length es - 1" by simp
  then obtain it2 where "last_loop u it1 = Inr it2" "at_entry es rs C (length es - 1) it2"
    using last_loop_at [OF 1(2,3), of u] by metis
  then show ?thesis using 1(1) b(1,3) by (auto simp: BlockIter_SeekToLast_def)
qed

subsection \<open>Going back\<close>

lemma scan_back_ok:
  assumes "base es rs C it" "i < length es" "r < length rs" "r + 1 < length rs \<longrightarrow> i \<le> rs ! (r + 1)"
  shows "if i = 0 then scan_back it (offset es i) r = Inr None
    else \<exists>r'. scan_back it (offset es i) r = Inr (Some r') \<and> r' < length rs \<and> rs ! r' < i \<and> (r' + 1 < length rs \<longrightarrow> i \<le> rs ! (r' + 1))"
  using assms(3,4)
proof (induction r)
  case 0
  have b: "block_ok es rs" "reads_block es rs it" using assms(1) by (simp_all add: base_def)
  have "0 < i \<Longrightarrow> offset es 0 < offset es i" using assms(2) by (intro offset_less) auto
  then show ?case
    using 0 GetRestartPoint_block [OF b 0(1)] base_data(4) [OF assms(1)] by (cases "i = 0") auto
next
  case (Suc r)
  have b: "block_ok es rs" "reads_block es rs it" using assms(1) by (simp_all add: base_def)
  have "rs ! Suc r < length es" using restart_less(1) [OF b(1) Suc.prems(1)] assms(2) by fastforce
  then have "offset es (rs ! Suc r) \<ge> offset es i \<longleftrightarrow> i \<le> rs ! Suc r"
    using offset_less_iff [of "rs ! Suc r" es i] assms(2) by (simp add: linorder_not_less [symmetric])
  then show ?case
    using Suc GetRestartPoint_block [OF b Suc.prems(1)] by (cases "i \<le> rs ! Suc r") auto
qed

lemma positioned_cache [simp]:
  "positioned es rs C i (it\<lparr>prev_entries := x\<rparr>) = positioned es rs C i it"
  "positioned es rs C i (it\<lparr>prev_entries_keys_buff := y\<rparr>) = positioned es rs C i it"
  "positioned es rs C i (it\<lparr>prev_entries_idx := z\<rparr>) = positioned es rs C i it"
  by (simp_all add: positioned_def base_def reads_block_def BlockIter_key_def)

lemma cached_grows: "cached es buff i c \<Longrightarrow> cached es (buff @ x) i c"
  by (auto simp: cached_def cached_key_def chunk_def split: option.splits)

lemma cache_entry_ok:
  assumes "positioned es rs C i it" "cached_from es a it" "a + length (prev_entries it) = i"
  shows "\<exists>it'. cache_entry it = Inr it' \<and> positioned es rs C i it' \<and> cached_from es a it' \<and>
    length (prev_entries it') = Suc (length (prev_entries it)) \<and> prev_entries_idx it' = prev_entries_idx it"
proof -
  obtain p where p: "it_value it = Some (p, length (ent_val (es ! i)))" "p + length (ent_val (es ! i)) = offset es (Suc i)"
      "i < length es" "current it = offset es i" "BlockIter_key it = ent_key (es ! i)"
    using assms(1) by (auto simp: positioned_def)
  have from_snoc: "cached_from es a (it\<lparr>prev_entries_keys_buff := buff, prev_entries := prev_entries it @ [c]\<rparr>)"
    if "\<And>m. m < length (prev_entries it) \<Longrightarrow> cached es buff (a + m) (prev_entries it ! m)" "cached es buff i c" for buff c
    using that assms(3) by (auto simp: cached_from_def nth_append less_Suc_eq)
  have old: "m < length (prev_entries it) \<Longrightarrow> cached es (prev_entries_keys_buff it @ x) (a + m) (prev_entries it ! m)" for m x
    using assms(2) cached_grows by (auto simp: cached_from_def)
  show ?thesis
  proof (cases "IsKeyPinned (it_key it)")
    case True
    let ?c = "\<lparr>cp_offset = current it, cp_key_ptr = Some (BlockIter_key it), cp_key_offset = 0,
      cp_key_size = length (BlockIter_key it), cp_value = (p, length (ent_val (es ! i)))\<rparr>"
    have "cached es (prev_entries_keys_buff it) i ?c" using p by (simp add: cached_def cached_key_def)
    then have "cached_from es a (it\<lparr>prev_entries := prev_entries it @ [?c]\<rparr>)"
      using from_snoc [of "prev_entries_keys_buff it" ?c] old [of _ "[]"] by (simp add: cached_from_def)
    then show ?thesis using True p assms(1) by (simp add: cache_entry_def Let_def)
  next
    case False
    let ?c = "\<lparr>cp_offset = current it, cp_key_ptr = None, cp_key_offset = length (prev_entries_keys_buff it),
      cp_key_size = length (BlockIter_key it), cp_value = (p, length (ent_val (es ! i)))\<rparr>"
    have "cached es (prev_entries_keys_buff it @ BlockIter_key it) i ?c" using p by (simp add: cached_def cached_key_def chunk_def)
    then have "cached_from es a (it\<lparr>prev_entries_keys_buff := prev_entries_keys_buff it @ BlockIter_key it,
        prev_entries := prev_entries it @ [?c]\<rparr>)"
      using from_snoc old by blast
    then show ?thesis using False p assms(1) by (simp add: cache_entry_def Let_def)
  qed
qed

lemma prev_fill_ok:
  assumes "ready es rs C j it" "j < i" "i \<le> length es" "cached_from es a it" "a + length (prev_entries it) = j" "cache_ok es it"
  shows "\<exists>it'. prev_fill u (offset es i) it = Inr it' \<and> positioned es rs C (i - 1) it' \<and> cached_from es a it'"
  using assms(1,2,4-6)
proof (induction "i - j" arbitrary: j it)
  case (Suc n)
  have j: "j < length es" using Suc.prems(2) assms(3) by simp
  obtain it1 where it1: "ParseNextKey u it = Inr (True, it1)" "positioned es rs C j it1" "cache_fields it1 = cache_fields it"
    using ParseNextKey_at [OF Suc.prems(1,5), of u] j by (auto simp: at_entry_def)
  have c1: "cached_from es a it1" "a + length (prev_entries it1) = j" "prev_entries_idx it1 < int (length (prev_entries it1))"
    using it1(3) Suc.prems(3-5) by (auto simp: cache_fields_def cached_from_def cache_ok_def)
  obtain it2 where it2: "cache_entry it1 = Inr it2" "positioned es rs C j it2" "cached_from es a it2"
      "length (prev_entries it2) = Suc (length (prev_entries it1))" "prev_entries_idx it2 = prev_entries_idx it1"
    using cache_entry_ok [OF it1(2) c1(1,2)] by blast
  have step: "prev_fill u (offset es i) it =
      (if offset es (Suc j) < offset es i then prev_fill u (offset es i) it2 else Inr it2)"
    using it1(1) it2(1) next_offset_at [OF it2(2)] by (simp add: prev_fill.simps [of u _ it])
  show ?case
  proof (cases "Suc j < i")
    case True
    then have "offset es (Suc j) < offset es i" using assms(3) by (intro offset_less) auto
    moreover have "cache_ok es it2" using it2 c1(3) by (auto simp: cache_ok_def)
    ultimately show ?thesis
      using Suc.hyps(1) [of "Suc j" it2] Suc.hyps(2) True positioned_ready [OF it2(2)] it2 c1(2) step by auto
  next
    case False
    then have "i = Suc j" using Suc.prems(2) by simp
    then show ?thesis using step it2 by simp
  qed
qed simp

lemma cached_nth:
  assumes "cached_from es a it" "m < length (prev_entries it)"
  shows "cached es (prev_entries_keys_buff it) (a + m) (prev_entries it ! m)"
  using assms by (simp add: cached_from_def)

lemma Prev_cached:
  assumes "at_entry es rs C i it" "i < length es" "prev_entries_idx it > 0"
    "cp_offset (prev_entries it ! nat (prev_entries_idx it)) = current it"
  shows "0 < i \<and> (\<exists>it'. BlockIter_Prev u it = Inr it' \<and> at_entry es rs C (i - 1) it')"
proof -
  define m where "m = nat (prev_entries_idx it)"
  have pos: "positioned es rs C i it" and ok: "cache_ok es it" using assms(1,2) by (auto simp: at_entry_def)
  then obtain a where a: "cached_from es a it" "m < length (prev_entries it)" "0 < m"
    using assms(3) by (auto simp: cache_ok_def m_def)
  note at_m = cached_nth [OF a(1,2)] and at_m1 = cached_nth [OF a(1), of "m - 1"]
  have "offset es (a + m) = offset es i" "a + m < length es"
    using at_m assms(4) pos by (simp_all add: cached_def m_def positioned_def)
  then have i: "i = a + m" using offset_less_iff assms(2) by (metis linorder_neq_iff)
  define e where "e = prev_entries it ! (m - 1)"
  have e: "cached es (prev_entries_keys_buff it) (i - 1) e" using at_m1 a i by (simp add: e_def)
  let ?k = "cached_key (prev_entries_keys_buff it) e"
  obtain ik where ik: "SetKeyImpl u ?k False ((it_key it)\<lparr>is_user_key := False\<rparr>) = Inr ik" "iterkey_ok ik" "IterKey_GetInternalKey ik = ?k"
    by (rule SetKeyImpl_ok [of u ?k False "(it_key it)\<lparr>is_user_key := False\<rparr>"])
  let ?it = "it\<lparr>prev_entries_idx := prev_entries_idx it - 1, key_pinned := cp_key_ptr e \<noteq> None, current := cp_offset e,
    it_key := ik, it_value := Some (cp_value e)\<rparr>"
  have "BlockIter_Prev u it = Inr ?it"
    using assms(3,4) a(2) ik(1)
    by (auto simp: BlockIter_Prev_def Let_def cached_key_def IterKey_SetInternalKey_def nat_diff_distrib e_def m_def split: option.splits)
  moreover have "positioned es rs C (i - 1) ?it"
    using pos e ik(2,3) a(3) i
    by (cases "cp_value e") (auto simp: positioned_def base_def reads_block_def BlockIter_key_def cached_def)
  moreover have "cache_ok es ?it" using ok by (auto simp: cache_ok_def cached_from_def)
  ultimately show ?thesis using i a(3) assms(2) by (auto simp: at_entry_def)
qed

lemma Prev_scan:
  assumes "at_entry es rs C i it" "i < length es"
    "\<not> (prev_entries_idx it > 0 \<and> cp_offset (prev_entries it ! nat (prev_entries_idx it)) = current it)"
  shows "\<exists>it'. BlockIter_Prev u it = Inr it' \<and> at_entry es rs C (if i = 0 then length es else i - 1) it'"
proof -
  let ?it = "it\<lparr>prev_entries_idx := - 1, prev_entries := [], prev_entries_keys_buff := []\<rparr>"
  have pos: "positioned es rs C i it" and ok: "cache_ok es it" using assms(1,2) by (auto simp: at_entry_def)
  then have b: "base es rs C ?it" and c: "cache_ok es ?it" "\<And>a. cached_from es a ?it"
    by (auto simp: positioned_def base_def reads_block_def cache_ok_def cached_from_def)
  have prev: "BlockIter_Prev u it =
      rbind (scan_back ?it (offset es i) (restart_index it)) (\<lambda>r.
        case r of
          None \<Rightarrow> Inr (?it\<lparr>current := it_restarts it, restart_index := num_restarts it\<rparr>)
        | Some i' \<Rightarrow>
            rbind (SeekToRestartPoint i' ?it) (\<lambda>it.
            rbind (prev_fill u (offset es i) it) (\<lambda>it.
            Inr (it\<lparr>prev_entries_idx := int (length (prev_entries it)) - 1\<rparr>))))"
    using assms(3) ok pos by (auto simp: BlockIter_Prev_def Let_def cache_ok_def positioned_def)
  have scan: "if i = 0 then scan_back ?it (offset es i) (restart_index it) = Inr None
    else \<exists>r'. scan_back ?it (offset es i) (restart_index it) = Inr (Some r') \<and> r' < length rs \<and> rs ! r' < i \<and> (r' + 1 < length rs \<longrightarrow> i \<le> rs ! (r' + 1))"
    using scan_back_ok [OF b assms(2), of "restart_index it"] pos by (simp add: positioned_def)
  show ?thesis
  proof (cases "i = 0")
    case True
    have "base es rs C (?it\<lparr>current := it_restarts it, restart_index := num_restarts it\<rparr>)"
      "cache_ok es (?it\<lparr>current := it_restarts it, restart_index := num_restarts it\<rparr>)"
      using b c by (auto simp: base_def reads_block_def cache_ok_def cached_from_def)
    then show ?thesis using True scan prev by (simp add: at_entry_def Valid_def)
  next
    case False
    then obtain r where r: "scan_back ?it (offset es i) (restart_index it) = Inr (Some r)" "r < length rs" "rs ! r < i"
      using scan by auto
    obtain it1 where it1: "SeekToRestartPoint r ?it = Inr it1" "ready es rs C (rs ! r) it1" "cache_ok es it1" "cache_fields it1 = cache_fields ?it"
      using SeekToRestartPoint_at [OF b c(1) r(2)] by blast
    have e: "prev_entries it1 = []" using it1(4) by (simp add: cache_fields_def)
    obtain it2 where it2: "prev_fill u (offset es i) it1 = Inr it2" "positioned es rs C (i - 1) it2" "cached_from es (rs ! r) it2"
      using prev_fill_ok [OF it1(2) r(3) _ _ _ it1(3), of "rs ! r" u] assms(2) e by (auto simp: cached_from_def)
    then have "cache_ok es (it2\<lparr>prev_entries_idx := int (length (prev_entries it2)) - 1\<rparr>)"
      by (auto simp: cache_ok_def cached_from_def)
    then show ?thesis
      using prev r(1) it1(1) it2 False assms(2) less_imp_diff_less [OF assms(2), of 1] by (simp add: at_entry_def)
  qed
qed

lemma Prev_at:
  assumes "at_entry es rs C i it" "i < length es"
  shows "\<exists>it'. BlockIter_Prev u it = Inr it' \<and> at_entry es rs C (if i = 0 then length es else i - 1) it'"
  using Prev_cached [OF assms] Prev_scan [OF assms] by fastforce

subsection \<open>Seeking\<close>

text \<open>The index of the first entry whose key is not before the target.\<close>

definition lower :: "Comparator \<Rightarrow> bytes list \<Rightarrow> bytes \<Rightarrow> nat" where
  "lower C ks target = length (takeWhile (\<lambda>k. cmp_Compare C k target < 0) ks)"

text \<open>The index of the last entry whose key is not after the target, the number of entries if there is none.\<close>

definition upper :: "Comparator \<Rightarrow> bytes list \<Rightarrow> bytes \<Rightarrow> nat" where
  "upper C ks target =
     (let i = lower C ks target in if i < length ks \<and> cmp_Compare C (ks ! i) target = 0 then i else if i = 0 then length ks else i - 1)"

lemma lower_le: "lower C ks target \<le> length ks"
  by (simp add: lower_def length_takeWhile_le)

lemma lower_before: "i < lower C ks target \<Longrightarrow> cmp_Compare C (ks ! i) target < 0"
  using set_takeWhileD nth_mem takeWhile_nth unfolding lower_def by metis

lemma lower_at: "lower C ks target < length ks \<Longrightarrow> \<not> cmp_Compare C (ks ! lower C ks target) target < 0"
  unfolding lower_def by (rule nth_length_takeWhile)

lemma lower_ge:
  assumes "\<And>j. j < i \<Longrightarrow> cmp_Compare C (ks ! j) target < 0" "i \<le> length ks"
  shows "i \<le> lower C ks target"
  using lower_at [of C ks target] assms by (metis linorder_not_le order.strict_trans2)

context comparator
begin

lemma before_le: "cmp_Compare C a b < 0 \<Longrightarrow> cmp_Compare C b c \<le> 0 \<Longrightarrow> cmp_Compare C a c < 0"
  using compare_trans [of a b c] compare_0 [of b c] by fastforce

lemma restart_lower:
  assumes "sorted_wrt (\<lambda>a b. cmp_Compare C a b < 0) ks" "i = 0 \<or> i < length ks \<and> cmp_Compare C (ks ! i) target \<le> 0"
  shows "i \<le> lower C ks target"
proof (rule lower_ge)
  show "cmp_Compare C (ks ! j) target < 0" if "j < i" for j
    using assms that before_le [of "ks ! j" "ks ! i" target] by (auto simp: sorted_wrt_iff_nth_less)
qed (use assms(2) in auto)

lemma lower_pred:
  assumes "lower C ks target < length ks" "cmp_Compare C (ks ! lower C ks target) target \<noteq> 0"
  shows "cmp_Compare C (ks ! lower C ks target) target > 0"
  using lower_at [OF assms(1)] assms(2) by linarith

lemma BinarySeek_ok:
  assumes "base es rs C it" "left \<le> right" "right < length rs"
    "left = 0 \<or> cmp_Compare C (ent_key (es ! (rs ! left))) target \<le> 0"
  shows "\<exists>r. BinarySeek target left right it = Inr (Some r, it) \<and> r < length rs \<and>
    (r = 0 \<or> cmp_Compare C (ent_key (es ! (rs ! r))) target \<le> 0)"
  using assms(2-)
proof (induction "right - left" arbitrary: left right rule: less_induct)
  case less
  have b: "block_ok es rs" "reads_block es rs it" "it_comparator it = Some C" using assms(1) by (simp_all add: base_def)
  show ?case
  proof (cases "left < right")
    case True
    define mid where "mid = (left + right + 1) div 2"
    have mid: "left < mid" "mid \<le> right" "mid < length rs" and mid2: "Suc (left + right) div 2 = mid"
      using True less.prems by (auto simp: mid_def)
    obtain s k v where e: "es ! (rs ! mid) = (s, k, v)" by (metis prod_cases3)
    have "rs ! 0 < rs ! mid" using b(1) mid sorted_wrt_nth_less [of "(<)" rs 0 mid] by (simp add: block_ok_def restart_ok_def)
    moreover have "rs ! mid = 0 \<or> rs ! mid < length es" "rs ! mid < length es \<longrightarrow> ent_shared (es ! (rs ! mid)) = 0"
      using nth_mem [OF mid(3)] b(1) unfolding block_ok_def restart_ok_def by blast+
    ultimately have i: "rs ! mid < length es" "s = 0" using e by auto
    note dec = DecodeEntry_block [OF b(1) i(1) e]
    have "offset es (rs ! mid) + length (entry_header (s, k, v)) + (length k - s) \<le> length (block_bytes es rs)"
      using dec(3) offset_le [of es "Suc (rs ! mid)"] length_block [of es rs] by linarith
    then have step: "BinarySeek target left right it =
        (if cmp_Compare C k target < 0 then BinarySeek target mid right it
         else if cmp_Compare C k target > 0 then BinarySeek target left (mid - 1) it else BinarySeek target mid mid it)"
      using True b GetRestartPoint_block [OF b(1,2) mid(3)] dec(1,2) i(2) entry_small [OF b(1) i(1) e]
      by (auto simp: BinarySeek.simps [of target left right] Let_def mid2 reads_block_def Compare_def unat_of_nat_small)
    have k: "ent_key (es ! (rs ! mid)) = k" using e by simp
    consider "cmp_Compare C k target < 0" | "cmp_Compare C k target > 0" | "cmp_Compare C k target = 0" by linarith
    then show ?thesis
      using less.hyps [of right mid] less.hyps [of "mid - 1" left] less.hyps [of mid mid] less.prems mid k
      by cases (auto simp: step)
  qed (use less.prems in \<open>simp add: BinarySeek.simps\<close>)
qed

lemma seek_loop_at:
  assumes "ready es rs C i it" "cache_ok es it" "i \<le> lower C (map ent_key es) target"
  shows "\<exists>it'. seek_loop u target it = Inr it' \<and> at_entry es rs C (lower C (map ent_key es) target) it'"
  using assms
proof (induction "lower C (map ent_key es) target - i" arbitrary: i it)
  case 0
  then have i: "i = lower C (map ent_key es) target" by simp
  obtain it' where it': "ParseNextKey u it = Inr (i < length es, it')" "at_entry es rs C i it'"
    using ParseNextKey_at [OF 0(2,3), of u] by auto
  have "Compare it' (IterKey_GetInternalKey (it_key it')) target = Inr (cmp_Compare C (ent_key (es ! i)) target)" if "i < length es"
    using it'(2) that by (simp add: at_entry_def positioned_def base_def Compare_def BlockIter_key_def)
  moreover have "\<not> cmp_Compare C (ent_key (es ! i)) target < 0" if "i < length es"
    using lower_at [of C "map ent_key es" target] i that by simp
  ultimately show ?case using it' i by (cases "i < length es") (simp_all add: seek_loop.simps [of u target it])
next
  case (Suc n)
  have i: "i < lower C (map ent_key es) target" using Suc(2) by simp
  then have len: "i < length es" using lower_le [of C "map ent_key es" target] by simp
  obtain it' where it': "ParseNextKey u it = Inr (True, it')" "at_entry es rs C i it'"
    using ParseNextKey_at [OF Suc(3,4), of u] len by auto
  have "Compare it' (IterKey_GetInternalKey (it_key it')) target = Inr (cmp_Compare C (ent_key (es ! i)) target)"
    using it'(2) len by (simp add: at_entry_def positioned_def base_def Compare_def BlockIter_key_def)
  moreover have "cmp_Compare C (ent_key (es ! i)) target < 0" using lower_before [OF i] len by simp
  ultimately have "seek_loop u target it = seek_loop u target it'" using it'(1) by (simp add: seek_loop.simps [of u target it])
  then show ?case using Suc(1) [of "Suc i" it'] at_ready [OF it'(2) len] Suc(2) i by simp
qed

abbreviation keys_sorted :: "entry list \<Rightarrow> bool" where
  "keys_sorted es \<equiv> sorted_wrt (\<lambda>a b. cmp_Compare C a b < 0) (map ent_key es)"

lemma binary_then_linear:
  assumes "base es rs C it" "cache_ok es it" "keys_sorted es"
  shows "\<exists>r it1 it2. BinarySeek target 0 (num_restarts it - 1) it = Inr (Some r, it) \<and> SeekToRestartPoint r it = Inr it1 \<and>
    seek_loop u target it1 = Inr it2 \<and> at_entry es rs C (lower C (map ent_key es) target) it2"
proof -
  note b = base_data [OF assms(1)]
  have "num_restarts it - 1 < length rs" using b by simp
  then obtain r where r: "BinarySeek target 0 (num_restarts it - 1) it = Inr (Some r, it)" "r < length rs"
      "r = 0 \<or> cmp_Compare C (ent_key (es ! (rs ! r))) target \<le> 0"
    using BinarySeek_ok [OF assms(1), of 0 "num_restarts it - 1" target] by auto
  obtain it1 where it1: "SeekToRestartPoint r it = Inr it1" "ready es rs C (rs ! r) it1" "cache_ok es it1"
    using SeekToRestartPoint_at [OF assms(1,2) r(2)] by blast
  have "rs ! r = 0 \<or> rs ! r < length es"
    using nth_mem [OF r(2)] assms(1) unfolding base_def block_ok_def restart_ok_def by blast
  then have "rs ! r \<le> lower C (map ent_key es) target"
    using r(3) b(4) by (intro restart_lower [OF assms(3)]) auto
  then show ?thesis using seek_loop_at [OF it1(2,3), of target u] r(1) it1(1) by auto
qed

lemma Seek_at:
  assumes "base es rs C it" "cache_ok es it" "keys_sorted es"
  shows "\<exists>it'. BlockIter_Seek u target it = Inr it' \<and> at_entry es rs C (lower C (map ent_key es) target) it'"
proof -
  have "prefix_index it = None" using assms(1) by (simp add: base_def)
  then show ?thesis using binary_then_linear [OF assms, of target u] base_data(1) [OF assms(1)] by (auto simp: BlockIter_Seek_def)
qed

lemma at_base: "at_entry es rs C i it \<Longrightarrow> base es rs C it \<and> cache_ok es it"
  by (auto simp: at_entry_def positioned_def split: if_splits)

lemma at_Valid: "at_entry es rs C i it \<Longrightarrow> Valid it \<longleftrightarrow> i < length es"
  using positioned_Valid by (auto simp: at_entry_def split: if_splits)

lemma at_Compare:
  "at_entry es rs C i it \<Longrightarrow> i < length es \<Longrightarrow>
    Compare it (IterKey_GetInternalKey (it_key it)) target = Inr (cmp_Compare C (map ent_key es ! i) target)"
  by (simp add: at_entry_def positioned_def base_def Compare_def BlockIter_key_def)

lemma prev_loop_at:
  assumes "at_entry es rs C (lower C (map ent_key es) target) it" "lower C (map ent_key es) target < length es"
  shows "\<exists>it'. prev_loop u target (current it + 2) it = Inr it' \<and> at_entry es rs C (upper C (map ent_key es) target) it'"
proof (cases "cmp_Compare C (map ent_key es ! lower C (map ent_key es) target) target = 0")
  case True
  then show ?thesis using assms at_Valid [OF assms(1)] at_Compare [OF assms] by (simp add: upper_def Let_def)
next
  case False
  define i where "i = lower C (map ent_key es) target"
  have i: "i < length es" "at_entry es rs C i it" using assms by (simp_all add: i_def)
  have up: "upper C (map ent_key es) target = (if i = 0 then length es else i - 1)"
    using False by (simp add: upper_def Let_def i_def)
  obtain it' where it': "BlockIter_Prev u it = Inr it'" "at_entry es rs C (if i = 0 then length es else i - 1) it'"
    using Prev_at [OF i(2,1)] by blast
  have "prev_loop u target (current it + 2) it = prev_loop u target (current it + 1) it'"
    using lower_pred [of "map ent_key es" target] False assms at_Valid [OF assms(1)] at_Compare [OF assms] it'(1) by simp
  moreover have "prev_loop u target (current it + 1) it' = Inr it'"
  proof (cases "i = 0")
    case True
    then show ?thesis using at_Valid [OF it'(2)] by simp
  next
    case False
    then have p: "at_entry es rs C (i - 1) it'" "i - 1 < length es" using it'(2) i(1) by simp_all
    have "cmp_Compare C (map ent_key es ! (i - 1)) target < 0" using False by (intro lower_before) (simp add: i_def)
    then show ?thesis using at_Valid [OF p(1)] at_Compare [OF p] p(2) by simp
  qed
  ultimately show ?thesis using it'(2) up by simp
qed

lemma SeekForPrev_at:
  assumes "base es rs C it" "cache_ok es it" "keys_sorted es"
  shows "\<exists>it'. BlockIter_SeekForPrev u target it = Inr it' \<and> at_entry es rs C (upper C (map ent_key es) target) it'"
proof -
  let ?i = "lower C (map ent_key es) target"
  obtain r it1 it2 where s: "BinarySeek target 0 (num_restarts it - 1) it = Inr (Some r, it)" "SeekToRestartPoint r it = Inr it1"
      "seek_loop u target it1 = Inr it2" "at_entry es rs C ?i it2"
    using binary_then_linear [OF assms] by blast
  have step: "BlockIter_SeekForPrev u target it =
      (if ?i < length es then prev_loop u target (current it2 + 2) it2 else BlockIter_SeekToLast u it2)"
    using s base_data(1) [OF assms(1)] at_Valid [OF s(4)] by (auto simp: BlockIter_SeekForPrev_def)
  show ?thesis
  proof (cases "?i < length es")
    case True
    then show ?thesis using prev_loop_at [OF s(4) True] step by simp
  next
    case False
    then have "?i = length es" using lower_le [of C "map ent_key es" target] by simp
    then have "upper C (map ent_key es) target = length es - 1" by (auto simp: upper_def Let_def)
    then show ?thesis using SeekToLast_at [of es rs C it2 u] at_base [OF s(4)] False step by simp
  qed
qed

end

subsection \<open>The iterator as a cursor on the list of entries\<close>

text \<open>The calls of a client, which calls Next and Prev on a valid iterator only, and what it sees after each of them.\<close>

datatype iter_op = Op_SeekToFirst | Op_SeekToLast | Op_Seek bytes | Op_SeekForPrev bytes | Op_Next | Op_Prev

fun iter_step :: "(nat \<Rightarrow> byte) \<Rightarrow> iter_op \<Rightarrow> BlockIter \<Rightarrow> BlockIter res" where
  "iter_step u Op_SeekToFirst it = BlockIter_SeekToFirst u it"
| "iter_step u Op_SeekToLast it = BlockIter_SeekToLast u it"
| "iter_step u (Op_Seek target) it = BlockIter_Seek u target it"
| "iter_step u (Op_SeekForPrev target) it = BlockIter_SeekForPrev u target it"
| "iter_step u Op_Next it = (if Valid it then BlockIter_Next u it else Inr it)"
| "iter_step u Op_Prev it = (if Valid it then BlockIter_Prev u it else Inr it)"

definition observe :: "BlockIter \<Rightarrow> (RStatus \<times> (bytes \<times> bytes) option) res" where
  "observe it =
     (if Valid it then rbind (BlockIter_value it) (\<lambda>v. Inr (it_status it, Some (BlockIter_key it, v))) else Inr (it_status it, None))"

primrec iter_trace :: "(nat \<Rightarrow> byte) \<Rightarrow> iter_op list \<Rightarrow> BlockIter \<Rightarrow> (RStatus \<times> (bytes \<times> bytes) option) list res" where
  "iter_trace u [] it = Inr []"
| "iter_trace u (op # ops) it =
     rbind (iter_step u op it) (\<lambda>it. rbind (observe it) (\<lambda>seen. rbind (iter_trace u ops it) (\<lambda>rest. Inr (seen # rest))))"

text \<open>The specification: an index into the list, the length of the list when the cursor is not valid.\<close>

fun cursor_step :: "Comparator \<Rightarrow> (bytes \<times> bytes) list \<Rightarrow> iter_op \<Rightarrow> nat \<Rightarrow> nat" where
  "cursor_step C kvs Op_SeekToFirst i = 0"
| "cursor_step C kvs Op_SeekToLast i = length kvs - 1"
| "cursor_step C kvs (Op_Seek target) i = lower C (map fst kvs) target"
| "cursor_step C kvs (Op_SeekForPrev target) i = upper C (map fst kvs) target"
| "cursor_step C kvs Op_Next i = (if i < length kvs then i + 1 else i)"
| "cursor_step C kvs Op_Prev i = (if i < length kvs then if i = 0 then length kvs else i - 1 else i)"

primrec cursor_trace :: "Comparator \<Rightarrow> (bytes \<times> bytes) list \<Rightarrow> iter_op list \<Rightarrow> nat \<Rightarrow> (RStatus \<times> (bytes \<times> bytes) option) list" where
  "cursor_trace C kvs [] i = []"
| "cursor_trace C kvs (op # ops) i =
     (let j = cursor_step C kvs op i in (SOk, if j < length kvs then Some (kvs ! j) else None) # cursor_trace C kvs ops j)"

text \<open>A new iterator on a block of bytes, without a prefix index and a sequence number of the file.\<close>

definition open_block :: "(nat \<Rightarrow> byte) \<Rightarrow> Comparator \<Rightarrow> bytes \<Rightarrow> BlockIter res" where
  "open_block u C data = rbind (Block_new data kDisableGlobalSequenceNumber) (NewIterator u C None True)"

lemma observe_at:
  assumes "at_entry es rs C i it"
  shows "observe it = Inr (SOk, if i < length es then Some (snd (es ! i)) else None)"
proof (cases "i < length es")
  case True
  then have p: "positioned es rs C i it" using assms by (simp add: at_entry_def)
  then have "it_status it = SOk" "BlockIter_key it = ent_key (es ! i)" by (simp_all add: positioned_def base_def)
  then show ?thesis using True positioned_Valid [OF p] positioned_value [OF p] by (simp add: observe_def)
next
  case False
  then show ?thesis using assms by (simp add: observe_def at_entry_def base_def)
qed

lemma open_block_at:
  assumes "block_ok es rs"
  shows "\<exists>it. open_block u C (block_bytes es rs) = Inr it \<and> at_entry es rs C (length es) it"
proof -
  obtain B it where it: "Block_new (block_bytes es rs) kDisableGlobalSequenceNumber = Inr B" "NewIterator u C None True B = Inr it"
    "reads_block es rs it" "it_comparator it = Some C" "prefix_index it = None" "it_global_seqno it = kDisableGlobalSequenceNumber"
    "it_status it = SOk" "\<not> Valid it" "iterkey_ok (it_key it)" "prev_entries it = []" "prev_entries_idx it = - 1"
    by (rule NewIterator_block [OF assms, of kDisableGlobalSequenceNumber u C None])
  then have "at_entry es rs C (length es) it"
    using assms by (simp add: at_entry_def base_def cache_ok_def cached_from_def)
  then show ?thesis using it(1,2) by (simp add: open_block_def)
qed

context comparator
begin

lemma iter_step_at:
  assumes "at_entry es rs C i it" "keys_sorted es"
  shows "\<exists>it'. iter_step u op it = Inr it' \<and> at_entry es rs C (cursor_step C (map snd es) op i) it'"
proof -
  note b = at_base [OF assms(1)]
  have m: "map (fst \<circ> snd) es = map ent_key es" by simp
  show ?thesis
    using assms b at_Valid [OF assms(1)] SeekToFirst_at [of es rs C it u] SeekToLast_at [of es rs C it u]
      Seek_at [of es rs it u] SeekForPrev_at [of es rs it u] Next_at [OF assms(1), of u] Prev_at [OF assms(1), of u]
    by (cases op) (auto simp: m)
qed

lemma iter_trace_at:
  assumes "at_entry es rs C i it" "keys_sorted es"
  shows "iter_trace u ops it = Inr (cursor_trace C (map snd es) ops i)"
  using assms(1)
proof (induction ops arbitrary: i it)
  case (Cons op ops)
  obtain it' where it': "iter_step u op it = Inr it'" "at_entry es rs C (cursor_step C (map snd es) op i) it'"
    using iter_step_at [OF Cons.prems assms(2)] by blast
  then show ?case using Cons.IH [OF it'(2)] observe_at [OF it'(2)] by (simp add: Let_def)
qed simp

end

text \<open>C11: A block that the builder makes of keys in strictly ascending order, with or without delta encoding and with any
  restart interval, behaves under any sequence of the iterator's calls (SeekToFirst, SeekToLast, Seek, SeekForPrev, Next, Prev)
  as a cursor on the list of keys and values: no call reads outside of the block or fails, the status stays ok, and after
  each call the iterator shows the entry that the cursor is at, or is not valid when the cursor is at none.\<close>

theorem block_iterator_refines_list:
  assumes "comparator C" "sorted_wrt (\<lambda>a b. cmp_Compare C a b < 0) (map fst kvs)" "1 \<le> interval"
    "length (build interval delta kvs) < 2 ^ 32"
  shows "rbind (open_block u C (build interval delta kvs)) (iter_trace u ops) = Inr (cursor_trace C kvs ops (length kvs))"
proof -
  obtain es rs where b: "build interval delta kvs = block_bytes es rs" "block_ok es rs" "map snd es = kvs"
    by (rule build_block [OF assms(3,4)])
  have l: "length kvs = length es" and k: "map ent_key es = map fst kvs" using b(3) by auto
  obtain it where "open_block u C (block_bytes es rs) = Inr it" "at_entry es rs C (length es) it"
    using open_block_at [OF b(2)] by blast
  then show ?thesis
    using comparator.iter_trace_at [OF assms(1), of es rs "length es" it u ops] assms(2) [folded k] b(1,3) l by simp
qed

theorem block_iterator_refines_list_witness:
  "rbind (open_block (\<lambda>_. 0) BytewiseComparator (build 2 True [([97], [1]), ([97, 98], [2]), ([98], [])]))
     (iter_trace (\<lambda>_. 0) [Op_Seek [97, 97], Op_Prev, Op_SeekForPrev [99], Op_Next]) =
   Inr [(SOk, Some ([97, 98], [2])), (SOk, Some ([97], [1])), (SOk, Some ([98], [])), (SOk, None)]"
proof -
  let ?kvs = "[([97], [1]), ([97, 98], [2]), ([98], [])] :: (bytes \<times> bytes) list"
  have "length (build 2 True ?kvs) = 26" by code_simp
  moreover have "sorted_wrt (\<lambda>a b. cmp_Compare BytewiseComparator a b < 0) (map fst ?kvs)" by code_simp
  moreover have "cursor_trace BytewiseComparator ?kvs [Op_Seek [97, 97], Op_Prev, Op_SeekForPrev [99], Op_Next] (length ?kvs) =
      [(SOk, Some ([97, 98], [2])), (SOk, Some ([97], [1])), (SOk, Some ([98], [])), (SOk, None)]" by code_simp
  ultimately show ?thesis
    using block_iterator_refines_list [OF bytewise.comparator_axioms, of ?kvs 2 True "\<lambda>_. 0"] by simp
qed

end
