(* ===== verification/Spec2Isabelle.thy ===== *)
theory Spec2Isabelle
  imports KV LFU_Cache NewDB_Iter WriteBatch LogReader BlockSeek
begin

text \<open>
  A verification of WiscKey, a key-value store that keeps its keys in RocksDB and its values in log files of its own,
  and of newdb, the variant that keeps values in a second RocksDB.

  \<^bold>\<open>The program.\<close> A \<open>Put\<close> (src/src/db_impl.cc) stores the value in an LRU cache and in the write buffer
  of one of four log partitions, appends it to the buffer of that partition's log, and records its address and length
  under the key in RocksDB. A \<open>Get\<close> asks the cache, the write buffer, and then RocksDB and the log file. \<open>Delete\<close>
  erases the key from both caches and from RocksDB. Buffers are written to the file when they fill, by
  \<open>flushVLog\<close>, and when the store is closed. \<open>vLogGarbageCollect\<close> copies the live values to fresh log files with several
  workers, swaps the files and rebuilds the caches. An iterator (src/src/db_iter.cc) walks the keys of RocksDB and
  may prefetch values with a thread pool (src/src/threadpool.c).

  \<^bold>\<open>The theories.\<close>
  \<^item> \<open>Prelude\<close>: faults (\<open>Hang\<close>, \<open>Heap_Overflow\<close>, \<open>Over_Read\<close>, \<open>Null_Deref\<close>, ...), the result type \<open>res\<close>, state-passing
    operations \<open>op\<close> with \<open>ret\<close> and \<open>sbind\<close>, byte lists, little-endian words.
  \<^item> \<open>Slices\<close>, \<open>Statuses\<close>, \<open>Options\<close>, \<open>Statistics\<close>: the headers under src/include/wisckey.
  \<^item> \<open>Hashing\<close>: src/src/hash.cc on 64-bit words, and the equality of the byte-wise code with its word-wise description.
  \<^item> \<open>HandleTable\<close>, \<open>LRU_Cache\<close>, \<open>FIFO_Cache\<close>, \<open>LFU_Cache\<close>, \<open>Sharded_Cache\<close>: src/src/cache. A shard is a record with a
    heap of handles, the hash table as a list of chains, and the recency list. The locales \<open>cache_shard\<close> and \<open>cache\<close> state
    what clients rely on; the LRU and the FIFO cache interpret them, sharded and unsharded.
  \<^item> \<open>Cache_Client\<close>: the cache functions of db_impl.cc, proved once over the locale \<open>cache_client\<close>, for the data cache and
    for the write buffers.
  \<^item> \<open>VLog\<close>: log buffers and log files with partial and failing system calls, page rounding, addresses.
  \<^item> \<open>Rocks\<close>: what the stores use of RocksDB, as the record \<open>rocks\<close> of operations and the locales \<open>rocks_map\<close>,
    \<open>rocksdb\<close>, \<open>rocks_map_ok\<close>, \<open>rocksdb_ok\<close> (no RocksDB errors) and \<open>compacting\<close>.
  \<^item> \<open>DB\<close>, \<open>GC\<close>, \<open>DBIterator\<close>, \<open>ThreadPool\<close>: the store itself, garbage collection with every interleaving of its
    workers, the iterator, the pool as a step relation.
  \<^item> \<open>KV\<close>: sequences of commands and the specification they refine.
  \<^item> \<open>NewDB\<close>, \<open>NewDB_Iter\<close>: src/src/newdb over two RocksDB instances.
  \<^item> \<open>Memtable\<close>, \<open>Compaction\<close>: a reference instance of RocksDB, an ordered list of entries with sequence numbers and
    a compaction of it; they interpret the locales of \<open>Rocks\<close> and model no particular source file.
  \<^item> \<open>Coding\<close> (src/rocksdb-5.8/util/coding.h, coding.cc): fixed and variable-length integers, length-prefixed strings.
  \<^item> \<open>InternalKey\<close> (src/rocksdb-5.8/db/dbformat.h, dbformat.cc, util/comparator.cc): internal keys, their order, separators,
    lookup keys and the key buffer of iterators.
  \<^item> \<open>WriteBatch\<close> (src/rocksdb-5.8/db/write_batch.cc): batches as bytes, save points, and their reading.
  \<^item> \<open>Crc32c\<close> (src/rocksdb-5.8/util/crc32c.cc): the checksum in software and with the instruction of the processor.
  \<^item> \<open>LogFormat\<close>, \<open>LogReader\<close> (src/rocksdb-5.8/db/log_writer.cc, log_reader.cc): the write-ahead log, its writer, its reader with
    the recovery modes.
  \<^item> \<open>Blocks\<close> (src/rocksdb-5.8/table/block_builder.cc, block.cc): the blocks of table files, with delta-encoded keys and restart
    points, their builder and iterator; \<open>BlockFormat\<close> says what bytes the builder makes, \<open>BlockSeek\<close> that the iterator is a
    cursor on the list of entries.

  \<^bold>\<open>State and invariant.\<close> The record \<open>db\<close> has the options, the RocksDB state, the four logs, the data cache, the write
  buffers, the statistics and the number of system calls made so far; an environment \<open>env\<close> says how each system call ends and
  what uninitialised memory holds. \<open>db_inv rinv index N\<close> says that every recorded address lies in its log, the caches are
  well formed, and there is room for N more operations before a 64-bit offset or a 32-bit table size wraps. \<open>db_abs\<close>
  is the map from keys to values that a store stands for, and \<open>coherent\<close> says that the caches hold no outdated value.
  \<open>full_io\<close> excludes short and failing reads and writes; it is a hypothesis of the theorems that need it.

  \<^bold>\<open>What the theorems show.\<close> Sequences of commands, garbage collections and restarts included, behave as a map as long as
  no present key is overwritten (\<open>store_runs\<close>), and each operation does so alone. The restriction is needed: an overwrite
  leaves the old value in the caches (\<open>overwrite_reads_stale\<close>). Further theorems give the caches' replacement behaviour, the
  equality of the hash with its reference, order, capacity and completion of the thread pool, and the defects that
  the model exposes: overflows, unread memory, stale iterators, colliding physical keys after a restart of newdb.
  For RocksDB the encodings round-trip, a write batch refines a list of operations, separators lie between the keys they
  separate, the checksum is the CRC-32C of its definition however it is computed, and a log file that is cut off anywhere gives
  back exactly the records that were complete (\<open>log_crash_recovery\<close>). A table block that is built from sorted keys
  behaves under all calls of its iterator as a cursor on the list of its entries (\<open>block_iterator_refines_list\<close>).

  \<^bold>\<open>Bounds.\<close> Offsets, lengths, hashes and reference counts are words of their width. Cache capacities and usages are natural
  numbers. Loops that retry end after a constant number of rounds; the resize loop of the hash table is a partial
  function with option result, and \<open>grow_returns\<close> proves that it returns while the table is smaller than half the word. The
  loop of the log reader is one too: \<open>ReadRecord_returns\<close> proves that it returns in every recovery mode but one, and
  \<open>old_log_hangs\<close> that it does not in that one. Everything else is total. The loop of
  \<open>SeekForPrev\<close> in blocks has the offset of the entry plus two as its fuel; the refinement shows that two rounds are enough on a
  sorted block.

  \<^bold>\<open>Not modelled.\<close> The threads that print statistics, the debugging output of newdb's \<open>flushVLog\<close>, the commented-out
  write-ahead log of \<open>Put\<close>, tests and benchmarks, the older copies of sources (files ending in .pc), and copies of headers.
  Operations of the store run one at a time: the latches that serialise them are not modelled, except in the
  thread pool and in garbage collection. Of RocksDB, the rest of the table files, the manifest, recovery and the background threads are not
  modelled; the stores see them through the operations of \<open>Rocks\<close>.
\<close>

section \<open>A concrete database\<close>

text \<open>
  The default options with statistics switched on, an environment whose system calls succeed, and
  the store that \<open>Open\<close> makes of an empty directory on the memtable model of RocksDB.
\<close>

definition sample_opts :: Options where
  "sample_opts = (Options_new (\<lambda>_. None))\<lparr>statistics := Some CreateDBStatistics\<rparr>"

definition sample_env :: env where
  "sample_env = \<lparr>sys = (\<lambda>_. Full), junk = (\<lambda>_. 0)\<rparr>"

definition sample_files :: "bytes option list" where
  "sample_files = replicate LOG_PARTITION None"

lemma sample_part: "unat (part_size sample_opts) = 4194304"
  by (simp add: sample_opts_def part_size_def LOG_PARTITION_def)

lemma sample_io [simp]: "full_io sample_env"
  by (simp add: full_io_def sample_env_def)

lemma sample_files_ok: "files_ok 1000 sample_opts sample_files"
  by (simp add: files_ok_def part_ok_def sample_part sample_files_def file_bytes_def)

lemma sample_db:
  obtains db where "DBImpl_new sample_env sample_opts sample_files memdb_new = Inr db"
    "db_inv memdb_inv memdb_index 1000 db" "coherent memdb_index db" "db_abs memdb_index db = Map.empty"
    "data_cache db \<noteq> None"
proof -
  have st: "statistics sample_opts = Some CreateDBStatistics" by (simp add: sample_opts_def)
  have e: "entry_in m (length (file_bytes (sample_files ! log_of k)))" if "memdb_index memdb_new k = Some m" for k m
    using that by simp
  have d: "dataCacheSize sample_opts > 0" by (simp add: sample_opts_def Options_new_def)
  show thesis
    by (rule DBImpl_new_ok [where rinv = memdb_inv and index = memdb_index and r = memdb_new and E = sample_env,
          OF sample_files_ok st memdb_new_ok(1) e])
      (use d that in \<open>auto simp: fun_eq_iff\<close>)
qed

lemma sample_rel:
  obtains db where "DBImpl_new sample_env sample_opts sample_files memdb_new = Inr db"
    "db_inv memdb_inv memdb_index 1000 db" "coherent memdb_index db" "db_abs memdb_index db = Map.empty"
    "options db = sample_opts" "rdb db = memdb_new" "\<And>k. flushed (key_log db k)"
proof -
  have st: "statistics sample_opts = Some CreateDBStatistics" by (simp add: sample_opts_def)
  have e: "entry_in m (length (file_bytes (sample_files ! log_of k)))" if "memdb_index memdb_new k = Some m" for k m
    using that by simp
  show thesis
    by (rule DBImpl_new_ok [where rinv = memdb_inv and index = memdb_index and r = memdb_new and E = sample_env,
          OF sample_files_ok st memdb_new_ok(1) e])
      (use that in \<open>auto simp: fun_eq_iff\<close>)
qed

section \<open>Runs of the store\<close>

definition kv_empty :: kv where
  "kv_empty = \<lparr>kv_map = Map.empty, kv_seen = (\<lambda>k. {}), kv_dirty = {}\<rparr>"


definition kv_sample :: "kv_cmd list" where
  "kv_sample = [KPut [1] [7], KGet [1], KFlush, KPut [1] [8], KGC (\<lambda>_. []), KGet [1], KDelete [1] True False, KReopen, KGet [1]]"


section \<open>Single operations\<close>

text \<open>C5: \<open>Put\<close> of a value of at most a page returns, keeps the invariant of the store, and sets the
  value of its key and no other; when it reports an error the store is either updated or unchanged.\<close>

theorem Put_refines:
  assumes "rocksdb R rinv index" and "db_inv rinv index (Suc N) db" and "length v \<le> 4096" and "full_io E"
  shows "\<exists>st db'. DBImpl_Put R E k v db = Inr (st, db') \<and> db_inv rinv index N db' \<and>
    (db_abs index db' = (db_abs index db)(k \<mapsto> v) \<or>
     st = Status_IOError [] [] \<and> db_abs index db' = db_abs index db)"
  using rocksdb.Put_ok [OF assms, of k] by metis

theorem Put_refines_witness:
  "\<exists>db st db'. DBImpl_new sample_env sample_opts sample_files memdb_new = Inr db \<and>
     DBImpl_Put memdb_ops sample_env [1] [2, 3] db = Inr (st, db') \<and> db_inv memdb_inv memdb_index 999 db'"
proof -
  obtain db where db: "DBImpl_new sample_env sample_opts sample_files memdb_new = Inr db"
    "db_inv memdb_inv memdb_index (Suc 999) db"
    by (rule sample_db) simp
  then show ?thesis
    using Put_refines [OF memdb.rocksdb_axioms db(2), of "[2, 3]" sample_env "[1]"] by auto
qed

text \<open>C6: On a store whose caches agree with it, \<open>Get\<close> returns, changes neither the contents nor the
  agreement, and a successful result is the value of the key; without RocksDB errors a key with a visible
  copy of its value is always found.\<close>

theorem Get_correct:
  assumes "rocksdb R rinv index" and "db_inv rinv index (Suc N) db" and "coherent index db" and "full_io E"
  shows "\<exists>st out db'. DBImpl_Get R E k [] db = Inr ((st, out), db') \<and> db_inv rinv index N db' \<and>
    coherent index db' \<and> db_abs index db' = db_abs index db \<and>
    (st = Status_OK \<and> db_abs index db k = Some out \<or>
     st = Status_NotFound [] [] \<and> out = [] \<and>
     (rocks_map_ok R rinv index \<longrightarrow> db_abs index db k = None \<or> \<not> visible index db k))"
proof -
  obtain st out db' where g: "DBImpl_Get R E k [] db = Inr ((st, out), db')" "db_inv rinv index N db'"
    "same_store index db db'" "coherent index db'"
    "st = Status_OK \<and> db_abs index db k = Some out \<or>
     st = Status_NotFound [] [] \<and> out = [] \<and> (rocksdb.get_fine R rinv \<longrightarrow> db_abs index db k = None \<or> \<not> visible index db k)"
    by (rule rocksdb.Get_coherent [OF assms, of k]) (rule that)
  have "rocksdb.get_fine R rinv" if "rocks_map_ok R rinv index"
    using rocks_map_ok.get_ok [OF that] rocksdb.get_fine_def [OF assms(1)] by simp
  then show ?thesis using g same_store_abs(1) [OF g(3)] by blast
qed

theorem Get_correct_witness:
  "\<exists>db db'. DBImpl_new sample_env sample_opts sample_files memdb_new = Inr db \<and>
     DBImpl_Get memdb_ops sample_env [1] [] db = Inr ((Status_NotFound [] [], []), db') \<and> coherent memdb_index db'"
proof -
  obtain db where db: "DBImpl_new sample_env sample_opts sample_files memdb_new = Inr db"
    "db_inv memdb_inv memdb_index (Suc 999) db" "coherent memdb_index db" "db_abs memdb_index db = Map.empty"
    by (rule sample_db) simp
  then show ?thesis
    using Get_correct [OF memdb.rocksdb_axioms db(2,3) sample_io, of "[1]"] by auto
qed



text \<open>C7: A store that is closed and opened again has the same contents, holds all of them in the log files,
  and starts with caches that agree with it.\<close>

theorem reopen_keeps:
  assumes "rocksdb R rinv index" and "db_inv rinv index (Suc N) db" and "full_io E" and "statistics (options db) \<noteq> None"
  shows "\<exists>files r db'. DBImpl_delete E db = Inr (files, r) \<and> DB_Open E (options db) files r = Inr (Status_OK, db') \<and>
    db_inv rinv index N db' \<and> coherent index db' \<and> db_abs index db' = db_abs index db \<and> (\<forall>k. flushed (key_log db' k))"
proof -
  obtain ts where ts: "statistics (options db) = Some ts" using assms(4) by auto
  show ?thesis
    by (rule rocksdb.reopen_ok [OF assms(1-3) ts]) (auto simp: DB_Open_def)
qed

theorem reopen_keeps_witness:
  "\<exists>db files r db'. DBImpl_new sample_env sample_opts sample_files memdb_new = Inr db \<and>
     DBImpl_delete sample_env db = Inr (files, r) \<and> DB_Open sample_env sample_opts files r = Inr (Status_OK, db') \<and>
     db_abs memdb_index db' = Map.empty"
proof -
  obtain db where db: "DBImpl_new sample_env sample_opts sample_files memdb_new = Inr db"
    "db_inv memdb_inv memdb_index (Suc 999) db" "db_abs memdb_index db = Map.empty" "options db = sample_opts"
    by (rule sample_rel) simp
  have "statistics (options db) \<noteq> None" by (simp add: db(4) sample_opts_def)
  from reopen_keeps [OF memdb.rocksdb_axioms db(2) sample_io this] show ?thesis using db by auto
qed

text \<open>C8: \<open>Delete\<close> returns success, removes the key from the store and from the caches and touches no other
  key; when RocksDB fails the store may be unchanged although success is reported.\<close>

theorem Delete_refines:
  assumes "rocksdb R rinv index" and "db_inv rinv index N db" and "coherent index db"
  shows "\<exists>db'. DBImpl_Delete R e1 e2 k db = Inr (Status_OK, db') \<and> db_inv rinv index N db' \<and> coherent index db' \<and>
    dc_holds db' k = None \<and> wb_holds db' k = None \<and>
    (db_abs index db' = (db_abs index db)(k := None) \<or>
     \<not> rocks_map_ok R rinv index \<and> db_abs index db' = db_abs index db)"
proof -
  obtain db' where d: "DBImpl_Delete R e1 e2 k db = Inr (Status_OK, db')" "db_inv rinv index N db'"
    "db_abs index db' = (db_abs index db)(k := None) \<or> db_abs index db' = db_abs index db"
    "(\<forall>r k. rinv r \<longrightarrow> fst (rocks_Delete R k r) = ROk) \<longrightarrow> db_abs index db' = (db_abs index db)(k := None)"
    "dc_holds db' = (dc_holds db)(k := None)" "wb_holds db' = (wb_holds db)(k := None)"
    by (rule rocksdb.Delete_ok [OF assms(1,2), of e1 e2 k]) (rule that)
  have "coherent index db'" by (rule coherent_erase [OF assms(3) d(5,6,3)])
  moreover have "db_abs index db' = (db_abs index db)(k := None)" if "rocks_map_ok R rinv index"
    using d(4) rocks_map_ok.delete_ok [OF that] by blast
  ultimately show ?thesis using d by auto
qed

theorem Delete_refines_witness:
  "\<exists>db db'. DBImpl_new sample_env sample_opts sample_files memdb_new = Inr db \<and>
     DBImpl_Delete memdb_ops True False [1] db = Inr (Status_OK, db') \<and> db_abs memdb_index db' = Map.empty"
proof -
  obtain db where db: "DBImpl_new sample_env sample_opts sample_files memdb_new = Inr db"
    "db_inv memdb_inv memdb_index 1000 db" "coherent memdb_index db" "db_abs memdb_index db = Map.empty"
    by (rule sample_db)
  then show ?thesis
    using Delete_refines [OF memdb.rocksdb_axioms db(2,3), of True False "[1]"] by auto
qed




text \<open>A data cache that holds one entry and has room for more.\<close>

lemma warm_cache:
  obtains c where "data_cache.ready 1000 c" "opt_contents cache_contents c [1] = Some [2]" "opt_fits (sc_fits fits) c [1] [3]"
proof -
  obtain s :: byte_cache where s: "NewLRUCache 4096 0 = Inr (Some s)"
    "lru_shard.sharded.rest s" "sc_load load s = 0" "cache_contents s = Map.empty"
    by (rule NewLRUCache_ok [of 0 4096]) (simp, rule that)
  then have r: "data_cache.ready (Suc 1000) (Some s)"
    by (simp add: opt_ok_def handle_reads lru_shard.sharded.rest_def lru_shard.sharded.quiet_def data_cache.rest_def
        data_cache.quiet_def)
  obtain c where f: "data_cache.ready 1000 c" "fill_rel [1] [2] (data_cache.holds (Some s)) (data_cache.holds c)"
    "data_cache.holds c [1] \<noteq> None"
    by (rule data_cache.fill_ok [OF r, of CACHE_FILL "[1]" "[2]" None]) (auto intro: that)
  then obtain x where x: "c = Some x" by (cases c) (auto simp: opt_contents_def)
  let ?n = "usage (GetShard x (sc_shard [1] x)) + entry_charge [1] (sizeof_CacheEntry + 1)"
  let ?x = "ShardedCache_SetCapacity LRUCacheShard_SetCapacity (?n * length (shards x)) x"
  have l: "length (shards x) > 0" using f(1) x by (simp add: opt_ok_def data_cache.rest_def sc_invar_def)
  note k = SetCapacity_ready [OF f(1) [unfolded x], where cap = "?n * length (shards x)"]
  have "sc_fits fits ?x [1] (sizeof_CacheEntry + 1)" by (rule k(3)) (use l in simp)
  moreover have "data_cache.holds c [1] = Some [2]" using f(2,3) s(4) by (auto simp: fill_rel_def opt_contents_def)
  ultimately show thesis using k(1,2) x by (intro that [of "Some ?x"]) (simp_all add: opt_contents_def opt_fits_def)
qed




text \<open>C39: The value of an iterator comes from the log file alone: for an entry that is still in the log buffer the read
  returns nothing, and \<open>value()\<close> gives what the freshly allocated buffer happened to hold.\<close>

theorem iterator_value_unflushed:
  assumes "rocksdb_ok R rinv index" and "db_inv rinv index N db" and "full_io E" and "\<not> prefetch_ena it"
    and "DBIterator_key it = Inr k" and "index (rdb db) k = Some m" and "length (log_file (key_log db k)) \<le> unat (logOffset m)"
  shows "\<exists>it' db'. DBIterator_value R E pick it db =
    Inr ((chunk (unat (logOffset m) mod 4096) (unat (valSize m)) (alloc E (unat (rSize m))), it'), db')"
proof -
  have rm: "rocks_map_ok R rinv index" using assms(1) by (simp add: rocksdb_ok_def)
  have ri: "rinv (rdb db)" and pl: "placed m (key_log db k)" and lo: "logs_ok N db"
    using assms(2,6) by (simp_all add: db_inv_def index_ok_def)
  have d: "4096 dvd length (log_file (vlogs db ! log_of k))" using lo by (simp add: logs_ok_def vlog_inv_def)
  have m: "length m = 12" "unat (valSize m) \<le> 4096" using pl by (simp_all add: placed_def entry_in_def)
  have io: "sys E (ios db) = Full" using assms(3) by (simp add: full_io_def)
  obtain r' where g: "rocks_Get R k (rdb db) = (ROk, m, r')"
    by (rule rocks_map_ok.get_index [OF rm ri, of k]) (use assms(6) in auto)
  have "unat (logOffset m) mod 4096 + unat (valSize m) \<le> unat (rSize m)"
    unfolding rSize_ok(1) [OF m(2)] by (rule roundUp_ge)
  then show ?thesis
    using assms(4,5) g m read_unflushed [OF d assms(7) [unfolded key_log_def] io] rSize_ok(2) [OF m(2)]
    by (simp add: DBIterator_value_def direct_value_def sbind_def ret_def on_rdb_def alloc_read_buf_def value_in_buf_def
        aligned_diff alloc_def)
qed

text \<open>A store with one entry of two bytes that is still in the log buffer.\<close>

lemma buffered_db:
  obtains db where "db_inv memdb_inv memdb_index 10 db" "memdb_index (rdb db) [1] = Some (metaVal 0 2)"
    "\<And>k. log_file (key_log db k) = []"
proof -
  obtain db0 where db0: "DBImpl_new sample_env sample_opts sample_files memdb_new = Inr db0"
    "db_inv memdb_inv memdb_index 1000 db0" "options db0 = sample_opts" "rdb db0 = memdb_new"
    by (rule sample_rel)
  have vl: "vlogs db0 = replicate LOG_PARTITION (open_log sample_env sample_opts None)"
    using db0(1) by (auto simp: DBImpl_new_def sample_files_def rbind_def split: sum.splits option.splits)
  obtain r where r: "rocks_Put memdb_ops [1] (metaVal 0 2) memdb_new = (ROk, r)" "memdb_inv r"
    "memdb_index r = (memdb_index memdb_new)([1] \<mapsto> metaVal 0 2)"
    by (rule memdb.put_index [OF memdb_new_ok(1), of "[1]" "metaVal 0 2"])
  let ?db = "db0\<lparr>rdb := r, vlogs := map (\<lambda>vl. vl\<lparr>log_buf_offset := 2\<rparr>) (vlogs db0)\<rparr>"
  have kl: "key_log ?db k = (open_log sample_env sample_opts None)\<lparr>log_buf_offset := 2\<rparr>" for k
    using vl by (simp add: key_log_def)
  have B: "unat (part_size sample_opts) = 4194304" by (rule sample_part)
  have ol: "log_file (open_log sample_env sample_opts None) = []" "lba (open_log sample_env sample_opts None) = 0"
    "length (log_buf (open_log sample_env sample_opts None)) = 4194304"
    using B by (simp_all add: open_log_def alloc_def sample_opts_def Options_new_def)
  have "logs_ok 10 ?db"
    using db0(3) vl ol B by (simp add: logs_ok_def vlog_inv_def part_ok_def)
  moreover have "caches_ok 10 ?db"
    using caches_ok_mono [of 1000 db0 10] db0(2) by (simp add: db_inv_def caches_ok_def)
  moreover have "index_ok memdb_index ?db"
    using r(3) ol by (auto simp: index_ok_def kl placed_def entry_in_def log_bytes_def split: if_splits)
  ultimately show thesis
    using r(2,3) ol(1) kl by (intro that [of ?db]) (simp_all add: db_inv_def)
qed

theorem iterator_value_unflushed_witness:
  "\<exists>db it it' db'. memdb_index (rdb db) [1] = Some (metaVal 0 2) \<and> DBIterator_key it = Inr [1] \<and>
     DBIterator_value memdb_ops sample_env id it db = Inr (([0, 0], it'), db')"
proof -
  obtain db where db: "db_inv memdb_inv memdb_index 10 db" "memdb_index (rdb db) [1] = Some (metaVal 0 2)"
    "\<And>k. log_file (key_log db k) = []"
    by (rule buffered_db) (rule that)
  define it where "it = \<lparr>snap = [([1], metaVal 0 2)], it_pos = [([1], metaVal 0 2)], value_buf = [], valid = True,
    prefetch_ena = False, key_queue = [], pkey_queue = [], val_queue = [], valid_queue = [], prefetch_depth = 1, queue_cur = 0\<rparr>"
  have k: "DBIterator_key it = Inr [1]" and pe: "\<not> prefetch_ena it" by (simp_all add: it_def DBIterator_key_def)
  have rs: "unat (rSize (metaVal 0 2)) = 4096" by (subst rSize_ok(1)) simp_all
  have zeros: "chunk 0 2 (alloc sample_env n) = [0, 0]" if "2 \<le> n" for n
    using that by (simp add: chunk_def alloc_def sample_env_def take_map numeral_2_eq_2)
  have "chunk 0 2 (alloc sample_env (unat (rSize (metaVal 0 2)))) = [0, 0]" by (rule zeros) (simp add: rs)
  then show ?thesis
    using iterator_value_unflushed [OF memdb.rocksdb_ok_axioms db(1) sample_io pe k db(2), of id] db(2,3) k
    by auto
qed

text \<open>C40: \<open>Put\<close> checks no bounds: a value that is longer than what is left of the log buffer of its partition is
  copied past the end of the buffer.\<close>

theorem Put_overflows:
  assumes "db_inv rinv index (Suc N) db" and "length v < 2 ^ 31"
    and "unat (log_buf_offset (key_log db k)) + length v > unat (part_size (options db))"
  shows "DBImpl_Put R E k v db = Inl Heap_Overflow"
proof -
  have ca: "caches_ok (Suc N) db" and lo: "logs_ok (Suc N) db" using assms(1) by (simp_all add: db_inv_def)
  let ?db0 = "db\<lparr>stats := RecordTick REQ_PUT (stats db)\<rparr>"
  have ca0: "caches_ok (Suc N) ?db0" using ca by (simp add: caches_ok_def)
  obtain h d1 d2 bh d3 d4 where m: "on_cache (insert_cache k v) ?db0 = Inr (h, d1)"
    "on_cache (release_cache_entry h) d1 = Inr ((), d2)"
    "on_buffer (log_of k) (insert_buffer k v) d2 = Inr (bh, d3)"
    "on_buffer (log_of k) (release_buffer_entry bh) d3 = Inr ((), d4)" "options d4 = options ?db0" "vlogs d4 = vlogs ?db0"
    by (rule put_memory [OF ca0, of k v]) (rule that)
  have w: "unat (wSize v) = length v"
  proof -
    have "sint (of_nat (length v) :: 32 word) = int (length v)"
      using assms(2) by (simp add: signed_of_nat signed_take_bit_int_eq_self)
    then have "wSize v = of_nat (length v)" unfolding wSize_def by (metis of_int_of_nat_eq of_int_sint)
    then show ?thesis using assms(2) unat_of_nat_small [of "length v", where 'a = 64] by simp
  qed
  have "length (log_buf (vlogs db ! log_of k)) = unat (part_size (options db))"
    using lo by (simp add: logs_ok_def vlog_inv_def)
  then have "on_log (log_of k) (append_value E (part_size (options d4)) v (wSize v)) d4 = Inl Heap_Overflow"
    using m(5,6) assms(3) w by (simp add: on_log_def append_value_def Let_def key_log_def)
  then show ?thesis
    using m(1-4) by (simp add: DBImpl_Put_def Let_def)
qed

theorem Put_overflows_witness:
  "\<exists>db v. DBImpl_new sample_env sample_opts sample_files memdb_new = Inr db \<and>
     DBImpl_Put memdb_ops sample_env [1] v db = Inl Heap_Overflow"
proof -
  obtain db where db: "DBImpl_new sample_env sample_opts sample_files memdb_new = Inr db"
    "db_inv memdb_inv memdb_index (Suc 999) db" "options db = sample_opts"
    by (rule sample_rel) simp
  let ?v = "replicate (unat (part_size sample_opts) + 1) (0 :: byte)"
  have "length ?v < 2 ^ 31" by (simp add: sample_part)
  then have "DBImpl_Put memdb_ops sample_env [1] ?v db = Inl Heap_Overflow"
    by (rule Put_overflows [OF db(2)]) (simp add: db(3))
  then show ?thesis using db(1) by blast
qed

text \<open>The constructor dereferences the statistics object, so that opening a store with the default options, which
  have none, crashes whatever the directory holds.\<close>

theorem open_without_statistics:
  "DB_Open E (Options_new getenv) files r = Inl Null_Deref"
proof -
  let ?o = "Options_new getenv"
  obtain wb where "write_buffer_new ?o = Inr (Some wb)"
    by (rule write_buffer_new_ok [of 0 ?o]) simp_all
  moreover obtain dc where "data_cache_new ?o = Inr dc"
    by (rule data_cache_new_ok [of 0 ?o]) simp_all
  moreover have "statistics ?o = None" by (simp add: Options_new_def Let_def split: option.split)
  ultimately show ?thesis by (simp add: DB_Open_def DBImpl_new_def)
qed

end
